(* ===== verification/Prelude.thy ===== *)
theory Prelude
  imports Main "HOL-Library.Word" "HOL-Library.Monad_Syntax"
begin

text \<open>
  Shared vocabulary of the development: the fixed-width integer types of the C sources, the
  counting loops the sources write over them, byte-array copies, and the word and list lemmas
  that the component theories share. Nothing here models a function of the kernel.
\<close>

unbundle bit_operations_syntax

section \<open>C integer types\<close>

type_synonym u8 = "8 word"
type_synonym u16 = "16 word"
type_synonym u32 = "32 word"
type_synonym u64 = "64 word"

text \<open>An array of bytes, and a C string without its terminating NUL.\<close>

type_synonym bytes = "u8 list"

named_theorems word_nat \<open>unsigned values of word expressions\<close>

section \<open>Words\<close>

lemma unat_drop_bit_div [word_nat]: "unat (drop_bit n (i :: 'a::len word)) = unat i div 2 ^ n"
  by (subst unat_drop_bit_eq) (simp add: drop_bit_eq_div)

lemma unat_take_bit_mod [word_nat]: "unat (take_bit n (i :: 'a::len word)) = unat i mod 2 ^ n"
  by (subst unsigned_take_bit_eq) (simp add: take_bit_eq_mod)

lemma unat_and_mask [word_nat]: "unat ((i :: 'a::len word) AND mask n) = unat i mod 2 ^ n"
  by (metis take_bit_eq_mask unat_take_bit_mod)

lemma unat_and_not_mask [word_nat]:
  "unat ((i :: 'a::len word) AND NOT (mask n)) = unat i div 2 ^ n * 2 ^ n"
proof -
  have "i - (i AND mask n) = i AND NOT (i AND mask n)"
    by (rule disjunctive_diff) (simp add: bit_and_iff)
  moreover have "i AND NOT (i AND mask n) = i AND NOT (mask n)"
    by (rule bit_word_eqI) (auto simp: bit_simps)
  ultimately have "i AND NOT (mask n) = i - (i AND mask n)"
    by simp
  moreover have "i AND mask n \<le> i"
    by (rule word_and_le2)
  ultimately have "unat (i AND NOT (mask n)) = unat i - unat i mod 2 ^ n"
    by (simp add: unat_sub unat_and_mask)
  then show ?thesis
    by (simp add: minus_mod_eq_div_mult)
qed

lemma unat_add_nowrap:
  "unat (a :: 'a::len word) + unat b < 2 ^ LENGTH('a) \<Longrightarrow> unat (a + b) = unat a + unat b"
  by (simp add: unat_word_ariths)

lemma unat_of_nat_small: "n < 2 ^ LENGTH('a) \<Longrightarrow> unat (of_nat n :: 'a::len word) = n"
  by (simp add: unat_of_nat)

lemma unat_ucast_up:
  "LENGTH('a) \<le> LENGTH('b) \<Longrightarrow> unat (ucast (x :: 'a::len word) :: 'b::len word) = unat x"
proof -
  assume "LENGTH('a) \<le> LENGTH('b)"
  then have "(2 :: nat) ^ LENGTH('a) \<le> 2 ^ LENGTH('b)"
    by simp
  then have "unat x < 2 ^ LENGTH('b)"
    using unsigned_less [of x, where 'a = nat] by (rule order_less_le_trans [rotated])
  then show ?thesis
    by (simp add: unsigned_ucast_eq take_bit_nat_eq_self)
qed

lemma unat_ucast_32_64 [simp]: "unat (ucast (x :: u32) :: u64) = unat x"
  by (rule unat_ucast_up) simp

lemma sint_small_gen:
  assumes "unat (k :: 'a::len word) < 2 ^ (LENGTH('a) - Suc 0)"
  shows "sint k = int (unat k)"
proof -
  have "int (unat k) < int (2 ^ (LENGTH('a) - Suc 0))"
    using assms by (simp only: of_nat_less_iff)
  then have "uint k < 2 ^ (LENGTH('a) - Suc 0)"
    by simp
  then have "signed_take_bit (LENGTH('a) - Suc 0) (uint k) = uint k"
    by (intro signed_take_bit_int_eq_self) (simp_all add: order_trans [OF _ uint_ge_0])
  then have "sint k = uint k"
    unfolding sint_uint .
  then show ?thesis
    by simp
qed

lemma sint_small: "unat (k :: u64) < 2 ^ 63 \<Longrightarrow> sint k = int (unat k)"
  using sint_small_gen [of k] by simp

lemma unat_mult_nowrap:
  "unat (a :: 'a::len word) * unat b < 2 ^ LENGTH('a) \<Longrightarrow> unat (a * b) = unat a * unat b"
  by (simp add: unat_word_ariths)

lemma word_Suc_nowrap: "(i :: 'a::len word) < n \<Longrightarrow> unat (i + 1) = Suc (unat i)"
proof -
  assume "i < n"
  then have "Suc (unat i) \<le> unat n"
    by (simp add: word_less_nat_alt)
  also have "unat n < 2 ^ LENGTH('a)"
    by (rule unsigned_less)
  finally have "unat i + unat (1 :: 'a word) < 2 ^ LENGTH('a)"
    by simp
  then show ?thesis
    by (simp add: unat_add_nowrap)
qed

text \<open>Counting up to a bound never wraps: the termination measure of every \<open>i++\<close> loop.\<close>

lemma upto_measure: "(i :: 'a::len word) < n \<Longrightarrow> unat n - unat (i + 1) < unat n - unat i"
  by (simp add: word_Suc_nowrap word_less_nat_alt)

section \<open>Counting loops\<close>

text \<open>
  The loop \<^verbatim>\<open>for (uint64_t i = start; i < stop; i += step) body\<close>. The addition wraps, so such a loop may run
  for ever; not returning is \<open>None\<close>.
\<close>

partial_function (option) for_u64 ::
  "u64 \<Rightarrow> u64 \<Rightarrow> u64 \<Rightarrow> (u64 \<Rightarrow> 's \<Rightarrow> 's) \<Rightarrow> 's \<Rightarrow> 's option" where
  "for_u64 i stop step body s =
     (if i < stop then for_u64 (i + step) stop step body (body i s) else Some s)"

lemma for_u64_done: "\<not> i < stop \<Longrightarrow> for_u64 i stop step body s = Some s"
  by (simp add: for_u64.simps)

lemma for_u64_step:
  "i < stop \<Longrightarrow> for_u64 i stop step body s = for_u64 (i + step) stop step body (body i s)"
  by (simp add: for_u64.simps [of i])

text \<open>
  When the bound is reached exactly, the loop returns: it runs its body once for each of the
  \<open>n\<close> values \<open>i, i + step, \<dots>\<close>.
\<close>

lemma for_u64_exact:
  assumes "unat i + n * unat step = unat stop" and "0 < unat step"
  shows "for_u64 i stop step body s =
    Some (fold body (map (\<lambda>k. i + of_nat k * step) [0..<n]) s)"
  using assms
proof (induction n arbitrary: i s)
  case 0
  then have "\<not> i < stop"
    by (simp add: word_less_nat_alt)
  then show ?case
    by (simp add: for_u64_done)
next
  case (Suc n)
  have lt: "i < stop"
    using Suc.prems by (simp add: word_less_nat_alt)
  have "unat i + unat step < 2 ^ 64"
    using Suc.prems(1) unsigned_less [of stop, where 'a = nat] by simp
  then have next_i: "unat (i + step) = unat i + unat step"
    by (intro unat_add_nowrap) simp
  have "for_u64 (i + step) stop step body (body i s) =
    Some (fold body (map (\<lambda>k. i + step + of_nat k * step) [0..<n]) (body i s))"
    using Suc.prems next_i by (intro Suc.IH) auto
  moreover have "map (\<lambda>k. i + of_nat k * step) [0..<Suc n] =
    i # map (\<lambda>k. i + step + of_nat k * step) [0..<n]"
    by (simp add: upt_conv_Cons map_Suc_upt [symmetric] algebra_simps del: upt_Suc)
  ultimately show ?case
    using lt by (simp add: for_u64_step)
qed

section \<open>Byte copies\<close>

text \<open>
  The byte loop \<^verbatim>\<open>for (i = 0; i < n; i++) d[i] = s[i]\<close> with \<^verbatim>\<open>d\<close> and \<^verbatim>\<open>s\<close> pointing \<open>doff\<close> and \<open>soff\<close> bytes
  into two different objects.
\<close>

definition copy_loop :: "'a list \<Rightarrow> nat \<Rightarrow> 'a list \<Rightarrow> nat \<Rightarrow> nat \<Rightarrow> 'a list" where
  "copy_loop dst doff src soff n = fold (\<lambda>i d. d[doff + i := src ! (soff + i)]) [0..<n] dst"

lemma length_copy_loop [simp]: "length (copy_loop dst doff src soff n) = length dst"
  unfolding copy_loop_def by (induction n) simp_all

lemma copy_loop_eq:
  assumes "doff + n \<le> length dst" and "soff + n \<le> length src"
  shows "copy_loop dst doff src soff n = take doff dst @ take n (drop soff src) @ drop (doff + n) dst"
  using assms
proof (induction n)
  case 0
  then show ?case
    by (simp add: copy_loop_def)
next
  case (Suc n)
  have IH: "copy_loop dst doff src soff n = take doff dst @ take n (drop soff src) @ drop (doff + n) dst"
    using Suc by simp
  have "copy_loop dst doff src soff (Suc n) = (copy_loop dst doff src soff n)[doff + n := src ! (soff + n)]"
    by (simp add: copy_loop_def)
  also have "\<dots> = take doff dst @ take n (drop soff src) @ (drop (doff + n) dst)[0 := src ! (soff + n)]"
    using Suc.prems unfolding IH by (simp add: list_update_append)
  also have "(drop (doff + n) dst)[0 := src ! (soff + n)] = src ! (soff + n) # drop (doff + Suc n) dst"
    using Suc.prems by (simp add: Cons_nth_drop_Suc [symmetric])
  also have "take n (drop soff src) @ src ! (soff + n) # drop (doff + Suc n) dst =
      take (Suc n) (drop soff src) @ drop (doff + Suc n) dst"
    using Suc.prems by (simp add: take_Suc_conv_app_nth)
  finally show ?case .
qed

lemma nth_copy_loop:
  assumes "doff + n \<le> length dst" and "soff + n \<le> length src" and "i < length dst"
  shows "copy_loop dst doff src soff n ! i =
    (if doff \<le> i \<and> i < doff + n then src ! (soff + (i - doff)) else dst ! i)"
  using assms by (auto simp: copy_loop_eq nth_append)

text \<open>The \<open>n\<close> bytes at \<open>off\<close>.\<close>

definition slice :: "nat \<Rightarrow> nat \<Rightarrow> 'a list \<Rightarrow> 'a list" where
  "slice off n xs = take n (drop off xs)"

lemma length_slice [simp]: "length (slice off n xs) = min n (length xs - off)"
  by (simp add: slice_def)

lemma nth_slice: "i < n \<Longrightarrow> off + i < length xs \<Longrightarrow> slice off n xs ! i = xs ! (off + i)"
  by (simp add: slice_def)

lemma slice_copy_same:
  assumes "doff + n \<le> length dst" and "soff + n \<le> length src"
  shows "slice doff n (copy_loop dst doff src soff n) = slice soff n src"
  using assms by (simp add: slice_def copy_loop_eq)

lemma slice_copy_other:
  assumes "doff + n \<le> length dst" and "soff + n \<le> length src"
    and "off + m \<le> doff \<or> doff + n \<le> off" and "off + m \<le> length dst"
  shows "slice off m (copy_loop dst doff src soff n) = slice off m dst"
  by (rule nth_equalityI) (use assms in \<open>auto simp: nth_slice nth_copy_loop\<close>)

section \<open>Searches\<close>

text \<open>
  A loop that returns the first index of a range that satisfies a test is \<open>find\<close> over the
  range's indices.
\<close>

lemma find_upt_Some:
  "find P [a..<b] = Some k \<longleftrightarrow> a \<le> k \<and> k < b \<and> P k \<and> (\<forall>j. a \<le> j \<and> j < k \<longrightarrow> \<not> P j)"
proof
  assume "find P [a..<b] = Some k"
  then obtain i where i: "i < b - a" "P (a + i)" "k = a + i" "\<forall>j<i. \<not> P (a + j)"
    by (auto simp: find_Some_iff)
  have "\<not> P j" if "a \<le> j" "j < k" for j
    using i(3,4) that by (metis add_less_cancel_left le_add_diff_inverse)
  with i show "a \<le> k \<and> k < b \<and> P k \<and> (\<forall>j. a \<le> j \<and> j < k \<longrightarrow> \<not> P j)"
    by auto
next
  assume k: "a \<le> k \<and> k < b \<and> P k \<and> (\<forall>j. a \<le> j \<and> j < k \<longrightarrow> \<not> P j)"
  then show "find P [a..<b] = Some k"
    by (auto simp: find_Some_iff intro!: exI [of _ "k - a"])
qed

lemma find_upt_None: "find P [a..<b] = None \<longleftrightarrow> (\<forall>j. a \<le> j \<and> j < b \<longrightarrow> \<not> P j)"
  by (auto simp: find_None_iff)

section \<open>Transition systems\<close>

text \<open>An invariant of a step relation: it holds at the start and every step keeps it.\<close>

locale step_invariant =
  fixes start :: "'s \<Rightarrow> bool" and step :: "'s \<Rightarrow> 's \<Rightarrow> bool" and inv :: "'s \<Rightarrow> bool"
  assumes start_inv: "start s \<Longrightarrow> inv s"
    and step_inv: "inv s \<Longrightarrow> step s s' \<Longrightarrow> inv s'"
begin

lemma steps_inv: "step\<^sup>*\<^sup>* s s' \<Longrightarrow> inv s \<Longrightarrow> inv s'"
  by (induction rule: rtranclp_induct) (auto intro: step_inv)

lemma reachable_inv: "start s \<Longrightarrow> step\<^sup>*\<^sup>* s s' \<Longrightarrow> inv s'"
  using steps_inv start_inv by blast

end

end
