(* ===== verification/Bitmap.thy ===== *)
theory Bitmap
  imports Prelude
begin

text \<open>
  Bit arrays stored in bytes. The physical memory manager (\<^verbatim>\<open>src/src/pmm.c\<close>) and the journalling file
  system (\<^verbatim>\<open>src/kernel/fs/mcsfs1j/m16_mcsfs_journal.c\<close>) each have their own copy of set and test, the former
  also of clear; they differ in the index type and in how byte and bit number are computed.
  Here is the abstract content of such an array, a set of bit numbers, and the contract that every
  copy meets. Each client theory interprets the contract on its own definitions.
\<close>

section \<open>The content of a byte array as a set of bit numbers\<close>

definition bits :: "bytes \<Rightarrow> nat set" where
  "bits bm = {n. n < 8 * length bm \<and> bit (bm ! (n div 8)) (n mod 8)}"

text \<open>The byte \<^verbatim>\<open>(uint8_t)(1u << n)\<close>; the shift is done at the width of \<^verbatim>\<open>unsigned int\<close>.\<close>

definition bit_byte :: "nat \<Rightarrow> u8" where
  "bit_byte n = ucast (push_bit n (1 :: u32))"

lemma bit_bit_byte: "n < 8 \<Longrightarrow> bit (bit_byte n) k \<longleftrightarrow> k = n"
  by (auto simp: bit_byte_def bit_simps)

lemma bits_less: "n \<in> bits bm \<Longrightarrow> n < 8 * length bm"
  by (simp add: bits_def)

lemma bits_set_byte:
  assumes "n < 8 * length bm"
  shows "bits (bm[n div 8 := bm ! (n div 8) OR bit_byte (n mod 8)]) = insert n (bits bm)"
proof -
  have "k = n" if "k div 8 = n div 8" "k mod 8 = n mod 8" for k
    using that by (metis div_mult_mod_eq)
  with assms show ?thesis
    by (auto simp: bits_def nth_list_update bit_or_iff bit_bit_byte)
qed

lemma bits_clear_byte:
  assumes "n < 8 * length bm"
  shows "bits (bm[n div 8 := bm ! (n div 8) AND NOT (bit_byte (n mod 8))]) = bits bm - {n}"
proof -
  have "k = n" if "k div 8 = n div 8" "k mod 8 = n mod 8" for k
    using that by (metis div_mult_mod_eq)
  with assms show ?thesis
    by (auto simp: bits_def nth_list_update bit_and_iff bit_not_iff bit_bit_byte)
qed

lemma bits_test_byte:
  assumes "n < 8 * length bm"
  shows "bm ! (n div 8) AND bit_byte (n mod 8) \<noteq> 0 \<longleftrightarrow> n \<in> bits bm"
proof -
  have "b AND bit_byte k \<noteq> 0 \<longleftrightarrow> bit b k" if "k < 8" for b k
    using that by (auto simp: bit_eq_iff [where ?'a = u8] bit_and_iff bit_bit_byte)
  then have "bm ! (n div 8) AND bit_byte (n mod 8) \<noteq> 0 \<longleftrightarrow> bit (bm ! (n div 8)) (n mod 8)"
    by simp
  with assms show ?thesis
    by (simp add: bits_def)
qed

lemma bits_all_ones: "(\<And>b. b \<in> set bm \<Longrightarrow> b = 0xFF) \<Longrightarrow> bits bm = {n. n < 8 * length bm}"
proof -
  assume *: "\<And>b. b \<in> set bm \<Longrightarrow> b = 0xFF"
  have "bit (0xFF :: u8) k" if "k < 8" for k
  proof -
    have "(0xFF :: u8) = mask 8"
      by (simp add: mask_eq_exp_minus_1)
    moreover have "bit (mask 8 :: u8) k"
      using that by (simp only: bit_mask_iff possible_bit_word) simp
    ultimately show ?thesis
      by metis
  qed
  moreover have "bm ! (n div 8) = 0xFF" if "n < 8 * length bm" for n
    using that by (intro *) simp
  ultimately show ?thesis
    by (auto simp: bits_def)
qed

lemma bits_zeros [simp]: "bits (replicate n 0) = {}"
  by (auto simp: bits_def)

section \<open>The contract of set, clear and test\<close>

locale bitmap_ops =
  fixes ix :: "'i \<Rightarrow> nat"
    and bset :: "bytes \<Rightarrow> 'i \<Rightarrow> bytes"
    and btest :: "bytes \<Rightarrow> 'i \<Rightarrow> bool"
  assumes test: "ix i < 8 * length bm \<Longrightarrow> btest bm i \<longleftrightarrow> ix i \<in> bits bm"
    and bits_set: "ix i < 8 * length bm \<Longrightarrow> bits (bset bm i) = insert (ix i) (bits bm)"
    and length_set: "length (bset bm i) = length bm"
begin

lemma test_set:
  "ix i < 8 * length bm \<Longrightarrow> ix j < 8 * length bm \<Longrightarrow>
   btest (bset bm i) j \<longleftrightarrow> ix i = ix j \<or> btest bm j"
  by (auto simp: test bits_set length_set)

lemma length_fold_set: "length (fold (\<lambda>i bm. bset bm i) is bm) = length bm"
  by (induction "is" arbitrary: bm) (simp_all add: length_set)

lemma bits_fold_set:
  "(\<And>i. i \<in> set is \<Longrightarrow> ix i < 8 * length bm) \<Longrightarrow>
   bits (fold (\<lambda>i bm. bset bm i) is bm) = ix ` set is \<union> bits bm"
  by (induction "is" arbitrary: bm) (auto simp: bits_set length_set)

end

locale bitmap_clear_ops = bitmap_ops +
  fixes bclr :: "bytes \<Rightarrow> 'a \<Rightarrow> bytes"
  assumes bits_clr: "ix i < 8 * length bm \<Longrightarrow> bits (bclr bm i) = bits bm - {ix i}"
    and length_clr: "length (bclr bm i) = length bm"
begin

lemma test_clr:
  "ix i < 8 * length bm \<Longrightarrow> ix j < 8 * length bm \<Longrightarrow>
   btest (bclr bm i) j \<longleftrightarrow> ix i \<noteq> ix j \<and> btest bm j"
  by (auto simp: test bits_clr length_clr)

lemma clr_set:
  "ix i < 8 * length bm \<Longrightarrow> \<not> btest bm i \<Longrightarrow> bits (bclr (bset bm i) i) = bits bm"
  by (auto simp: test bits_clr bits_set length_set)

end

end
