(* ===== verification/Pmm.thy ===== *)
theory Pmm
  imports Bitmap
begin

text \<open>
  The physical memory manager, \<^verbatim>\<open>src/src/pmm.c\<close> with \<^verbatim>\<open>src/include/pmm.h\<close>: a bitmap with one bit per 4 KiB frame
  (a set bit is a frame in use), counters, and a search hint.

  The state is the record \<^verbatim>\<open>struct pmm_state\<close>; its \<open>bitmap\<close> is the content of the caller's storage
  (the empty list where the C pointer is NULL). A pointer argument that the C code tests against NULL
  is an option here. The two range loops step by the page size with a wrapping addition, so
  the functions that contain them return \<open>None\<close> for a call that does not return.
\<close>

section \<open>State\<close>

definition PMM_PAGE_SIZE :: u64 where
  "PMM_PAGE_SIZE = 4096"

definition PMM_INVALID_FRAME :: u64 where
  "PMM_INVALID_FRAME = 0xFFFFFFFFFFFFFFFF"

definition UINT64_MAX :: u64 where
  "UINT64_MAX = 0xFFFFFFFFFFFFFFFF"

definition BOOT_MEM_USABLE :: u32 where
  "BOOT_MEM_USABLE = 1"

record boot_mem_region =
  region_base :: u64
  region_length :: u64
  region_type :: u32

record pmm_state =
  bitmap :: bytes
  bitmap_bytes :: u64
  max_phys :: u64
  frame_count :: u64
  free_frames :: u64
  used_frames :: u64
  reserved_frames :: u64
  ignored_frames :: u64
  next_hint :: u64
  pmm_initialized :: bool

section \<open>Operations\<close>

definition align_down :: "u64 \<Rightarrow> u64 \<Rightarrow> u64" where
  "align_down value align = value AND NOT (align - 1)"

definition align_up :: "u64 \<Rightarrow> u64 \<Rightarrow> u64" where
  "align_up value align = (value + align - 1) AND NOT (align - 1)"

definition checked_add_u64 :: "u64 \<Rightarrow> u64 \<Rightarrow> u64 option" where
  "checked_add_u64 a b = (if UINT64_MAX - a < b then None else Some (a + b))"

definition bitmap_set :: "bytes \<Rightarrow> u64 \<Rightarrow> bytes" where
  "bitmap_set bm index =
     bm[unat (drop_bit 3 index) :=
        bm ! unat (drop_bit 3 index) OR bit_byte (unat (index AND 7))]"

definition bitmap_clear :: "bytes \<Rightarrow> u64 \<Rightarrow> bytes" where
  "bitmap_clear bm index =
     bm[unat (drop_bit 3 index) :=
        bm ! unat (drop_bit 3 index) AND NOT (bit_byte (unat (index AND 7)))]"

definition bitmap_test :: "bytes \<Rightarrow> u64 \<Rightarrow> bool" where
  "bitmap_test bm index \<longleftrightarrow>
     bm ! unat (drop_bit 3 index) AND bit_byte (unat (index AND 7)) \<noteq> 0"

definition mark_frame_free :: "pmm_state \<Rightarrow> u64 \<Rightarrow> pmm_state" where
  "mark_frame_free pmm frame =
     (if frame \<ge> frame_count pmm then pmm
      else if bitmap_test (bitmap pmm) frame then
        let pmm = pmm\<lparr>bitmap := bitmap_clear (bitmap pmm) frame\<rparr>;
            pmm = pmm\<lparr>free_frames := free_frames pmm + 1\<rparr>;
            pmm = (if used_frames pmm > 0 then pmm\<lparr>used_frames := used_frames pmm - 1\<rparr> else pmm)
        in (if frame < next_hint pmm then pmm\<lparr>next_hint := frame\<rparr> else pmm)
      else pmm)"

definition mark_frame_used :: "pmm_state \<Rightarrow> u64 \<Rightarrow> pmm_state" where
  "mark_frame_used pmm frame =
     (if frame \<ge> frame_count pmm then pmm
      else if \<not> bitmap_test (bitmap pmm) frame then
        let pmm = pmm\<lparr>bitmap := bitmap_set (bitmap pmm) frame\<rparr>;
            pmm = (if free_frames pmm > 0 then pmm\<lparr>free_frames := free_frames pmm - 1\<rparr> else pmm)
        in pmm\<lparr>used_frames := used_frames pmm + 1\<rparr>
      else pmm)"

definition mark_range_free :: "pmm_state \<Rightarrow> u64 \<Rightarrow> u64 \<Rightarrow> pmm_state option" where
  "mark_range_free pmm base len =
     (case (if len = 0 then None else checked_add_u64 base len) of
        None \<Rightarrow> Some pmm
      | Some end' \<Rightarrow>
          let start = align_up base PMM_PAGE_SIZE;
              stop = align_down end' PMM_PAGE_SIZE
          in if stop \<le> start then Some pmm
             else if start \<ge> max_phys pmm then Some pmm
             else
               let (stop, pmm) =
                 (if stop > max_phys pmm
                  then (max_phys pmm,
                        pmm\<lparr>ignored_frames := ignored_frames pmm +
                             (align_down end' PMM_PAGE_SIZE - max_phys pmm) div PMM_PAGE_SIZE\<rparr>)
                  else (stop, pmm))
               in for_u64 start stop PMM_PAGE_SIZE
                    (\<lambda>addr pmm. mark_frame_free pmm (addr div PMM_PAGE_SIZE)) pmm)"

text \<open>The body of the loop of \<^verbatim>\<open>mark_range_used\<close>.\<close>

definition mark_used_at :: "u64 \<Rightarrow> pmm_state \<Rightarrow> pmm_state" where
  "mark_used_at addr pmm =
     (let was_free = \<not> bitmap_test (bitmap pmm) (addr div PMM_PAGE_SIZE);
          pmm = mark_frame_used pmm (addr div PMM_PAGE_SIZE)
      in if was_free then pmm\<lparr>reserved_frames := reserved_frames pmm + 1\<rparr> else pmm)"

definition mark_range_used :: "pmm_state \<Rightarrow> u64 \<Rightarrow> u64 \<Rightarrow> pmm_state option" where
  "mark_range_used pmm base len =
     (case (if len = 0 then None else checked_add_u64 base len) of
        None \<Rightarrow> Some pmm
      | Some end' \<Rightarrow>
          let start = align_down base PMM_PAGE_SIZE;
              stop = align_up end' PMM_PAGE_SIZE
          in if stop \<le> start then Some pmm
             else if start \<ge> max_phys pmm then Some pmm
             else
               let stop = (if stop > max_phys pmm then max_phys pmm else stop)
               in for_u64 start stop PMM_PAGE_SIZE mark_used_at pmm)"

definition pmm_zeroed :: pmm_state where
  "pmm_zeroed = \<lparr>bitmap = [], bitmap_bytes = 0, max_phys = 0, frame_count = 0, free_frames = 0,
     used_frames = 0, reserved_frames = 0, ignored_frames = 0, next_hint = 0,
     pmm_initialized = False\<rparr>"

definition pmm_zero_state :: "pmm_state option \<Rightarrow> pmm_state option" where
  "pmm_zero_state p = (case p of None \<Rightarrow> None | Some _ \<Rightarrow> Some pmm_zeroed)"

text \<open>The two loops over the regions of the boot memory map.\<close>

fun mark_usable_regions :: "boot_mem_region list \<Rightarrow> pmm_state \<Rightarrow> pmm_state option" where
  "mark_usable_regions [] pmm = Some pmm"
| "mark_usable_regions (r # rs) pmm =
     (if region_type r = BOOT_MEM_USABLE
      then mark_range_free pmm (region_base r) (region_length r) \<bind> mark_usable_regions rs
      else mark_usable_regions rs pmm)"

fun mark_other_regions :: "boot_mem_region list \<Rightarrow> pmm_state \<Rightarrow> pmm_state option" where
  "mark_other_regions [] pmm = Some pmm"
| "mark_other_regions (r # rs) pmm =
     (if region_type r \<noteq> BOOT_MEM_USABLE
      then mark_range_used pmm (region_base r) (region_length r) \<bind> mark_other_regions rs
      else mark_other_regions rs pmm)"

definition pmm_init_from_map ::
  "pmm_state option \<Rightarrow> boot_mem_region list option \<Rightarrow> bytes option \<Rightarrow> u64 \<Rightarrow> u64 \<Rightarrow>
   (bool \<times> pmm_state option) option" where
  "pmm_init_from_map p regions bitmap_storage bitmap_storage_bytes max_phys_bytes =
     (case (p, regions, bitmap_storage) of
        (Some _, Some (r # rs), Some storage) \<Rightarrow>
          if max_phys_bytes = 0 \<or> max_phys_bytes AND (PMM_PAGE_SIZE - 1) \<noteq> 0 then Some (False, p)
          else
            let frames = max_phys_bytes div PMM_PAGE_SIZE;
                required_bitmap_bytes = (frames + 7) div 8
            in if bitmap_storage_bytes < required_bitmap_bytes then Some (False, p)
               else
                 let pmm = pmm_zeroed
                       \<lparr>bitmap_bytes := required_bitmap_bytes, max_phys := max_phys_bytes,
                        frame_count := frames, free_frames := 0, used_frames := frames,
                        next_hint := 0,
                        bitmap := fold (\<lambda>i bm. bm[i := 0xFF]) [0..<unat required_bitmap_bytes] storage\<rparr>
                 in do {
                      pmm \<leftarrow> mark_usable_regions (r # rs) pmm;
                      pmm \<leftarrow> mark_range_used pmm 0 PMM_PAGE_SIZE;
                      pmm \<leftarrow> mark_other_regions (r # rs) pmm;
                      Some (True, Some (pmm\<lparr>pmm_initialized := True\<rparr>))
                    }
      | _ \<Rightarrow> Some (False, p))"

text \<open>The searches of \<^verbatim>\<open>pmm_alloc_frame\<close>: from the hint upwards, then from frame 0 up to the hint.\<close>

definition pmm_scan :: "pmm_state \<Rightarrow> u64 \<Rightarrow> u64 \<Rightarrow> u64 option" where
  "pmm_scan pmm from to =
     map_option of_nat
       (find (\<lambda>frame. \<not> bitmap_test (bitmap pmm) (of_nat frame)) [unat from..<unat to])"

definition pmm_take :: "pmm_state \<Rightarrow> u64 \<Rightarrow> u64 \<times> pmm_state" where
  "pmm_take pmm frame =
     (frame * PMM_PAGE_SIZE, (mark_frame_used pmm frame)\<lparr>next_hint := frame + 1\<rparr>)"

definition pmm_alloc_frame :: "pmm_state option \<Rightarrow> u64 \<times> pmm_state option" where
  "pmm_alloc_frame p =
     (case p of
        None \<Rightarrow> (PMM_INVALID_FRAME, None)
      | Some pmm \<Rightarrow>
          if \<not> pmm_initialized pmm \<or> free_frames pmm = 0 then (PMM_INVALID_FRAME, p)
          else
            (case pmm_scan pmm (next_hint pmm) (frame_count pmm) of
               Some frame \<Rightarrow> map_prod id Some (pmm_take pmm frame)
             | None \<Rightarrow>
                 (case pmm_scan pmm 0 (next_hint pmm) of
                    Some frame \<Rightarrow> map_prod id Some (pmm_take pmm frame)
                  | None \<Rightarrow> (PMM_INVALID_FRAME, p))))"

definition pmm_free_frame :: "pmm_state option \<Rightarrow> u64 \<Rightarrow> bool \<times> pmm_state option" where
  "pmm_free_frame p phys_addr =
     (case p of
        None \<Rightarrow> (False, None)
      | Some pmm \<Rightarrow>
          if \<not> pmm_initialized pmm then (False, p)
          else if phys_addr AND (PMM_PAGE_SIZE - 1) \<noteq> 0 \<or> phys_addr = 0 \<or> phys_addr \<ge> max_phys pmm
          then (False, p)
          else
            let frame = phys_addr div PMM_PAGE_SIZE
            in if \<not> bitmap_test (bitmap pmm) frame then (False, p)
               else (True, Some (mark_frame_free pmm frame)))"

definition pmm_reserve_range ::
  "pmm_state option \<Rightarrow> u64 \<Rightarrow> u64 \<Rightarrow> (bool \<times> pmm_state option) option" where
  "pmm_reserve_range p base len =
     (case p of
        None \<Rightarrow> Some (False, None)
      | Some pmm \<Rightarrow>
          if \<not> pmm_initialized pmm \<or> len = 0 then Some (False, p)
          else map_option (\<lambda>pmm. (True, Some pmm)) (mark_range_used pmm base len))"

definition pmm_is_frame_free :: "pmm_state option \<Rightarrow> u64 \<Rightarrow> bool" where
  "pmm_is_frame_free p phys_addr =
     (case p of
        None \<Rightarrow> False
      | Some pmm \<Rightarrow>
          if \<not> pmm_initialized pmm then False
          else if phys_addr AND (PMM_PAGE_SIZE - 1) \<noteq> 0 \<or> phys_addr \<ge> max_phys pmm then False
          else \<not> bitmap_test (bitmap pmm) (phys_addr div PMM_PAGE_SIZE))"

definition pmm_free_count :: "pmm_state option \<Rightarrow> u64" where
  "pmm_free_count p = (case p of None \<Rightarrow> 0 | Some pmm \<Rightarrow> free_frames pmm)"

definition pmm_used_count :: "pmm_state option \<Rightarrow> u64" where
  "pmm_used_count p = (case p of None \<Rightarrow> 0 | Some pmm \<Rightarrow> used_frames pmm)"

definition pmm_frame_count :: "pmm_state option \<Rightarrow> u64" where
  "pmm_frame_count p = (case p of None \<Rightarrow> 0 | Some pmm \<Rightarrow> frame_count pmm)"

section \<open>Alignment, checked addition, bitmap\<close>

lemma unat_page_size [simp]: "unat PMM_PAGE_SIZE = 4096"
  by (simp add: PMM_PAGE_SIZE_def)

lemma unat_align_down [word_nat]: "unat (align_down a PMM_PAGE_SIZE) = unat a div 4096 * 4096"
  using unat_and_not_mask [of a 12]
  by (simp add: align_down_def PMM_PAGE_SIZE_def mask_eq_exp_minus_1)

lemma unat_align_up [word_nat]:
  assumes "unat a + 4095 < 2 ^ 64"
  shows "unat (align_up a PMM_PAGE_SIZE) = (unat a + 4095) div 4096 * 4096"
proof -
  have "unat (a + 4095) = unat a + 4095"
    using assms by (simp add: unat_add_nowrap)
  then show ?thesis
    using unat_and_not_mask [of "a + 4095" 12]
    by (simp add: align_up_def PMM_PAGE_SIZE_def mask_eq_exp_minus_1 add_diff_eq [symmetric])
qed

lemma page_aligned [word_nat]: "a AND (PMM_PAGE_SIZE - 1) = 0 \<longleftrightarrow> 4096 dvd unat a"
  using and_mask_dvd_nat [of 12 a] by (simp add: PMM_PAGE_SIZE_def mask_eq_exp_minus_1)

lemma unat_div_page [word_nat]: "unat (a div PMM_PAGE_SIZE) = unat a div 4096"
  by (simp add: PMM_PAGE_SIZE_def unat_div)

lemma checked_add_u64_cases: "checked_add_u64 a b = None \<or> checked_add_u64 a b = Some (a + b)"
  by (simp add: checked_add_u64_def)

lemma checked_add_u64_Some:
  "checked_add_u64 a b = Some c \<longleftrightarrow> unat a + unat b < 2 ^ 64 \<and> c = a + b"
proof -
  have "a \<le> UINT64_MAX"
    using unsigned_less [of a, where 'a = nat] by (simp add: UINT64_MAX_def word_le_nat_alt)
  then have "unat (UINT64_MAX - a) = 2 ^ 64 - 1 - unat a"
    by (subst unat_sub) (simp_all add: UINT64_MAX_def)
  then show ?thesis
    using unsigned_less [of a, where 'a = nat]
    by (auto simp: checked_add_u64_def word_less_nat_alt)
qed

lemma checked_add_u64_None: "checked_add_u64 a b = None \<longleftrightarrow> 2 ^ 64 \<le> unat a + unat b"
  using checked_add_u64_cases [of a b] checked_add_u64_Some [of a b "a + b"] by auto

interpretation pmm_bits: bitmap_clear_ops unat bitmap_set bitmap_test bitmap_clear
proof -
  have and7: "unat (i AND 7) = unat i mod 8" for i :: u64
    using unat_and_mask [of i 3] by (simp add: mask_eq_exp_minus_1)
  have drop3: "unat (drop_bit 3 i) = unat i div 8" for i :: u64
    using unat_drop_bit_div [of 3 i] by simp
  show "bitmap_clear_ops unat bitmap_set bitmap_test bitmap_clear"
    by unfold_locales
      (simp_all only: bitmap_set_def bitmap_test_def bitmap_clear_def and7 drop3
         bits_set_byte bits_clear_byte bits_test_byte length_list_update)
qed

section \<open>The abstract state: the set of free frames\<close>

definition free_set :: "pmm_state \<Rightarrow> nat set" where
  "free_set p = {f. f < unat (frame_count p) \<and> f \<notin> bits (bitmap p)}"

text \<open>
  The bookkeeping invariant: the bitmap covers every frame, the counters agree with the bitmap, and
  no frame below the hint is free.
\<close>

definition pmm_wf :: "pmm_state \<Rightarrow> bool" where
  "pmm_wf p \<longleftrightarrow>
     unat (frame_count p) \<le> 8 * length (bitmap p) \<and>
     unat (max_phys p) = unat (frame_count p) * 4096 \<and>
     unat (free_frames p) = card (free_set p) \<and>
     unat (free_frames p) + unat (used_frames p) = unat (frame_count p) \<and>
     next_hint p \<le> frame_count p \<and>
     (\<forall>f \<in> free_set p. unat (next_hint p) \<le> f)"

text \<open>An initialised manager, in addition, never offers frame 0.\<close>

definition pmm_inv :: "pmm_state \<Rightarrow> bool" where
  "pmm_inv p \<longleftrightarrow> pmm_wf p \<and> pmm_initialized p \<and> 0 \<notin> free_set p"

lemma finite_free_set [simp]: "finite (free_set p)"
  by (simp add: free_set_def)

lemma free_set_less: "f \<in> free_set p \<Longrightarrow> f < unat (frame_count p)"
  by (simp add: free_set_def)

lemma card_free_set: "card (free_set p) \<le> unat (frame_count p)"
proof -
  have "free_set p \<subseteq> {..<unat (frame_count p)}"
    by (auto dest: free_set_less)
  then have "card (free_set p) \<le> card {..<unat (frame_count p)}"
    by (intro card_mono) auto
  then show ?thesis
    by simp
qed

lemma pmm_wf_frame_bound: "pmm_wf p \<Longrightarrow> unat (frame_count p) < 2 ^ 52"
  using unsigned_less [of "max_phys p", where 'a = nat] by (simp add: pmm_wf_def)

lemma bitmap_test_free:
  "pmm_wf p \<Longrightarrow> f < frame_count p \<Longrightarrow> bitmap_test (bitmap p) f \<longleftrightarrow> unat f \<notin> free_set p"
  by (simp add: pmm_wf_def free_set_def word_less_nat_alt pmm_bits.test)

lemma mark_frame_free_fields [simp]:
  "frame_count (mark_frame_free p f) = frame_count p"
  "max_phys (mark_frame_free p f) = max_phys p"
  "pmm_initialized (mark_frame_free p f) = pmm_initialized p"
  "length (bitmap (mark_frame_free p f)) = length (bitmap p)"
  by (simp_all add: mark_frame_free_def Let_def pmm_bits.length_clr)

lemma mark_frame_used_fields [simp]:
  "frame_count (mark_frame_used p f) = frame_count p"
  "max_phys (mark_frame_used p f) = max_phys p"
  "next_hint (mark_frame_used p f) = next_hint p"
  "pmm_initialized (mark_frame_used p f) = pmm_initialized p"
  "length (bitmap (mark_frame_used p f)) = length (bitmap p)"
  by (simp_all add: mark_frame_used_def Let_def pmm_bits.length_set)

lemma free_set_mark_frame_free:
  assumes "pmm_wf p"
  shows "free_set (mark_frame_free p f) =
    (if f < frame_count p then insert (unat f) (free_set p) else free_set p)"
proof (cases "f < frame_count p \<and> bitmap_test (bitmap p) f")
  case True
  have "unat f < 8 * length (bitmap p)"
    using True assms by (auto simp: pmm_wf_def word_less_nat_alt)
  then have "bits (bitmap (mark_frame_free p f)) = bits (bitmap p) - {unat f}"
    using True by (simp add: mark_frame_free_def Let_def pmm_bits.bits_clr not_le [symmetric])
  with True show ?thesis
    by (auto simp: free_set_def word_less_nat_alt)
next
  case False
  then have "mark_frame_free p f = p"
    by (auto simp: mark_frame_free_def)
  moreover have "unat f \<in> free_set p" if "f < frame_count p"
    using assms False that by (simp add: bitmap_test_free)
  ultimately show ?thesis
    by (auto simp: insert_absorb)
qed

lemma free_set_mark_frame_used:
  assumes "pmm_wf p"
  shows "free_set (mark_frame_used p f) = free_set p - {unat f}"
proof (cases "f < frame_count p \<and> \<not> bitmap_test (bitmap p) f")
  case True
  have "unat f < 8 * length (bitmap p)"
    using True assms by (auto simp: pmm_wf_def word_less_nat_alt)
  then have "bits (bitmap (mark_frame_used p f)) = insert (unat f) (bits (bitmap p))"
    using True by (simp add: mark_frame_used_def Let_def pmm_bits.bits_set not_le [symmetric])
  then show ?thesis
    by (auto simp: free_set_def)
next
  case False
  then have "mark_frame_used p f = p"
    by (auto simp: mark_frame_used_def)
  moreover have "unat f \<notin> free_set p"
    using False assms
    by (cases "f < frame_count p")
      (auto simp: bitmap_test_free word_less_nat_alt dest: free_set_less)
  ultimately show ?thesis
    by simp
qed

lemma mark_frame_free_wf:
  assumes wf: "pmm_wf p"
  shows "pmm_wf (mark_frame_free p f)"
proof (cases "f < frame_count p \<and> bitmap_test (bitmap p) f")
  case True
  let ?q = "mark_frame_free p f"
  from True wf have new: "unat f \<notin> free_set p"
    using bitmap_test_free by blast
  have fs: "free_set ?q = insert (unat f) (free_set p)"
    using True wf by (simp add: free_set_mark_frame_free)
  have "insert (unat f) (free_set p) \<subseteq> {..<unat (frame_count p)}"
    using True by (auto simp: word_less_nat_alt dest: free_set_less)
  then have "card (insert (unat f) (free_set p)) \<le> unat (frame_count p)"
    using card_mono [of "{..<unat (frame_count p)}"] by force
  with new have lt: "card (free_set p) < unat (frame_count p)"
    by simp
  with wf have used: "0 < unat (used_frames p)" and free: "free_frames p < frame_count p"
    by (auto simp: pmm_wf_def word_less_nat_alt)
  have "unat (free_frames ?q) = Suc (unat (free_frames p))"
    "unat (used_frames ?q) = unat (used_frames p) - 1"
    "next_hint ?q = (if f < next_hint p then f else next_hint p)"
    using True used free
    by (auto simp: mark_frame_free_def Let_def word_Suc_nowrap unat_sub word_le_nat_alt
        word_less_nat_alt)
  with wf True fs new used show ?thesis
    by (auto simp: pmm_wf_def word_less_nat_alt word_le_nat_alt)
next
  case False
  then have "mark_frame_free p f = p"
    by (auto simp: mark_frame_free_def)
  with wf show ?thesis
    by simp
qed

lemma mark_frame_used_wf:
  assumes wf: "pmm_wf p"
  shows "pmm_wf (mark_frame_used p f)"
proof (cases "f < frame_count p \<and> \<not> bitmap_test (bitmap p) f")
  case True
  let ?q = "mark_frame_used p f"
  from True wf have mem: "unat f \<in> free_set p"
    using bitmap_test_free by blast
  have fs: "free_set ?q = free_set p - {unat f}"
    using wf by (rule free_set_mark_frame_used)
  have "0 < card (free_set p)"
    using mem by (auto simp: card_gt_0_iff)
  with wf have free: "0 < unat (free_frames p)" and used: "used_frames p < frame_count p"
    by (auto simp: pmm_wf_def word_less_nat_alt)
  have "unat (used_frames ?q) = Suc (unat (used_frames p))"
    "unat (free_frames ?q) = unat (free_frames p) - 1"
    using True used free
    by (auto simp: mark_frame_used_def Let_def word_Suc_nowrap unat_sub word_le_nat_alt
        word_less_nat_alt)
  with wf fs mem free show ?thesis
    by (auto simp: pmm_wf_def)
next
  case False
  then have "mark_frame_used p f = p"
    by (auto simp: mark_frame_used_def)
  with wf show ?thesis
    by simp
qed

section \<open>Ranges\<close>

text \<open>The part of the state that no operation but initialisation changes.\<close>

definition same_geometry :: "pmm_state \<Rightarrow> pmm_state \<Rightarrow> bool" where
  "same_geometry p q \<longleftrightarrow>
     frame_count q = frame_count p \<and> max_phys q = max_phys p \<and>
     pmm_initialized q = pmm_initialized p"

lemma same_geometry_refl [simp]: "same_geometry p p"
  by (simp add: same_geometry_def)

lemma same_geometry_trans: "same_geometry p q \<Longrightarrow> same_geometry q r \<Longrightarrow> same_geometry p r"
  by (simp add: same_geometry_def)

lemma align_up_dvd: "4096 dvd unat (align_up a PMM_PAGE_SIZE)"
  using unat_and_not_mask [of "a + 4095" 12]
  by (simp add: align_up_def PMM_PAGE_SIZE_def mask_eq_exp_minus_1 add_diff_eq [symmetric])

lemma align_down_dvd: "4096 dvd unat (align_down a PMM_PAGE_SIZE)"
  by (simp add: unat_align_down)

lemma page_of_frame:
  assumes "f < 2 ^ 52"
  shows "(of_nat f * PMM_PAGE_SIZE) div PMM_PAGE_SIZE = of_nat f"
proof -
  have "unat (of_nat f * PMM_PAGE_SIZE) = f * 4096"
    using assms by (simp add: PMM_PAGE_SIZE_def unat_word_ariths unat_of_nat_small)
  then have "unat ((of_nat f * PMM_PAGE_SIZE) div PMM_PAGE_SIZE) = unat (of_nat f :: u64)"
    using assms by (simp add: unat_div_page unat_of_nat_small)
  then show ?thesis
    by (simp only: word_unat_eq_iff)
qed

lemma pages_loop:
  assumes "unat start = a * 4096" "unat stop = b * 4096" "a \<le> b"
  shows "for_u64 start stop PMM_PAGE_SIZE body s =
    Some (fold body (map (\<lambda>f. of_nat f * PMM_PAGE_SIZE) [a..<b]) s)"
proof -
  have start: "start = of_nat a * PMM_PAGE_SIZE"
  proof -
    have "start = of_nat (unat start)"
      by simp
    then show ?thesis
      by (simp only: assms(1) of_nat_mult of_nat_numeral PMM_PAGE_SIZE_def)
  qed
  have "for_u64 start stop PMM_PAGE_SIZE body s =
    Some (fold body (map (\<lambda>k. start + of_nat k * PMM_PAGE_SIZE) [0..<b - a]) s)"
    using assms by (intro for_u64_exact) (simp_all add: diff_mult_distrib)
  moreover have "map (\<lambda>k. start + of_nat k * PMM_PAGE_SIZE) [0..<b - a] =
    map (\<lambda>f. of_nat f * PMM_PAGE_SIZE) [a..<b]"
    using assms(3) by (intro nth_equalityI) (simp_all add: start algebra_simps)
  ultimately show ?thesis
    by simp
qed

lemma fold_mark_free:
  assumes "pmm_wf p" "\<And>f. f \<in> set fs \<Longrightarrow> f < unat (frame_count p)"
  defines "q \<equiv> fold (\<lambda>addr pmm. mark_frame_free pmm (addr div PMM_PAGE_SIZE))
                 (map (\<lambda>f. of_nat f * PMM_PAGE_SIZE) fs) p"
  shows "pmm_wf q \<and> same_geometry p q \<and> free_set q = free_set p \<union> set fs"
  using assms(1,2) unfolding q_def
proof (induction fs arbitrary: p)
  case Nil
  then show ?case by simp
next
  case (Cons f fs)
  let ?p = "mark_frame_free p (of_nat f)"
  have f: "f < unat (frame_count p)"
    using Cons.prems by simp
  then have f52: "f < 2 ^ 52"
    using pmm_wf_frame_bound [OF Cons.prems(1)] by simp
  have "free_set ?p = insert f (free_set p)"
    using Cons.prems(1) f f52
    by (simp add: free_set_mark_frame_free word_less_nat_alt unat_of_nat_small)
  moreover have "pmm_wf ?p" "same_geometry p ?p"
    using Cons.prems(1) by (simp_all add: mark_frame_free_wf same_geometry_def)
  ultimately show ?case
    using Cons.IH [of ?p] Cons.prems(2) f52
    by (auto simp: page_of_frame dest: same_geometry_trans)
qed

lemma mark_used_at:
  assumes "pmm_wf p" "f < unat (frame_count p)"
  defines "q \<equiv> mark_used_at (of_nat f * PMM_PAGE_SIZE) p"
  shows "pmm_wf q \<and> same_geometry p q \<and> free_set q = free_set p - {f}"
proof -
  have f52: "f < 2 ^ 52"
    using assms(2) pmm_wf_frame_bound [OF assms(1)] by simp
  have "pmm_wf (p'\<lparr>reserved_frames := n\<rparr>) = pmm_wf p'" for p' n
    by (simp add: pmm_wf_def free_set_def)
  moreover have "free_set (p'\<lparr>reserved_frames := n\<rparr>) = free_set p'" for p' n
    by (simp add: free_set_def)
  ultimately show ?thesis
    using assms(1) f52 unfolding q_def mark_used_at_def Let_def
    by (simp add: page_of_frame mark_frame_used_wf free_set_mark_frame_used same_geometry_def
        unat_of_nat_small)
qed

lemma fold_mark_used:
  assumes "pmm_wf p" "\<And>f. f \<in> set fs \<Longrightarrow> f < unat (frame_count p)"
  defines "q \<equiv> fold mark_used_at (map (\<lambda>f. of_nat f * PMM_PAGE_SIZE) fs) p"
  shows "pmm_wf q \<and> same_geometry p q \<and> free_set q = free_set p - set fs"
  using assms(1,2) unfolding q_def
proof (induction fs arbitrary: p)
  case Nil
  then show ?case by simp
next
  case (Cons f fs)
  let ?p = "mark_used_at (of_nat f * PMM_PAGE_SIZE) p"
  have p: "pmm_wf ?p \<and> same_geometry p ?p \<and> free_set ?p = free_set p - {f}"
    using Cons.prems by (intro mark_used_at) simp_all
  then have "frame_count ?p = frame_count p"
    by (simp add: same_geometry_def)
  with p show ?case
    using Cons.IH [of ?p] Cons.prems(2) by (auto dest: same_geometry_trans)
qed

text \<open>
  What the two range operations do to the free set, for every argument: they always return, and they
  act on the frames between the rounded ends of the range. The ends are rounded with wrapping
  arithmetic; the next section says what that means for ranges near the top of the address space.
\<close>

lemma ignored_frames_irrelevant [simp]:
  "free_set (p\<lparr>ignored_frames := n\<rparr>) = free_set p"
  "pmm_wf (p\<lparr>ignored_frames := n\<rparr>) = pmm_wf p"
  "same_geometry (p\<lparr>ignored_frames := n\<rparr>) q = same_geometry p q"
  by (simp_all add: free_set_def pmm_wf_def same_geometry_def)

text \<open>The frames whose first byte lies in an interval of addresses.\<close>

definition frames_between :: "pmm_state \<Rightarrow> nat \<Rightarrow> nat \<Rightarrow> nat set" where
  "frames_between p lo hi = {f. f < unat (frame_count p) \<and> lo \<le> f * 4096 \<and> f * 4096 < hi}"

lemma frames_between_empty:
  assumes "pmm_wf p" "stop \<le> start \<or> max_phys p \<le> start"
  shows "frames_between p (unat start) (unat stop) = {}"
  using assms by (auto simp: frames_between_def pmm_wf_def word_le_nat_alt)

lemma clipped_loop:
  fixes body :: "u64 \<Rightarrow> pmm_state \<Rightarrow> pmm_state"
  assumes wf: "pmm_wf p" and dvd: "4096 dvd unat start" "4096 dvd unat stop"
    and lt: "start < max_phys p" "start < stop"
  shows "\<exists>a b.
    (\<forall>s. for_u64 start (if max_phys p < stop then max_phys p else stop) PMM_PAGE_SIZE body s =
       Some (fold body (map (\<lambda>f. of_nat f * PMM_PAGE_SIZE) [a..<b]) s)) \<and>
    b \<le> unat (frame_count p) \<and> frames_between p (unat start) (unat stop) = {a..<b}"
proof -
  from dvd obtain a c where ac: "unat start = a * 4096" "unat stop = c * 4096"
    by (metis dvd_def mult.commute)
  have lim: "unat (max_phys p) = unat (frame_count p) * 4096"
    using wf by (simp add: pmm_wf_def)
  define b where "b = min c (unat (frame_count p))"
  have b: "unat (if max_phys p < stop then max_phys p else stop) = b * 4096" "a \<le> b"
    using ac lim lt by (auto simp: b_def word_less_nat_alt)
  show ?thesis
  proof (intro exI conjI allI)
    show "for_u64 start (if max_phys p < stop then max_phys p else stop) PMM_PAGE_SIZE body s =
       Some (fold body (map (\<lambda>f. of_nat f * PMM_PAGE_SIZE) [a..<b]) s)" for s
      using ac(1) b by (rule pages_loop)
    show "b \<le> unat (frame_count p)"
      by (simp add: b_def)
    show "frames_between p (unat start) (unat stop) = {a..<b}"
      by (auto simp: frames_between_def b_def ac)
  qed
qed

lemma mark_range_free_gen:
  assumes wf: "pmm_wf p"
  shows "\<exists>q. mark_range_free p base len = Some q \<and> pmm_wf q \<and> same_geometry p q \<and>
    free_set q = free_set p \<union>
      (if len \<noteq> 0 \<and> unat base + unat len < 2 ^ 64
       then frames_between p (unat (align_up base PMM_PAGE_SIZE))
              (unat (align_down (base + len) PMM_PAGE_SIZE))
       else {})"
proof -
  let ?start = "align_up base PMM_PAGE_SIZE"
  let ?stop = "align_down (base + len) PMM_PAGE_SIZE"
  consider (none) "checked_add_u64 base len = None \<or> len = 0"
    | (empty) "checked_add_u64 base len = Some (base + len)" "len \<noteq> 0"
        "?stop \<le> ?start \<or> max_phys p \<le> ?start"
    | (loop) "checked_add_u64 base len = Some (base + len)" "len \<noteq> 0"
        "?start < max_phys p" "?start < ?stop"
    using checked_add_u64_cases [of base len] by (meson not_le)
  then show ?thesis
  proof cases
    case none
    then have "mark_range_free p base len = Some p"
      by (auto simp: mark_range_free_def)
    with none wf show ?thesis
      by (auto simp: checked_add_u64_None)
  next
    case empty
    then have "mark_range_free p base len = Some p"
      by (auto simp: mark_range_free_def Let_def)
    with empty wf show ?thesis
      by (simp add: frames_between_empty)
  next
    case loop
    define p' where "p' = (if max_phys p < ?stop
      then p\<lparr>ignored_frames := ignored_frames p + (?stop - max_phys p) div PMM_PAGE_SIZE\<rparr> else p)"
    have p': "pmm_wf p'" "free_set p' = free_set p" "same_geometry p p'" "frame_count p' = frame_count p"
      using wf by (simp_all add: p'_def same_geometry_def)
    let ?body = "\<lambda>addr pmm. mark_frame_free pmm (addr div PMM_PAGE_SIZE)"
    have "mark_range_free p base len =
      for_u64 ?start (if max_phys p < ?stop then max_phys p else ?stop) PMM_PAGE_SIZE ?body p'"
      using loop by (auto simp: mark_range_free_def Let_def p'_def)
    moreover obtain a b where ab: "\<And>s. for_u64 ?start (if max_phys p < ?stop then max_phys p else ?stop)
        PMM_PAGE_SIZE ?body s = Some (fold ?body (map (\<lambda>f. of_nat f * PMM_PAGE_SIZE) [a..<b]) s)"
      "b \<le> unat (frame_count p)" "frames_between p (unat ?start) (unat ?stop) = {a..<b}"
      using clipped_loop [OF wf align_up_dvd align_down_dvd loop(3,4), of ?body] by blast
    moreover have "pmm_wf q \<and> same_geometry p' q \<and> free_set q = free_set p' \<union> set [a..<b]"
      if "q = fold ?body (map (\<lambda>f. of_nat f * PMM_PAGE_SIZE) [a..<b]) p'" for q
      unfolding that using p' ab(2) by (intro fold_mark_free) auto
    ultimately show ?thesis
      using p' loop(1,2) checked_add_u64_Some [of base len "base + len"]
      by (auto intro: same_geometry_trans)
  qed
qed

lemma mark_range_used_gen:
  assumes wf: "pmm_wf p"
  shows "\<exists>q. mark_range_used p base len = Some q \<and> pmm_wf q \<and> same_geometry p q \<and>
    free_set q = free_set p -
      (if len \<noteq> 0 \<and> unat base + unat len < 2 ^ 64
       then frames_between p (unat (align_down base PMM_PAGE_SIZE))
              (unat (align_up (base + len) PMM_PAGE_SIZE))
       else {})"
proof -
  let ?start = "align_down base PMM_PAGE_SIZE"
  let ?stop = "align_up (base + len) PMM_PAGE_SIZE"
  consider (none) "checked_add_u64 base len = None \<or> len = 0"
    | (empty) "checked_add_u64 base len = Some (base + len)" "len \<noteq> 0"
        "?stop \<le> ?start \<or> max_phys p \<le> ?start"
    | (loop) "checked_add_u64 base len = Some (base + len)" "len \<noteq> 0"
        "?start < max_phys p" "?start < ?stop"
    using checked_add_u64_cases [of base len] by (meson not_le)
  then show ?thesis
  proof cases
    case none
    then have "mark_range_used p base len = Some p"
      by (auto simp: mark_range_used_def)
    with none wf show ?thesis
      by (auto simp: checked_add_u64_None)
  next
    case empty
    then have "mark_range_used p base len = Some p"
      by (auto simp: mark_range_used_def Let_def)
    with empty wf show ?thesis
      by (simp add: frames_between_empty)
  next
    case loop
    have "mark_range_used p base len =
      for_u64 ?start (if max_phys p < ?stop then max_phys p else ?stop) PMM_PAGE_SIZE mark_used_at p"
      using loop by (auto simp: mark_range_used_def Let_def)
    moreover obtain a b where ab: "\<And>s. for_u64 ?start (if max_phys p < ?stop then max_phys p else ?stop)
        PMM_PAGE_SIZE mark_used_at s =
          Some (fold mark_used_at (map (\<lambda>f. of_nat f * PMM_PAGE_SIZE) [a..<b]) s)"
      "b \<le> unat (frame_count p)" "frames_between p (unat ?start) (unat ?stop) = {a..<b}"
      using clipped_loop [OF wf align_down_dvd align_up_dvd loop(3,4), of mark_used_at] by blast
    moreover have "pmm_wf q \<and> same_geometry p q \<and> free_set q = free_set p - set [a..<b]"
      if "q = fold mark_used_at (map (\<lambda>f. of_nat f * PMM_PAGE_SIZE) [a..<b]) p" for q
      unfolding that using wf ab(2) by (intro fold_mark_used) auto
    ultimately show ?thesis
      using loop(1,2) checked_add_u64_Some [of base len "base + len"] by auto
  qed
qed

section \<open>Allocation and release\<close>

lemma pmm_scan_Some:
  assumes "pmm_wf p" "from \<le> to" "to \<le> frame_count p" "pmm_scan p from to = Some f"
  shows "from \<le> f" "f < to" "unat f \<in> free_set p" "\<forall>g \<in> free_set p. unat from \<le> g \<longrightarrow> unat f \<le> g"
proof -
  from assms(4) obtain k where k: "f = of_nat k" "unat from \<le> k" "k < unat to"
      "\<not> bitmap_test (bitmap p) (of_nat k)"
      "\<forall>j. unat from \<le> j \<and> j < k \<longrightarrow> bitmap_test (bitmap p) (of_nat j)"
    by (auto simp: pmm_scan_def find_upt_Some)
  have small: "unat (of_nat j :: u64) = j" if "j \<le> k" for j
    using that k(3) unsigned_less [of to, where 'a = nat] by (intro unat_of_nat_small) simp
  have le: "unat to \<le> unat (frame_count p)"
    using assms(3) by (simp add: word_le_nat_alt)
  show "from \<le> f" "f < to"
    using k(1-3) small [of k] by (simp_all add: word_le_nat_alt word_less_nat_alt)
  show "unat f \<in> free_set p"
    using k small [of k] le bitmap_test_free [OF assms(1), of "of_nat k"]
    by (simp add: word_less_nat_alt)
  show "\<forall>g \<in> free_set p. unat from \<le> g \<longrightarrow> unat f \<le> g"
  proof (intro ballI impI, rule ccontr)
    fix g
    assume g: "g \<in> free_set p" "unat from \<le> g" "\<not> unat f \<le> g"
    then have "g < k"
      using k(1) small [of k] by simp
    then have "bitmap_test (bitmap p) (of_nat g)" "of_nat g < frame_count p"
      using k(3,5) g(2) le small [of g] by (auto simp: word_less_nat_alt)
    then show False
      using bitmap_test_free [OF assms(1), of "of_nat g"] small [of g] \<open>g < k\<close> g(1) by simp
  qed
qed

lemma pmm_scan_None:
  assumes "pmm_wf p" "pmm_scan p from to = None" "to \<le> frame_count p" "g \<in> free_set p" "g < unat to"
  shows "g < unat from"
proof (rule ccontr)
  assume "\<not> g < unat from"
  then have "bitmap_test (bitmap p) (of_nat g)"
    using assms(2,5) by (auto simp: pmm_scan_def find_upt_None)
  moreover have small: "unat (of_nat g :: u64) = g"
    using assms(5) unsigned_less [of to, where 'a = nat] by (intro unat_of_nat_small) simp
  then have "of_nat g < frame_count p"
    using assms(3,5) by (simp add: word_less_nat_alt word_le_nat_alt)
  ultimately show False
    using bitmap_test_free [OF assms(1), of "of_nat g"] assms(4) small by simp
qed

text \<open>
  Because no frame below the hint is free, the first search finds the lowest free frame whenever
  there is one, and the second search is never reached with a free frame left.
\<close>

lemma pmm_scan_hint:
  assumes wf: "pmm_wf p" and ne: "free_set p \<noteq> {}"
  shows "pmm_scan p (next_hint p) (frame_count p) = Some (of_nat (Min (free_set p)))"
proof (cases "pmm_scan p (next_hint p) (frame_count p)")
  case None
  obtain g where g: "g \<in> free_set p"
    using ne by blast
  then have "g < unat (next_hint p)"
    using pmm_scan_None [OF wf None] by (simp add: free_set_less)
  with g wf show ?thesis
    by (auto simp: pmm_wf_def)
next
  case (Some f)
  have hint: "next_hint p \<le> frame_count p" "\<forall>g \<in> free_set p. unat (next_hint p) \<le> g"
    using wf by (simp_all add: pmm_wf_def)
  have "unat f = Min (free_set p)"
    using pmm_scan_Some [OF wf hint(1) _ Some] hint(2)
    by (intro Min_eqI [symmetric]) auto
  moreover have "f = of_nat (unat f)"
    by simp
  ultimately show ?thesis
    using Some by metis
qed

lemma pmm_take_inv:
  assumes inv: "pmm_inv p" and ne: "free_set p \<noteq> {}"
  defines "f \<equiv> Min (free_set p)"
  defines "q \<equiv> snd (pmm_take p (of_nat f))"
  shows "fst (pmm_take p (of_nat f)) = of_nat f * PMM_PAGE_SIZE" "pmm_inv q"
    "same_geometry p q" "free_set q = free_set p - {f}"
proof -
  have f: "f \<in> free_set p" "\<forall>g \<in> free_set p. f \<le> g"
    using ne by (simp_all add: f_def)
  have wf: "pmm_wf p"
    using inv by (simp add: pmm_inv_def)
  have lt: "f < unat (frame_count p)"
    using f(1) by (rule free_set_less)
  then have small: "unat (of_nat f :: u64) = f"
    using unsigned_less [of "frame_count p", where 'a = nat] by (intro unat_of_nat_small) simp
  then have succ: "unat (of_nat f + 1 :: u64) = Suc f"
    using lt word_Suc_nowrap [of "of_nat f" "frame_count p"] by (simp add: word_less_nat_alt)
  let ?m = "mark_frame_used p (of_nat f)"
  have q: "q = ?m\<lparr>next_hint := of_nat f + 1\<rparr>"
    by (simp add: q_def pmm_take_def)
  have fs: "free_set q = free_set p - {f}"
    using free_set_mark_frame_used [OF wf, of "of_nat f"] small by (simp add: q free_set_def)
  have "pmm_wf ?m"
    using wf by (rule mark_frame_used_wf)
  moreover have "free_set ?m = free_set p - {f}"
    using free_set_mark_frame_used [OF wf, of "of_nat f"] small by simp
  ultimately have "pmm_wf q"
    using lt succ f(2) unfolding pmm_wf_def fs
    by (auto simp: q word_le_nat_alt nat_less_le Suc_le_eq)
  with inv fs show "pmm_inv q"
    by (auto simp: pmm_inv_def q)
  show "fst (pmm_take p (of_nat f)) = of_nat f * PMM_PAGE_SIZE"
    by (simp add: pmm_take_def)
  show "same_geometry p q"
    by (simp add: q same_geometry_def)
  show "free_set q = free_set p - {f}"
    by (rule fs)
qed

lemma pmm_alloc_frame_spec:
  assumes inv: "pmm_inv p"
  shows "if free_set p = {} then pmm_alloc_frame (Some p) = (PMM_INVALID_FRAME, Some p)
    else \<exists>q. pmm_alloc_frame (Some p) = (of_nat (Min (free_set p)) * PMM_PAGE_SIZE, Some q) \<and>
      pmm_inv q \<and> same_geometry p q \<and> free_set q = free_set p - {Min (free_set p)}"
proof -
  have wf: "pmm_wf p" and init: "pmm_initialized p"
    using inv by (simp_all add: pmm_inv_def)
  have count: "free_frames p = 0 \<longleftrightarrow> free_set p = {}"
  proof -
    have "free_frames p = 0 \<longleftrightarrow> unat (free_frames p) = 0"
      by (simp add: unat_eq_0)
    also have "\<dots> \<longleftrightarrow> free_set p = {}"
      using wf by (simp add: pmm_wf_def)
    finally show ?thesis .
  qed
  show ?thesis
  proof (cases "free_set p = {}")
    case True
    then show ?thesis
      using count by (simp add: pmm_alloc_frame_def)
  next
    case False
    then have "pmm_alloc_frame (Some p) = map_prod id Some (pmm_take p (of_nat (Min (free_set p))))"
      using init count by (simp add: pmm_alloc_frame_def pmm_scan_hint [OF wf])
    with pmm_take_inv [OF inv False] False show ?thesis
      by (cases "pmm_take p (of_nat (Min (free_set p)))") auto
  qed
qed

text \<open>The frame number of a physical address, and the addresses of free frames.\<close>

definition frame_of :: "u64 \<Rightarrow> nat" where
  "frame_of a = unat a div 4096"

lemma frame_of_page: "f < 2 ^ 52 \<Longrightarrow> frame_of (of_nat f * PMM_PAGE_SIZE) = f"
  using page_of_frame [of f] unat_div_page [of "of_nat f * PMM_PAGE_SIZE"]
  by (simp add: frame_of_def unat_of_nat_small)

lemma pmm_free_frame_spec:
  fixes a :: u64
  assumes inv: "pmm_inv p"
  defines "ok \<equiv> 4096 dvd unat a \<and> a \<noteq> 0 \<and> a < max_phys p \<and> frame_of a \<notin> free_set p"
  shows "if ok then \<exists>q. pmm_free_frame (Some p) a = (True, Some q) \<and> pmm_inv q \<and>
      same_geometry p q \<and> free_set q = insert (frame_of a) (free_set p)
    else pmm_free_frame (Some p) a = (False, Some p)"
proof -
  have wf: "pmm_wf p" and init: "pmm_initialized p"
    using inv by (simp_all add: pmm_inv_def)
  have frame: "a div PMM_PAGE_SIZE < frame_count p" if "a < max_phys p"
    using that wf by (simp add: pmm_wf_def word_less_nat_alt unat_div_page less_mult_imp_div_less)
  show ?thesis
  proof (cases "4096 dvd unat a \<and> a \<noteq> 0 \<and> a < max_phys p")
    case False
    then have "pmm_free_frame (Some p) a = (False, Some p)"
      using init by (auto simp: pmm_free_frame_def page_aligned not_le)
    with False show ?thesis
      by (auto simp: ok_def)
  next
    case True
    then have test: "bitmap_test (bitmap p) (a div PMM_PAGE_SIZE) \<longleftrightarrow> frame_of a \<notin> free_set p"
      using bitmap_test_free [OF wf frame] by (simp add: frame_of_def unat_div_page)
    have call: "pmm_free_frame (Some p) a =
      (if frame_of a \<notin> free_set p then (True, Some (mark_frame_free p (a div PMM_PAGE_SIZE)))
       else (False, Some p))"
      using True init test by (auto simp: pmm_free_frame_def page_aligned not_le [symmetric] Let_def)
    have fs: "free_set (mark_frame_free p (a div PMM_PAGE_SIZE)) = insert (frame_of a) (free_set p)"
      using True frame by (simp add: free_set_mark_frame_free [OF wf] unat_div_page frame_of_def)
    have "frame_of a \<noteq> 0"
      using True by (auto simp: frame_of_def dvd_div_eq_0_iff unat_eq_0)
    then have "pmm_inv (mark_frame_free p (a div PMM_PAGE_SIZE))"
      using inv fs mark_frame_free_wf [OF wf] by (auto simp: pmm_inv_def)
    with call fs True show ?thesis
      by (simp add: ok_def same_geometry_def)
  qed
qed

lemma pmm_reserve_range_spec:
  assumes inv: "pmm_inv p"
  shows "\<exists>q. pmm_reserve_range (Some p) base len = Some (len \<noteq> 0, Some q) \<and> pmm_inv q \<and>
    same_geometry p q \<and> free_set q \<subseteq> free_set p"
proof (cases "len = 0")
  case True
  with inv show ?thesis
    by (auto simp: pmm_reserve_range_def)
next
  case False
  have wf: "pmm_wf p" and init: "pmm_initialized p"
    using inv by (simp_all add: pmm_inv_def)
  with False inv mark_range_used_gen [OF wf, of base len] show ?thesis
    by (auto simp: pmm_reserve_range_def pmm_inv_def same_geometry_def)
qed

section \<open>Initialisation\<close>

definition usable :: "boot_mem_region \<Rightarrow> bool" where
  "usable r \<longleftrightarrow> region_type r = BOOT_MEM_USABLE"

text \<open>A region holds the whole of a frame, or at least one byte of it.\<close>

definition region_covers :: "boot_mem_region \<Rightarrow> nat \<Rightarrow> bool" where
  "region_covers r f \<longleftrightarrow>
     unat (region_base r) \<le> f * 4096 \<and>
     (f + 1) * 4096 \<le> unat (region_base r) + unat (region_length r)"

definition region_touches :: "boot_mem_region \<Rightarrow> nat \<Rightarrow> bool" where
  "region_touches r f \<longleftrightarrow>
     region_length r \<noteq> 0 \<and> unat (region_base r) < (f + 1) * 4096 \<and>
     f * 4096 < unat (region_base r) + unat (region_length r)"

text \<open>A region that ends at least a page below the top of the address space.\<close>

definition region_sane :: "boot_mem_region \<Rightarrow> bool" where
  "region_sane r \<longleftrightarrow> unat (region_base r) + unat (region_length r) + 4095 < 2 ^ 64"

lemma mark_range_free_region:
  assumes "pmm_wf p" "region_sane r"
  shows "\<exists>q. mark_range_free p (region_base r) (region_length r) = Some q \<and> pmm_wf q \<and>
    same_geometry p q \<and>
    free_set q = free_set p \<union> {f. f < unat (frame_count p) \<and> region_covers r f}"
proof -
  let ?b = "region_base r" and ?l = "region_length r"
  have nowrap: "unat (?b + ?l) = unat ?b + unat ?l"
    using assms(2) by (simp add: region_sane_def unat_add_nowrap)
  have up: "unat (align_up ?b PMM_PAGE_SIZE) = (unat ?b + 4095) div 4096 * 4096"
    using assms(2) by (intro unat_align_up) (simp add: region_sane_def)
  have "(if ?l \<noteq> 0 \<and> unat ?b + unat ?l < 2 ^ 64
      then frames_between p (unat (align_up ?b PMM_PAGE_SIZE)) (unat (align_down (?b + ?l) PMM_PAGE_SIZE))
      else {}) = {f. f < unat (frame_count p) \<and> region_covers r f}"
    using assms(2) unfolding up unat_align_down nowrap frames_between_def region_covers_def region_sane_def
    by (auto simp: unat_eq_0 [symmetric])
  then show ?thesis
    using mark_range_free_gen [OF assms(1), of ?b ?l] by simp
qed

lemma mark_range_used_region:
  assumes "pmm_wf p" "region_sane r"
  shows "\<exists>q. mark_range_used p (region_base r) (region_length r) = Some q \<and> pmm_wf q \<and>
    same_geometry p q \<and> free_set q = free_set p - {f. region_touches r f}"
proof -
  let ?b = "region_base r" and ?l = "region_length r"
  have nowrap: "unat (?b + ?l) = unat ?b + unat ?l"
    using assms(2) by (simp add: region_sane_def unat_add_nowrap)
  have up: "unat (align_up (?b + ?l) PMM_PAGE_SIZE) = (unat ?b + unat ?l + 4095) div 4096 * 4096"
    using assms(2) nowrap by (subst unat_align_up) (simp_all add: region_sane_def)
  have "free_set p - (if ?l \<noteq> 0 \<and> unat ?b + unat ?l < 2 ^ 64
      then frames_between p (unat (align_down ?b PMM_PAGE_SIZE)) (unat (align_up (?b + ?l) PMM_PAGE_SIZE))
      else {}) = free_set p - {f. region_touches r f}"
    using assms(2) unfolding up unat_align_down frames_between_def region_touches_def region_sane_def
    by (auto dest: free_set_less)
  then show ?thesis
    using mark_range_used_gen [OF assms(1), of ?b ?l] by simp
qed

lemma mark_usable_regions_spec:
  assumes "pmm_wf p" "\<forall>r \<in> set rs. region_sane r"
  shows "\<exists>q. mark_usable_regions rs p = Some q \<and> pmm_wf q \<and> same_geometry p q \<and>
    free_set q = free_set p \<union>
      {f. f < unat (frame_count p) \<and> (\<exists>r \<in> set rs. usable r \<and> region_covers r f)}"
  using assms
proof (induction rs arbitrary: p)
  case Nil
  then show ?case by simp
next
  case (Cons r rs)
  show ?case
  proof (cases "usable r")
    case True
    obtain q where q: "mark_range_free p (region_base r) (region_length r) = Some q" "pmm_wf q"
        "same_geometry p q" "free_set q = free_set p \<union> {f. f < unat (frame_count p) \<and> region_covers r f}"
      using mark_range_free_region [OF Cons.prems(1), of r] Cons.prems(2) by auto
    have "frame_count q = frame_count p"
      using q(3) by (simp add: same_geometry_def)
    with q True Cons.IH [OF q(2)] Cons.prems(2) show ?thesis
      by (auto simp: usable_def intro: same_geometry_trans)
  next
    case False
    with Cons.IH [OF Cons.prems(1)] Cons.prems(2) show ?thesis
      by (auto simp: usable_def)
  qed
qed

lemma mark_other_regions_spec:
  assumes "pmm_wf p" "\<forall>r \<in> set rs. region_sane r"
  shows "\<exists>q. mark_other_regions rs p = Some q \<and> pmm_wf q \<and> same_geometry p q \<and>
    free_set q = free_set p - {f. \<exists>r \<in> set rs. \<not> usable r \<and> region_touches r f}"
  using assms
proof (induction rs arbitrary: p)
  case Nil
  then show ?case by simp
next
  case (Cons r rs)
  show ?case
  proof (cases "usable r")
    case False
    obtain q where q: "mark_range_used p (region_base r) (region_length r) = Some q" "pmm_wf q"
        "same_geometry p q" "free_set q = free_set p - {f. region_touches r f}"
      using mark_range_used_region [OF Cons.prems(1), of r] Cons.prems(2) by auto
    with False Cons.IH [OF q(2)] Cons.prems(2) show ?thesis
      by (auto simp: usable_def intro: same_geometry_trans)
  next
    case True
    with Cons.IH [OF Cons.prems(1)] Cons.prems(2) show ?thesis
      by (auto simp: usable_def)
  qed
qed

lemma fill_ones:
  "n \<le> length bm \<Longrightarrow> fold (\<lambda>i bm. bm[i := 0xFF]) [0..<n] bm = replicate n (0xFF :: u8) @ drop n bm"
proof (induction n)
  case 0
  then show ?case by simp
next
  case (Suc n)
  then have "drop n bm = bm ! n # drop (Suc n) bm"
    by (simp add: Cons_nth_drop_Suc)
  with Suc show ?case
    by (simp add: list_update_append replicate_append_same [symmetric])
qed

lemma bits_filled:
  assumes "n \<le> length bm" "k < 8 * n"
  shows "k \<in> bits (fold (\<lambda>i bm. bm[i := 0xFF]) [0..<n] bm)"
proof -
  have "k \<in> bits (replicate n (0xFF :: u8))"
    using assms(2) by (subst bits_all_ones) auto
  moreover have "k div 8 < n"
    using assms(2) by (simp add: less_mult_imp_div_less)
  ultimately show ?thesis
    using assms by (simp add: fill_ones bits_def nth_append)
qed

text \<open>
  Property C8. Initialisation from a boot memory map. For a non-empty map whose regions end at
  least a page below the top of the address space, a page-aligned memory size and a bitmap large enough for it,
  \<^verbatim>\<open>pmm_init_from_map\<close> returns true and establishes the invariant, and the free frames are exactly
  the frames that lie wholly inside some usable region, are not frame 0, and share no byte with a
  region of any other type.
\<close>

theorem pmm_init_from_map_exact:
  assumes rs: "rs \<noteq> []" "\<forall>r \<in> set rs. region_sane r"
    and mem: "bytes \<noteq> 0" "4096 dvd unat bytes"
    and storage: "(unat bytes div 4096 + 7) div 8 \<le> unat n" "unat n \<le> length storage"
  shows "\<exists>q. pmm_init_from_map (Some p) (Some rs) (Some storage) n bytes = Some (True, Some q) \<and>
    pmm_inv q \<and> max_phys q = bytes \<and>
    free_set q = {f. 0 < f \<and> f < unat bytes div 4096 \<and>
      (\<exists>r \<in> set rs. usable r \<and> region_covers r f) \<and>
      \<not> (\<exists>r \<in> set rs. \<not> usable r \<and> region_touches r f)}"
proof -
  let ?frames = "bytes div PMM_PAGE_SIZE"
  have frames: "unat ?frames = unat bytes div 4096"
    by (rule unat_div_page)
  then have frames52: "unat ?frames < 2 ^ 52"
    using unsigned_less [of bytes, where 'a = nat] by simp
  let ?req = "(?frames + 7) div 8"
  have req: "unat ?req = (unat bytes div 4096 + 7) div 8"
    using frames frames52 by (simp add: unat_div unat_add_nowrap)
  define p0 where "p0 = pmm_zeroed\<lparr>bitmap_bytes := ?req, max_phys := bytes,
     frame_count := ?frames, free_frames := 0, used_frames := ?frames, next_hint := 0,
     bitmap := fold (\<lambda>i bm. bm[i := 0xFF]) [0..<unat ?req] storage\<rparr>"
  have reqlen: "unat ?req \<le> length storage"
    using req storage by simp
  have fs0: "free_set p0 = {}"
    using reqlen bits_filled [OF reqlen] frames req
    by (auto simp: free_set_def p0_def)
  have "8 * unat ?req \<ge> unat ?frames"
    using frames req by simp
  then have wf0: "pmm_wf p0"
    using fs0 reqlen frames mem by (simp add: pmm_wf_def p0_def fill_ones)
  obtain p1 where p1: "mark_usable_regions rs p0 = Some p1" "pmm_wf p1" "same_geometry p0 p1"
      "free_set p1 = {f. f < unat ?frames \<and> (\<exists>r \<in> set rs. usable r \<and> region_covers r f)}"
    using mark_usable_regions_spec [OF wf0 rs(2)] fs0 by (auto simp: p0_def)
  let ?zero = "\<lparr>region_base = 0, region_length = PMM_PAGE_SIZE, region_type = 2\<rparr>"
  have zero: "region_sane ?zero" "region_touches ?zero f \<longleftrightarrow> f = 0" for f
    by (auto simp: region_sane_def region_touches_def PMM_PAGE_SIZE_def)
  obtain p2 where p2: "mark_range_used p1 0 PMM_PAGE_SIZE = Some p2" "pmm_wf p2" "same_geometry p1 p2"
      "free_set p2 = free_set p1 - {0}"
    using mark_range_used_region [OF p1(2) zero(1)] zero(2) by auto
  obtain p3 where p3: "mark_other_regions rs p2 = Some p3" "pmm_wf p3" "same_geometry p2 p3"
      "free_set p3 = free_set p2 - {f. \<exists>r \<in> set rs. \<not> usable r \<and> region_touches r f}"
    using mark_other_regions_spec [OF p2(2) rs(2)] by auto
  let ?q = "p3\<lparr>pmm_initialized := True\<rparr>"
  have "pmm_init_from_map (Some p) (Some rs) (Some storage) n bytes = Some (True, Some ?q)"
    using rs(1) mem storage(1) req p1(1) p2(1) p3(1)
    by (cases rs) (auto simp: pmm_init_from_map_def page_aligned word_less_nat_alt p0_def Let_def)
  moreover have "free_set ?q = free_set p3" "pmm_wf ?q"
    using p3(2) by (simp_all add: free_set_def pmm_wf_def)
  moreover have "max_phys ?q = bytes"
    using p1(3) p2(3) p3(3) by (simp add: same_geometry_def p0_def)
  ultimately show ?thesis
    using p1(4) p2(4) p3(4) frames by (auto simp: pmm_inv_def)
qed

definition boot_sample :: "boot_mem_region list" where
  "boot_sample =
     [\<lparr>region_base = 0, region_length = 0x7800, region_type = 1\<rparr>,
      \<lparr>region_base = 0x4100, region_length = 0x10, region_type = 2\<rparr>]"

theorem pmm_init_from_map_exact_witness:
  "\<exists>q. pmm_init_from_map (Some pmm_zeroed) (Some boot_sample) (Some [0, 0]) 2 0x8000 =
     Some (True, Some q) \<and> pmm_inv q \<and> free_set q = {1, 2, 3, 5, 6}"
proof -
  have "boot_sample \<noteq> []" "\<forall>r \<in> set boot_sample. region_sane r"
    by (simp_all add: boot_sample_def region_sane_def)
  moreover have "{f. 0 < f \<and> f < unat (0x8000 :: u64) div 4096 \<and>
      (\<exists>r \<in> set boot_sample. usable r \<and> region_covers r f) \<and>
      \<not> (\<exists>r \<in> set boot_sample. \<not> usable r \<and> region_touches r f)} = {1, 2, 3, 5, 6}"
    by (auto simp: boot_sample_def usable_def BOOT_MEM_USABLE_def region_covers_def region_touches_def)
  ultimately show ?thesis
    using pmm_init_from_map_exact [where rs = boot_sample and bytes = "0x8000" and n = 2 and storage = "[0, 0]"
        and p = pmm_zeroed] by fastforce
qed

section \<open>Properties of the interface\<close>

lemma pmm_is_frame_free_iff:
  assumes inv: "pmm_inv p"
  shows "pmm_is_frame_free (Some p) b \<longleftrightarrow> 4096 dvd unat b \<and> frame_of b \<in> free_set p"
proof -
  have wf: "pmm_wf p" and init: "pmm_initialized p"
    using inv by (simp_all add: pmm_inv_def)
  have lt: "b div PMM_PAGE_SIZE < frame_count p \<longleftrightarrow> b < max_phys p" if "4096 dvd unat b"
    using that wf by (auto simp: pmm_wf_def word_less_nat_alt unat_div_page elim!: dvdE)
  have "frame_of b \<in> free_set p \<Longrightarrow> b div PMM_PAGE_SIZE < frame_count p"
    using free_set_less [of "frame_of b" p] by (simp add: frame_of_def word_less_nat_alt unat_div_page)
  with lt bitmap_test_free [OF wf, of "b div PMM_PAGE_SIZE"] init show ?thesis
    by (auto simp: pmm_is_frame_free_def page_aligned unat_div_page frame_of_def not_le [symmetric])
qed

lemma frame_of_inject: "4096 dvd unat a \<Longrightarrow> 4096 dvd unat b \<Longrightarrow> frame_of a = frame_of b \<Longrightarrow> a = b"
  by (metis dvd_div_mult_self frame_of_def word_unat_eq_iff)

lemma page_address:
  assumes "pmm_wf p" "f \<in> free_set p"
  shows "unat (of_nat f * PMM_PAGE_SIZE) = f * 4096" "frame_of (of_nat f * PMM_PAGE_SIZE) = f"
proof -
  have "f < 2 ^ 52"
    using free_set_less [OF assms(2)] pmm_wf_frame_bound [OF assms(1)] by simp
  then show "unat (of_nat f * PMM_PAGE_SIZE) = f * 4096"
    by (simp add: PMM_PAGE_SIZE_def unat_word_ariths unat_of_nat_small)
  then show "frame_of (of_nat f * PMM_PAGE_SIZE) = f"
    by (simp add: frame_of_def)
qed

text \<open>
  Property C9. While frames are left, \<^verbatim>\<open>pmm_alloc_frame\<close> returns the lowest address that
  \<^verbatim>\<open>pmm_is_frame_free\<close> reports free; afterwards exactly that frame has stopped being free and the free count is
  one less. The search hint never makes it skip a lower free frame.
\<close>

theorem pmm_alloc_lowest:
  assumes inv: "pmm_inv p" and some: "pmm_free_count (Some p) \<noteq> 0"
  shows "\<exists>a q. pmm_alloc_frame (Some p) = (a, Some q) \<and> pmm_inv q \<and>
    pmm_is_frame_free (Some p) a \<and>
    (\<forall>b. pmm_is_frame_free (Some p) b \<longrightarrow> a \<le> b) \<and>
    (\<forall>b. pmm_is_frame_free (Some q) b \<longleftrightarrow> pmm_is_frame_free (Some p) b \<and> b \<noteq> a) \<and>
    pmm_free_count (Some q) + 1 = pmm_free_count (Some p)"
proof -
  have wf: "pmm_wf p"
    using inv by (simp add: pmm_inv_def)
  have ne: "free_set p \<noteq> {}"
    using some wf by (auto simp: pmm_free_count_def pmm_wf_def unat_eq_0 [symmetric])
  define f where "f = Min (free_set p)"
  have f: "f \<in> free_set p" "\<forall>g \<in> free_set p. f \<le> g"
    using ne by (simp_all add: f_def)
  note a = page_address [OF wf f(1)]
  obtain q where q: "pmm_alloc_frame (Some p) = (of_nat f * PMM_PAGE_SIZE, Some q)" "pmm_inv q"
      "free_set q = free_set p - {f}"
    using pmm_alloc_frame_spec [OF inv] ne by (auto simp: f_def)
  have free: "pmm_is_frame_free (Some p) (of_nat f * PMM_PAGE_SIZE)"
    using a f(1) by (simp add: pmm_is_frame_free_iff [OF inv])
  have least: "of_nat f * PMM_PAGE_SIZE \<le> b" if "pmm_is_frame_free (Some p) b" for b
  proof -
    have "f \<le> frame_of b"
      using that f(2) by (simp add: pmm_is_frame_free_iff [OF inv])
    then have "f * 4096 \<le> unat b"
      by (simp add: frame_of_def less_eq_div_iff_mult_less_eq)
    then show ?thesis
      by (simp add: word_le_nat_alt a(1))
  qed
  have others: "pmm_is_frame_free (Some q) b \<longleftrightarrow>
      pmm_is_frame_free (Some p) b \<and> b \<noteq> of_nat f * PMM_PAGE_SIZE" for b
    using a q(3) frame_of_inject [of b "of_nat f * PMM_PAGE_SIZE"]
    by (auto simp: pmm_is_frame_free_iff [OF inv] pmm_is_frame_free_iff [OF q(2)])
  have "Suc (unat (free_frames q)) = unat (free_frames p)"
    using inv q(2,3) f(1) card_Suc_Diff1 [of "free_set p" f] by (simp add: pmm_inv_def pmm_wf_def)
  then have "pmm_free_count (Some q) + 1 = pmm_free_count (Some p)"
    using word_Suc_nowrap [of "free_frames q" "free_frames p"]
    by (simp add: pmm_free_count_def word_unat_eq_iff word_less_nat_alt)
  with q free least others show ?thesis
    by blast
qed

text \<open>Four frames, of which frames 2 and 3 are free.\<close>

definition pmm_sample :: pmm_state where
  "pmm_sample = \<lparr>bitmap = [0xF3], bitmap_bytes = 1, max_phys = 0x4000, frame_count = 4,
     free_frames = 2, used_frames = 2, reserved_frames = 0, ignored_frames = 0, next_hint = 2,
     pmm_initialized = True\<rparr>"

lemma free_set_pmm_sample: "free_set pmm_sample = {2, 3}"
proof -
  have "f \<in> bits [0xF3] \<longleftrightarrow> f = 0 \<or> f = 1" if "f < 4" for f
  proof -
    from that consider "f = 0" | "f = 1" | "f = 2" | "f = 3"
      by linarith
    then show ?thesis
      by cases (simp_all add: bits_def)
  qed
  then show ?thesis
    by (auto simp: free_set_def pmm_sample_def)
qed

lemma pmm_inv_sample: "pmm_inv pmm_sample"
proof -
  have "0 \<notin> free_set pmm_sample"
    by (simp add: free_set_pmm_sample)
  then show ?thesis
    by (simp add: pmm_inv_def pmm_wf_def free_set_pmm_sample) (simp add: pmm_sample_def)
qed

theorem pmm_alloc_lowest_witness:
  "\<exists>a q. pmm_alloc_frame (Some pmm_sample) = (a, Some q) \<and> pmm_inv q \<and> a \<le> 0x2000 \<and>
     pmm_is_frame_free (Some pmm_sample) a"
proof -
  have "pmm_is_frame_free (Some pmm_sample) 0x2000"
    by (simp add: pmm_is_frame_free_iff [OF pmm_inv_sample] free_set_pmm_sample frame_of_def)
  moreover have "pmm_free_count (Some pmm_sample) \<noteq> 0"
    by (simp add: pmm_free_count_def pmm_sample_def)
  ultimately show ?thesis
    using pmm_alloc_lowest [OF pmm_inv_sample] by blast
qed

text \<open>
  Property C21. An allocated frame can be given back: \<^verbatim>\<open>pmm_free_frame\<close> accepts the address that
  \<^verbatim>\<open>pmm_alloc_frame\<close> returned, which restores the free set and both counters, and it refuses the same address
  a second time without changing anything.
\<close>

theorem pmm_alloc_free_roundtrip:
  assumes inv: "pmm_inv p" and alloc: "pmm_alloc_frame (Some p) = (a, Some q)"
    and some: "a \<noteq> PMM_INVALID_FRAME"
  shows "\<exists>r. pmm_free_frame (Some q) a = (True, Some r) \<and> pmm_inv r \<and>
    (\<forall>b. pmm_is_frame_free (Some r) b \<longleftrightarrow> pmm_is_frame_free (Some p) b) \<and>
    pmm_free_count (Some r) = pmm_free_count (Some p) \<and>
    pmm_used_count (Some r) = pmm_used_count (Some p) \<and>
    pmm_free_frame (Some r) a = (False, Some r)"
proof -
  have wf: "pmm_wf p"
    using inv by (simp add: pmm_inv_def)
  have ne: "free_set p \<noteq> {}"
    using pmm_alloc_frame_spec [OF inv] alloc some by (auto split: if_splits)
  define f where "f = Min (free_set p)"
  have f: "f \<in> free_set p"
    using ne by (simp add: f_def)
  have q: "a = of_nat f * PMM_PAGE_SIZE" "pmm_inv q" "same_geometry p q" "free_set q = free_set p - {f}"
    using pmm_alloc_frame_spec [OF inv] alloc ne by (auto simp: f_def)
  have a: "unat a = f * 4096" "frame_of a = f"
    using page_address [OF wf f] q(1) by simp_all
  have "f \<noteq> 0"
    using inv f unfolding pmm_inv_def by metis
  then have ok: "4096 dvd unat a" "a \<noteq> 0" "a < max_phys q"
    using a(1) q(3) wf free_set_less [OF f]
    by (auto simp: same_geometry_def pmm_wf_def word_less_nat_alt)
  obtain r where r: "pmm_free_frame (Some q) a = (True, Some r)" "pmm_inv r" "same_geometry q r"
      "free_set r = free_set p"
    using pmm_free_frame_spec [OF q(2), of a] ok a(2) q(4) f by (auto simp: insert_absorb)
  have counts: "free_frames r = free_frames p" "used_frames r = used_frames p"
    using inv r(2,4) q(3) r(3)
    by (auto simp: pmm_inv_def pmm_wf_def same_geometry_def word_unat_eq_iff)
  have "pmm_free_frame (Some r) a = (False, Some r)"
    using pmm_free_frame_spec [OF r(2), of a] a(2) f r(4) by (simp split: if_splits)
  with r counts show ?thesis
    by (auto simp: pmm_is_frame_free_iff [OF inv] pmm_is_frame_free_iff [OF r(2)]
        pmm_free_count_def pmm_used_count_def)
qed

theorem pmm_alloc_free_roundtrip_witness:
  "\<exists>q r. pmm_alloc_frame (Some pmm_sample) = (0x2000, Some q) \<and>
     pmm_free_frame (Some q) 0x2000 = (True, Some r) \<and> pmm_free_frame (Some r) 0x2000 = (False, Some r)"
proof -
  obtain q where q: "pmm_alloc_frame (Some pmm_sample) = (0x2000, Some q)"
    using pmm_alloc_frame_spec [OF pmm_inv_sample]
    by (auto simp: free_set_pmm_sample PMM_PAGE_SIZE_def)
  then show ?thesis
    using pmm_alloc_free_roundtrip [OF pmm_inv_sample q] by (auto simp: PMM_INVALID_FRAME_def)
qed

text \<open>
  Sequences of calls. The second component collects the physical addresses that \<^verbatim>\<open>pmm_alloc_frame\<close> returned
  and that have not been passed to a successful \<^verbatim>\<open>pmm_free_frame\<close> since.
\<close>

datatype pmm_call = Call_alloc | Call_free u64 | Call_reserve u64 u64

fun pmm_exec :: "pmm_call \<Rightarrow> pmm_state option \<times> u64 list \<Rightarrow> (pmm_state option \<times> u64 list) option" where
  "pmm_exec Call_alloc (p, owned) =
     (case pmm_alloc_frame p of (a, q) \<Rightarrow> Some (q, if a = PMM_INVALID_FRAME then owned else a # owned))"
| "pmm_exec (Call_free a) (p, owned) =
     (case pmm_free_frame p a of (ok, q) \<Rightarrow> Some (q, if ok then removeAll a owned else owned))"
| "pmm_exec (Call_reserve base len) (p, owned) =
     map_option (\<lambda>(ok, q). (q, owned)) (pmm_reserve_range p base len)"

fun pmm_calls :: "pmm_call list \<Rightarrow> pmm_state option \<times> u64 list \<Rightarrow> (pmm_state option \<times> u64 list) option" where
  "pmm_calls [] s = Some s"
| "pmm_calls (c # cs) s = pmm_exec c s \<bind> pmm_calls cs"

definition pmm_owned_ok :: "pmm_state \<Rightarrow> u64 list \<Rightarrow> bool" where
  "pmm_owned_ok p owned \<longleftrightarrow>
     distinct owned \<and> (\<forall>a \<in> set owned. 4096 dvd unat a \<and> a < max_phys p \<and> frame_of a \<notin> free_set p)"

lemma pmm_exec_ok:
  assumes "pmm_inv p" "pmm_owned_ok p owned"
  shows "\<exists>q owned'. pmm_exec c (Some p, owned) = Some (Some q, owned') \<and> pmm_inv q \<and> pmm_owned_ok q owned'"
proof (cases c)
  case Call_alloc
  have wf: "pmm_wf p"
    using assms by (simp add: pmm_inv_def)
  show ?thesis
  proof (cases "free_set p = {}")
    case True
    then show ?thesis
      using pmm_alloc_frame_spec [OF assms(1)] assms Call_alloc by auto
  next
    case False
    define f where "f = Min (free_set p)"
    have f: "f \<in> free_set p"
      using False by (simp add: f_def)
    note a = page_address [OF wf f]
    obtain q where q: "pmm_alloc_frame (Some p) = (of_nat f * PMM_PAGE_SIZE, Some q)" "pmm_inv q"
        "same_geometry p q" "free_set q = free_set p - {f}"
      using pmm_alloc_frame_spec [OF assms(1)] False by (auto simp: f_def)
    have "of_nat f * PMM_PAGE_SIZE \<notin> set owned"
      using assms(2) a(2) f by (auto simp: pmm_owned_ok_def)
    then have "pmm_owned_ok q (of_nat f * PMM_PAGE_SIZE # owned)"
      using assms(2) wf a free_set_less [OF f] q(3,4)
      by (auto simp: pmm_owned_ok_def same_geometry_def pmm_wf_def word_less_nat_alt)
    with assms(2) q Call_alloc show ?thesis
      by (auto simp: pmm_owned_ok_def same_geometry_def)
  qed
next
  case (Call_free a)
  show ?thesis
  proof (cases "4096 dvd unat a \<and> a \<noteq> 0 \<and> a < max_phys p \<and> frame_of a \<notin> free_set p")
    case True
    then obtain q where q: "pmm_free_frame (Some p) a = (True, Some q)" "pmm_inv q"
        "same_geometry p q" "free_set q = insert (frame_of a) (free_set p)"
      using pmm_free_frame_spec [OF assms(1), of a] by auto
    have "pmm_owned_ok q (removeAll a owned)"
      using assms(2) True q(3,4) frame_of_inject [of _ a]
      by (auto simp: pmm_owned_ok_def same_geometry_def distinct_removeAll)
    with q Call_free show ?thesis by auto
  next
    case False
    then have "pmm_free_frame (Some p) a = (False, Some p)"
      using pmm_free_frame_spec [OF assms(1), of a] by (simp split: if_splits)
    with assms Call_free show ?thesis by auto
  qed
next
  case (Call_reserve base len)
  with assms pmm_reserve_range_spec [OF assms(1), of base len] show ?thesis
    by (fastforce simp: pmm_owned_ok_def same_geometry_def)
qed

text \<open>
  Property C15. Every sequence of allocations, releases and reservations of an initialised manager
  returns, keeps the invariant, and never hands out a frame twice: the addresses allocated and not
  yet released are pairwise distinct page addresses inside the managed memory, and none of them is reported free.
\<close>

theorem pmm_calls_exclusive:
  assumes "pmm_inv p"
  shows "\<exists>q owned. pmm_calls cs (Some p, []) = Some (Some q, owned) \<and> pmm_inv q \<and> distinct owned \<and>
    (\<forall>a \<in> set owned. 4096 dvd unat a \<and> a < max_phys q \<and> \<not> pmm_is_frame_free (Some q) a)"
proof -
  have "\<exists>q owned'. pmm_calls cs (Some p, owned) = Some (Some q, owned') \<and> pmm_inv q \<and> pmm_owned_ok q owned'"
    if "pmm_inv p" "pmm_owned_ok p owned" for p owned
    using that
  proof (induction cs arbitrary: p owned)
    case Nil
    then show ?case by simp
  next
    case (Cons c cs)
    from pmm_exec_ok [OF Cons.prems, of c] Cons.IH show ?case by fastforce
  qed
  from this [OF assms, of "[]"] obtain q owned where
    "pmm_calls cs (Some p, []) = Some (Some q, owned)" "pmm_inv q" "pmm_owned_ok q owned"
    by (auto simp: pmm_owned_ok_def)
  then show ?thesis
    by (auto simp: pmm_owned_ok_def pmm_is_frame_free_iff)
qed

theorem pmm_calls_exclusive_witness:
  "\<exists>q owned. pmm_calls [Call_alloc, Call_free 0x1000, Call_alloc] (Some pmm_sample, []) =
     Some (Some q, owned) \<and> pmm_inv q \<and> distinct owned"
  using pmm_calls_exclusive [OF pmm_inv_sample, of "[Call_alloc, Call_free 0x1000, Call_alloc]"] by blast

text \<open>
  Property C22. A reservation that ends in the last page of the 64-bit address space reports success
  and reserves nothing, wherever it starts: rounding its end up wraps to 0.
\<close>

theorem pmm_reserve_range_wraps:
  assumes "pmm_inv p" "2 ^ 64 - 4096 < unat base + unat len" "unat base + unat len < 2 ^ 64" "len \<noteq> 0"
  shows "pmm_reserve_range (Some p) base len = Some (True, Some p)"
proof -
  have "unat (base + len) = unat base + unat len"
    using assms(3) by (simp add: unat_add_nowrap)
  then have "unat (base + len + 4095) = unat base + unat len + 4095 - 2 ^ 64"
    using assms(2,3) by (simp add: unat_word_ariths mod_if)
  then have "unat (align_up (base + len) PMM_PAGE_SIZE) = 0"
    using assms(3) unat_and_not_mask [of "base + len + 4095" 12]
    by (simp add: align_up_def PMM_PAGE_SIZE_def mask_eq_exp_minus_1 add_diff_eq [symmetric])
  then have "align_up (base + len) PMM_PAGE_SIZE = 0"
    by (simp add: unat_eq_0)
  with assms show ?thesis
    by (simp add: pmm_reserve_range_def pmm_inv_def mark_range_used_def checked_add_u64_Some [THEN iffD2])
qed

theorem pmm_reserve_range_wraps_witness:
  "pmm_is_frame_free (Some pmm_sample) 0x2000 \<and>
   pmm_reserve_range (Some pmm_sample) 0 0xFFFFFFFFFFFFFFFF = Some (True, Some pmm_sample)"
  using pmm_reserve_range_wraps [OF pmm_inv_sample, of 0 "0xFFFFFFFFFFFFFFFF"]
  by (simp add: pmm_is_frame_free_iff [OF pmm_inv_sample] free_set_pmm_sample frame_of_def)

text \<open>
  Property C23. A usable region of a few bytes inside the last page of the address space makes the
  whole managed memory free: rounding its start up wraps to 0, so the range covers every frame.
\<close>

theorem mark_range_free_wraps:
  assumes wf: "pmm_wf p" and base: "2 ^ 64 - 4096 < unat base" and len: "unat base + unat len < 2 ^ 64" "len \<noteq> 0"
  shows "\<exists>q. mark_range_free p base len = Some q \<and> free_set q = {f. f < unat (frame_count p)}"
proof -
  have "unat (base + 4095) = unat base + 4095 - 2 ^ 64"
    using base len(1) by (simp add: unat_word_ariths mod_if)
  then have start: "unat (align_up base PMM_PAGE_SIZE) = 0"
    using len(1) unat_and_not_mask [of "base + 4095" 12]
    by (simp add: align_up_def PMM_PAGE_SIZE_def mask_eq_exp_minus_1 add_diff_eq [symmetric])
  have "unat (base + len) = unat base + unat len"
    using len(1) by (simp add: unat_add_nowrap)
  then have stop: "unat (align_down (base + len) PMM_PAGE_SIZE) \<ge> 2 ^ 64 - 4096"
    using base by (simp add: unat_align_down)
  have "f * 4096 < 2 ^ 64 - 4096" if "f < unat (frame_count p)" for f
    using that wf unsigned_less [of "max_phys p", where 'a = nat] by (simp add: pmm_wf_def)
  then have "frames_between p 0 (unat (align_down (base + len) PMM_PAGE_SIZE)) = {f. f < unat (frame_count p)}"
    using stop by (fastforce simp: frames_between_def)
  with start len mark_range_free_gen [OF wf, of base len] show ?thesis
    by (auto dest: free_set_less)
qed

theorem mark_range_free_wraps_witness:
  "free_set pmm_sample = {2, 3} \<and>
   (\<exists>q. mark_range_free pmm_sample 0xFFFFFFFFFFFFF001 8 = Some q \<and> free_set q = {f. f < 4})"
proof -
  have "frame_count pmm_sample = 4" "pmm_wf pmm_sample"
    using pmm_inv_sample by (simp_all add: pmm_sample_def pmm_inv_def)
  then show ?thesis
    using mark_range_free_wraps [of pmm_sample "0xFFFFFFFFFFFFF001" 8] by (simp add: free_set_pmm_sample)
qed

end
