(* ===== verification/Linked.thy ===== *)
theory Linked
  imports Prelude
begin

text \<open>
  Linked lists through a \<^verbatim>\<open>next\<close> field: \<open>links nx p xs q\<close> says that following \<open>nx\<close> from address
  \<open>p\<close> visits the addresses \<open>xs\<close> and arrives at \<open>q\<close>. A NULL-terminated list is one with
  \<open>q = 0\<close>. The scheduler's ready queue is such a list.
\<close>

primrec links :: "(u64 \<Rightarrow> u64) \<Rightarrow> u64 \<Rightarrow> u64 list \<Rightarrow> u64 \<Rightarrow> bool" where
  "links nx p [] q \<longleftrightarrow> p = q"
| "links nx p (x # xs) q \<longleftrightarrow> p = x \<and> x \<noteq> 0 \<and> links nx (nx x) xs q"

lemma links_append:
  "links nx p (xs @ ys) q \<longleftrightarrow> (\<exists>r. links nx p xs r \<and> links nx r ys q)"
  by (induction xs arbitrary: p) auto

lemma links_snoc:
  "links nx p (xs @ [x]) q \<longleftrightarrow> links nx p xs x \<and> x \<noteq> 0 \<and> nx x = q"
  by (auto simp: links_append)

lemma links_notin_null: "links nx p xs q \<Longrightarrow> 0 \<notin> set xs"
  by (induction xs arbitrary: p) auto

lemma links_off [simp]:
  "x \<notin> set xs \<Longrightarrow> links (nx(x := y)) p xs q \<longleftrightarrow> links nx p xs q"
  by (induction xs arbitrary: p) auto

lemma links_cong:
  "(\<And>x. x \<in> set xs \<Longrightarrow> nx x = nx' x) \<Longrightarrow> links nx p xs q \<longleftrightarrow> links nx' p xs q"
  by (induction xs arbitrary: p) auto

lemma links_null [simp]: "links nx 0 xs q \<longleftrightarrow> xs = [] \<and> q = 0"
  by (cases xs) auto

text \<open>The visited addresses are determined by the start, so a list that ends is free of repetitions.\<close>

lemma links_unique:
  "links nx p xs 0 \<Longrightarrow> links nx p ys 0 \<Longrightarrow> xs = ys"
proof (induction xs arbitrary: p ys)
  case (Cons x xs)
  then show ?case
    by (cases ys) auto
qed simp

lemma links_distinct: "links nx p xs 0 \<Longrightarrow> distinct xs"
proof (induction xs arbitrary: p)
  case (Cons x xs)
  have "x \<notin> set xs"
  proof
    assume "x \<in> set xs"
    then obtain ys zs where split: "xs = ys @ x # zs"
      by (meson split_list)
    have "links nx x (x # ys @ x # zs) 0"
      using Cons.prems split by simp
    moreover from this have "links nx x (x # zs) 0"
      by (auto simp: links_append)
    ultimately have "x # ys @ x # zs = x # zs"
      by (rule links_unique)
    then show False
      by (simp add: append_eq_Cons_conv self_append_conv2)
  qed
  with Cons show ?case
    by auto
qed simp

lemma length_distinct_u64:
  assumes "distinct (xs :: u64 list)" and "0 \<notin> set xs"
  shows "length xs < 2 ^ 64"
proof -
  have "card (insert 0 (set xs)) \<le> card (UNIV :: u64 set)"
    by (rule card_mono) auto
  then show ?thesis
    using assms by (simp add: distinct_card card_word)
qed

end
