(* ===== verification/Sched.thy ===== *)
theory Sched
  imports Linked
begin

text \<open>
  The cooperative scheduler: \<^verbatim>\<open>src/kernel/mcsos_thread.c\<close>, \<^verbatim>\<open>src/include/mcsos_thread.h\<close> and the context
  switch of \<^verbatim>\<open>src/arch/x86_64/context_switch.S\<close>. Thread and scheduler objects live in typed
  stores indexed by their addresses, NULL being 0, because the ready queue is a linked list
  through the thread objects and the scheduler aliases them. The CPU's callee-saved registers
  are part of the state; a yield is modelled up to and including the switch, that is up to the
  moment the next thread starts to run.
\<close>

section \<open>Data\<close>

datatype mcsos_thread_state =
    MCSOS_THREAD_NEW | MCSOS_THREAD_READY | MCSOS_THREAD_RUNNING
  | MCSOS_THREAD_BLOCKED | MCSOS_THREAD_ZOMBIE

datatype mcsos_sched_result =
    MCSOS_SCHED_OK | MCSOS_SCHED_EINVAL | MCSOS_SCHED_ESTATE
  | MCSOS_SCHED_ESTACK | MCSOS_SCHED_ECORRUPT

definition MCSOS_THREAD_MAGIC :: u64 where "MCSOS_THREAD_MAGIC = 0x4d43534f53544852"
definition MCSOS_STACK_ALIGN :: u64 where "MCSOS_STACK_ALIGN = 16"
definition MCSOS_MIN_KERNEL_STACK :: u64 where "MCSOS_MIN_KERNEL_STACK = 4096"

record mcsos_context =
  rsp :: u64
  rbp :: u64
  rbx :: u64
  r12 :: u64
  r13 :: u64
  r14 :: u64
  r15 :: u64
  rip :: u64

record mcsos_thread =
  th_magic :: u64
  th_id :: u64
  th_name :: string
  th_state :: mcsos_thread_state
  th_context :: mcsos_context
  th_entry :: u64
  th_arg :: u64
  th_stack_base :: u64
  th_stack_size :: u64
  th_next :: u64
  th_switches :: u64
  th_ticks :: u64
  th_exit_code :: int

record mcsos_scheduler =
  sc_current :: u64
  sc_idle :: u64
  sc_ready_head :: u64
  sc_ready_tail :: u64
  sc_next_id :: u64
  sc_runnable_count :: u64
  sc_context_switches :: u64
  sc_ticks :: u64
  sc_initialized :: int

text \<open>
  Memory as the scheduler sees it: the thread and scheduler objects by address, 64-bit stack
  words by address, the static \<^verbatim>\<open>g_active_sched\<close>, the registers of the CPU, and the two code
  addresses the linker chooses (the trampoline and the return label of the context switch).
\<close>

record sched_mem =
  threads :: "u64 \<Rightarrow> mcsos_thread"
  scheds :: "u64 \<Rightarrow> mcsos_scheduler"
  stack_words :: "u64 \<Rightarrow> u64"
  g_active_sched :: u64
  cpu :: mcsos_context
  trampoline_addr :: u64
  switch_label :: u64

definition upd_thread :: "u64 \<Rightarrow> (mcsos_thread \<Rightarrow> mcsos_thread) \<Rightarrow> sched_mem \<Rightarrow> sched_mem" where
  "upd_thread p f m = m\<lparr>threads := (threads m)(p := f (threads m p))\<rparr>"

definition upd_sched :: "u64 \<Rightarrow> (mcsos_scheduler \<Rightarrow> mcsos_scheduler) \<Rightarrow> sched_mem \<Rightarrow> sched_mem" where
  "upd_sched p f m = m\<lparr>scheds := (scheds m)(p := f (scheds m p))\<rparr>"

section \<open>Operations\<close>

definition align_down_uintptr :: "u64 \<Rightarrow> u64 \<Rightarrow> u64" where
  "align_down_uintptr value alignment = value AND NOT (alignment - 1)"

definition valid_thread_object :: "sched_mem \<Rightarrow> u64 \<Rightarrow> bool" where
  "valid_thread_object m t \<longleftrightarrow> t \<noteq> 0 \<and> th_magic (threads m t) = MCSOS_THREAD_MAGIC"

definition zero_context :: mcsos_context where
  "zero_context =
    \<lparr>rsp = 0, rbp = 0, rbx = 0, r12 = 0, r13 = 0, r14 = 0, r15 = 0, rip = 0\<rparr>"

text \<open>
  The trampoline calls the entry function of the current thread; the result is the function and
  argument it calls before it falls into the halt loop, if it calls one.
\<close>

definition mcsos_thread_trampoline :: "sched_mem \<Rightarrow> (u64 \<times> u64) option" where
  "mcsos_thread_trampoline m =
    (if g_active_sched m \<noteq> 0 then
       let self = sc_current (scheds m (g_active_sched m)) in
       if valid_thread_object m self \<and> th_entry (threads m self) \<noteq> 0
       then Some (th_entry (threads m self), th_arg (threads m self))
       else None
     else None)"

definition mcsos_scheduler_init :: "u64 \<Rightarrow> u64 \<Rightarrow> sched_mem \<Rightarrow> mcsos_sched_result \<times> sched_mem" where
  "mcsos_scheduler_init sched boot_thread m =
    (if sched = 0 \<or> boot_thread = 0 then (MCSOS_SCHED_EINVAL, m)
     else
       let m = upd_thread boot_thread (\<lambda>_.
             \<lparr>th_magic = MCSOS_THREAD_MAGIC, th_id = 0, th_name = ''boot'',
              th_state = MCSOS_THREAD_RUNNING, th_context = zero_context, th_entry = 0, th_arg = 0,
              th_stack_base = 0, th_stack_size = 0, th_next = 0, th_switches = 0, th_ticks = 0,
              th_exit_code = 0\<rparr>) m;
           m = upd_sched sched (\<lambda>_.
             \<lparr>sc_current = boot_thread, sc_idle = boot_thread, sc_ready_head = 0,
              sc_ready_tail = 0, sc_next_id = 1, sc_runnable_count = 0, sc_context_switches = 0,
              sc_ticks = 0, sc_initialized = 1\<rparr>) m
       in (MCSOS_SCHED_OK, m\<lparr>g_active_sched := sched\<rparr>))"

definition mcsos_thread_prepare ::
  "u64 \<Rightarrow> string \<Rightarrow> u64 \<Rightarrow> u64 \<Rightarrow> u64 \<Rightarrow> u64 \<Rightarrow> u64 \<Rightarrow> sched_mem \<Rightarrow> mcsos_sched_result \<times> sched_mem" where
  "mcsos_thread_prepare thread name entry arg stack_base stack_size tid m =
    (if thread = 0 \<or> entry = 0 \<or> stack_base = 0 then (MCSOS_SCHED_EINVAL, m)
     else if stack_size < MCSOS_MIN_KERNEL_STACK then (MCSOS_SCHED_ESTACK, m)
     else
       let low = stack_base; high = low + stack_size in
       if high \<le> low then (MCSOS_SCHED_ESTACK, m)
       else
         let top = align_down_uintptr high MCSOS_STACK_ALIGN in
         if top \<le> low + 128 then (MCSOS_SCHED_ESTACK, m)
         else
           let top = top - 8;
               m = m\<lparr>stack_words := (stack_words m)(top := 0)\<rparr>;
               m = upd_thread thread (\<lambda>_.
                 \<lparr>th_magic = MCSOS_THREAD_MAGIC, th_id = tid, th_name = name,
                  th_state = MCSOS_THREAD_NEW,
                  th_context = zero_context\<lparr>rsp := top, rip := trampoline_addr m\<rparr>,
                  th_entry = entry, th_arg = arg, th_stack_base = stack_base,
                  th_stack_size = stack_size, th_next = 0, th_switches = 0, th_ticks = 0,
                  th_exit_code = 0\<rparr>) m
           in (MCSOS_SCHED_OK, m))"

definition mcsos_sched_enqueue :: "u64 \<Rightarrow> u64 \<Rightarrow> sched_mem \<Rightarrow> mcsos_sched_result \<times> sched_mem" where
  "mcsos_sched_enqueue sched thread m =
    (if sched = 0 \<or> sc_initialized (scheds m sched) = 0 \<or> \<not> valid_thread_object m thread
     then (MCSOS_SCHED_EINVAL, m)
     else if th_state (threads m thread) \<noteq> MCSOS_THREAD_NEW \<and>
       th_state (threads m thread) \<noteq> MCSOS_THREAD_READY \<and>
       th_state (threads m thread) \<noteq> MCSOS_THREAD_BLOCKED
     then (MCSOS_SCHED_ESTATE, m)
     else
       let m = upd_thread thread (\<lambda>th. th\<lparr>th_state := MCSOS_THREAD_READY, th_next := 0\<rparr>) m;
           tail = sc_ready_tail (scheds m sched);
           m = (if tail = 0 then
                  upd_sched sched (\<lambda>s. s\<lparr>sc_ready_head := thread, sc_ready_tail := thread\<rparr>) m
                else
                  upd_sched sched (\<lambda>s. s\<lparr>sc_ready_tail := thread\<rparr>)
                    (upd_thread tail (\<lambda>th. th\<lparr>th_next := thread\<rparr>) m));
           m = upd_sched sched (\<lambda>s. s\<lparr>sc_runnable_count := sc_runnable_count s + 1\<rparr>) m
       in (MCSOS_SCHED_OK, m))"

definition mcsos_sched_pick_next :: "u64 \<Rightarrow> sched_mem \<Rightarrow> u64 \<times> sched_mem" where
  "mcsos_sched_pick_next sched m =
    (if sched = 0 \<or> sc_initialized (scheds m sched) = 0 then (0, m)
     else
       let thread = sc_ready_head (scheds m sched) in
       if thread = 0 then (sc_idle (scheds m sched), m)
       else
         let m = upd_sched sched (\<lambda>s. s\<lparr>sc_ready_head := th_next (threads m thread)\<rparr>) m;
             m = (if sc_ready_head (scheds m sched) = 0
                  then upd_sched sched (\<lambda>s. s\<lparr>sc_ready_tail := 0\<rparr>) m else m);
             m = upd_thread thread (\<lambda>th. th\<lparr>th_next := 0\<rparr>) m;
             m = (if sc_runnable_count (scheds m sched) > 0
                  then upd_sched sched (\<lambda>s. s\<lparr>sc_runnable_count := sc_runnable_count s - 1\<rparr>) m
                  else m)
         in (thread, m))"

text \<open>
  The switch saves the callee-saved registers of the running thread, with its own return label as
  the resume address, and loads those of the next thread.
\<close>

definition mcsos_context_switch :: "u64 \<Rightarrow> u64 \<Rightarrow> sched_mem \<Rightarrow> sched_mem" where
  "mcsos_context_switch old_thread new_thread m =
    (let m = upd_thread old_thread (\<lambda>th. th\<lparr>th_context := (cpu m)\<lparr>rip := switch_label m\<rparr>\<rparr>) m
     in m\<lparr>cpu := th_context (threads m new_thread)\<rparr>)"

text \<open>The last part of a yield, once the next thread is chosen and the old one requeued.\<close>

definition yield_switch :: "u64 \<Rightarrow> u64 \<Rightarrow> u64 \<Rightarrow> sched_mem \<Rightarrow> sched_mem" where
  "yield_switch sched old_thread next_thread m =
    (let m = upd_thread next_thread (\<lambda>th. th\<lparr>th_state := MCSOS_THREAD_RUNNING\<rparr>) m;
         m = upd_sched sched (\<lambda>s. s\<lparr>sc_current := next_thread\<rparr>) m;
         m = upd_thread old_thread (\<lambda>th. th\<lparr>th_switches := th_switches th + 1\<rparr>) m;
         m = upd_thread next_thread (\<lambda>th. th\<lparr>th_switches := th_switches th + 1\<rparr>) m;
         m = upd_sched sched (\<lambda>s. s\<lparr>sc_context_switches := sc_context_switches s + 1\<rparr>) m
     in mcsos_context_switch old_thread next_thread m)"

definition mcsos_sched_yield :: "u64 \<Rightarrow> sched_mem \<Rightarrow> mcsos_sched_result \<times> sched_mem" where
  "mcsos_sched_yield sched m =
    (if sched = 0 \<or> sc_initialized (scheds m sched) = 0 \<or>
       \<not> valid_thread_object m (sc_current (scheds m sched))
     then (MCSOS_SCHED_EINVAL, m)
     else
       let old_thread = sc_current (scheds m sched);
           (next_thread, m) = mcsos_sched_pick_next sched m in
       if \<not> valid_thread_object m next_thread then (MCSOS_SCHED_ECORRUPT, m)
       else if next_thread = old_thread then
         (MCSOS_SCHED_OK, upd_thread old_thread (\<lambda>th. th\<lparr>th_state := MCSOS_THREAD_RUNNING\<rparr>) m)
       else
         let (rc, m) =
           (if th_state (threads m old_thread) = MCSOS_THREAD_RUNNING \<and>
               old_thread \<noteq> sc_idle (scheds m sched)
            then mcsos_sched_enqueue sched old_thread
              (upd_thread old_thread (\<lambda>th. th\<lparr>th_state := MCSOS_THREAD_READY\<rparr>) m)
            else (MCSOS_SCHED_OK, m)) in
         if rc \<noteq> MCSOS_SCHED_OK then (rc, m)
         else (MCSOS_SCHED_OK, yield_switch sched old_thread next_thread m))"

definition mcsos_sched_tick :: "u64 \<Rightarrow> sched_mem \<Rightarrow> mcsos_sched_result \<times> sched_mem" where
  "mcsos_sched_tick sched m =
    (if sched = 0 \<or> sc_initialized (scheds m sched) = 0 \<or>
       \<not> valid_thread_object m (sc_current (scheds m sched))
     then (MCSOS_SCHED_EINVAL, m)
     else
       let m = upd_sched sched (\<lambda>s. s\<lparr>sc_ticks := sc_ticks s + 1\<rparr>) m;
           m = upd_thread (sc_current (scheds m sched)) (\<lambda>th. th\<lparr>th_ticks := th_ticks th + 1\<rparr>) m
       in (MCSOS_SCHED_OK, m))"

definition mcsos_thread_block_current :: "u64 \<Rightarrow> sched_mem \<Rightarrow> mcsos_sched_result \<times> sched_mem" where
  "mcsos_thread_block_current sched m =
    (if sched = 0 \<or> sc_initialized (scheds m sched) = 0 \<or>
       \<not> valid_thread_object m (sc_current (scheds m sched))
     then (MCSOS_SCHED_EINVAL, m)
     else if sc_current (scheds m sched) = sc_idle (scheds m sched) then (MCSOS_SCHED_ESTATE, m)
     else mcsos_sched_yield sched
       (upd_thread (sc_current (scheds m sched))
          (\<lambda>th. th\<lparr>th_state := MCSOS_THREAD_BLOCKED\<rparr>) m))"

definition mcsos_thread_mark_ready :: "u64 \<Rightarrow> u64 \<Rightarrow> sched_mem \<Rightarrow> mcsos_sched_result \<times> sched_mem" where
  "mcsos_thread_mark_ready sched thread m =
    (if \<not> valid_thread_object m thread then (MCSOS_SCHED_EINVAL, m)
     else if th_state (threads m thread) \<noteq> MCSOS_THREAD_BLOCKED then (MCSOS_SCHED_ESTATE, m)
     else mcsos_sched_enqueue sched thread m)"

text \<open>The two queue walks follow \<^verbatim>\<open>next\<close> without a bound of their own; \<open>None\<close> is a walk that never ends.\<close>

partial_function (option) ready_count_loop :: "sched_mem \<Rightarrow> u64 \<Rightarrow> u64 \<Rightarrow> u64 option" where
  "ready_count_loop m cursor count =
    (if cursor \<noteq> 0 then ready_count_loop m (th_next (threads m cursor)) (count + 1)
     else Some count)"

definition mcsos_sched_ready_count :: "u64 \<Rightarrow> sched_mem \<Rightarrow> u64 option" where
  "mcsos_sched_ready_count sched m =
    (if sched = 0 \<or> sc_initialized (scheds m sched) = 0 then Some 0
     else ready_count_loop m (sc_ready_head (scheds m sched)) 0)"

partial_function (option) sched_validate_loop ::
  "sched_mem \<Rightarrow> mcsos_scheduler \<Rightarrow> u64 \<Rightarrow> u64 \<Rightarrow> u64 \<Rightarrow> mcsos_sched_result option" where
  "sched_validate_loop m s cursor lst count =
    (if cursor \<noteq> 0 then
       if \<not> valid_thread_object m cursor \<or> th_state (threads m cursor) \<noteq> MCSOS_THREAD_READY
       then Some MCSOS_SCHED_ECORRUPT
       else if cursor = sc_current s then Some MCSOS_SCHED_ECORRUPT
       else if count + 1 > sc_runnable_count s + 1 then Some MCSOS_SCHED_ECORRUPT
       else sched_validate_loop m s (th_next (threads m cursor)) cursor (count + 1)
     else if lst \<noteq> sc_ready_tail s then Some MCSOS_SCHED_ECORRUPT
     else if count \<noteq> sc_runnable_count s then Some MCSOS_SCHED_ECORRUPT
     else Some MCSOS_SCHED_OK)"

definition mcsos_sched_validate :: "u64 \<Rightarrow> sched_mem \<Rightarrow> mcsos_sched_result option" where
  "mcsos_sched_validate sched m =
    (if sched = 0 \<or> sc_initialized (scheds m sched) = 0 \<or>
       \<not> valid_thread_object m (sc_current (scheds m sched))
     then Some MCSOS_SCHED_EINVAL
     else sched_validate_loop m (scheds m sched) (sc_ready_head (scheds m sched)) 0 0)"

section \<open>The ready queue\<close>

abbreviation next_of :: "sched_mem \<Rightarrow> u64 \<Rightarrow> u64" where
  "next_of m t \<equiv> th_next (threads m t)"

abbreviation state_of :: "sched_mem \<Rightarrow> u64 \<Rightarrow> mcsos_thread_state" where
  "state_of m t \<equiv> th_state (threads m t)"

abbreviation current_of :: "u64 \<Rightarrow> sched_mem \<Rightarrow> u64" where
  "current_of sp m \<equiv> sc_current (scheds m sp)"

abbreviation idle_of :: "u64 \<Rightarrow> sched_mem \<Rightarrow> u64" where
  "idle_of sp m \<equiv> sc_idle (scheds m sp)"

text \<open>The representation of a queue of threads: head, tail, links and count agree with a list.\<close>

definition queue_rep :: "u64 \<Rightarrow> u64 list \<Rightarrow> sched_mem \<Rightarrow> bool" where
  "queue_rep sp xs m \<longleftrightarrow>
     sp \<noteq> 0 \<and> sc_initialized (scheds m sp) \<noteq> 0 \<and>
     links (\<lambda>t. th_next (threads m t)) (sc_ready_head (scheds m sp)) xs 0 \<and>
     sc_ready_tail (scheds m sp) = (if xs = [] then 0 else last xs) \<and>
     sc_runnable_count (scheds m sp) = of_nat (length xs)"

lemma threads_upd_thread [simp]: "threads (upd_thread p f m) = (threads m)(p := f (threads m p))"
  and scheds_upd_thread [simp]: "scheds (upd_thread p f m) = scheds m"
  and cpu_upd_thread [simp]: "cpu (upd_thread p f m) = cpu m"
  and active_upd_thread [simp]: "g_active_sched (upd_thread p f m) = g_active_sched m"
  by (simp_all add: upd_thread_def)

lemma threads_upd_sched [simp]: "threads (upd_sched p g m) = threads m"
  and scheds_upd_sched [simp]: "scheds (upd_sched p g m) = (scheds m)(p := g (scheds m p))"
  and cpu_upd_sched [simp]: "cpu (upd_sched p g m) = cpu m"
  and active_upd_sched [simp]: "g_active_sched (upd_sched p g m) = g_active_sched m"
  by (simp_all add: upd_sched_def)

lemma queue_rep_distinct: "queue_rep sp xs m \<Longrightarrow> distinct xs"
  unfolding queue_rep_def using links_distinct by blast

lemma queue_rep_null: "queue_rep sp xs m \<Longrightarrow> 0 \<notin> set xs"
  unfolding queue_rep_def using links_notin_null by blast

lemma queue_rep_length: "queue_rep sp xs m \<Longrightarrow> length xs < 2 ^ 64"
  using length_distinct_u64 queue_rep_distinct queue_rep_null by blast

lemma queue_rep_unique: "queue_rep sp xs m \<Longrightarrow> queue_rep sp ys m \<Longrightarrow> xs = ys"
  unfolding queue_rep_def using links_unique by blast

lemma queue_rep_cong:
  assumes "queue_rep sp xs m"
    and "\<And>t. t \<in> set xs \<Longrightarrow> next_of m' t = next_of m t"
    and "sc_ready_head (scheds m' sp) = sc_ready_head (scheds m sp)"
    and "sc_ready_tail (scheds m' sp) = sc_ready_tail (scheds m sp)"
    and "sc_runnable_count (scheds m' sp) = sc_runnable_count (scheds m sp)"
    and "sc_initialized (scheds m' sp) = sc_initialized (scheds m sp)"
  shows "queue_rep sp xs m'"
  using assms links_cong [of xs "next_of m'" "next_of m"] by (simp add: queue_rep_def)

text \<open>Appending at the tail.\<close>

lemma queue_rep_append:
  assumes rep: "queue_rep sp xs m" and new: "t \<notin> set xs" "t \<noteq> 0"
    and links': "th_next (threads m' t) = 0"
      "xs \<noteq> [] \<Longrightarrow> th_next (threads m' (last xs)) = t"
      "\<And>u. u \<in> set xs \<Longrightarrow> u \<noteq> last xs \<Longrightarrow> next_of m' u = next_of m u"
    and sched': "sc_initialized (scheds m' sp) \<noteq> 0" "sc_ready_tail (scheds m' sp) = t"
      "sc_ready_head (scheds m' sp) = (if xs = [] then t else sc_ready_head (scheds m sp))"
      "sc_runnable_count (scheds m' sp) = sc_runnable_count (scheds m sp) + 1"
  shows "queue_rep sp (xs @ [t]) m'"
proof (cases xs rule: rev_cases)
  case Nil
  then show ?thesis
    using assms by (simp add: queue_rep_def)
next
  case (snoc ys y)
  have y: "y \<notin> set ys"
    using queue_rep_distinct [OF rep] snoc by simp
  have "links (next_of m) (sc_ready_head (scheds m sp)) ys y" and "y \<noteq> 0"
    using rep snoc by (simp_all add: queue_rep_def links_snoc)
  moreover have "links (next_of m') p ys y \<longleftrightarrow> links (next_of m) p ys y" for p
    using y snoc links'(3) by (intro links_cong) auto
  ultimately show ?thesis
    using assms snoc by (simp add: queue_rep_def links_append)
qed

text \<open>
  What an operation on the queue leaves alone: of each thread only \<^verbatim>\<open>next\<close> and, for those whose
  state is listed, \<^verbatim>\<open>state\<close> change; of the scheduler only the queue fields.
\<close>

definition queue_frame :: "u64 \<Rightarrow> (u64 \<Rightarrow> mcsos_thread_state) \<Rightarrow> sched_mem \<Rightarrow> sched_mem \<Rightarrow> bool" where
  "queue_frame sp st m m' \<longleftrightarrow>
     (\<forall>u. \<exists>n. threads m' u = (threads m u)\<lparr>th_state := st u, th_next := n\<rparr>) \<and>
     (\<exists>h tl c. scheds m' = (scheds m)(sp := (scheds m sp)
        \<lparr>sc_ready_head := h, sc_ready_tail := tl, sc_runnable_count := c\<rparr>)) \<and>
     (\<exists>ts ss. m' = m\<lparr>threads := ts, scheds := ss\<rparr>)"

lemma queue_frameD:
  assumes "queue_frame sp st m m'"
  shows "th_magic (threads m' u) = th_magic (threads m u)"
    and "th_context (threads m' u) = th_context (threads m u)"
    and "th_state (threads m' u) = st u"
    and "th_entry (threads m' u) = th_entry (threads m u)"
    and "valid_thread_object m' u = valid_thread_object m u"
    and "sc_current (scheds m' sp) = sc_current (scheds m sp)"
    and "sc_idle (scheds m' sp) = sc_idle (scheds m sp)"
    and "cpu m' = cpu m" and "switch_label m' = switch_label m"
proof -
  obtain n where "threads m' u = (threads m u)\<lparr>th_state := st u, th_next := n\<rparr>"
    using assms unfolding queue_frame_def by blast
  then show "th_magic (threads m' u) = th_magic (threads m u)"
    "th_context (threads m' u) = th_context (threads m u)" "th_state (threads m' u) = st u"
    "th_entry (threads m' u) = th_entry (threads m u)"
    "valid_thread_object m' u = valid_thread_object m u"
    by (simp_all add: valid_thread_object_def)
  show "sc_current (scheds m' sp) = sc_current (scheds m sp)"
    "sc_idle (scheds m' sp) = sc_idle (scheds m sp)"
    using assms unfolding queue_frame_def by auto
  show "cpu m' = cpu m" "switch_label m' = switch_label m"
    using assms unfolding queue_frame_def by auto
qed

lemma queue_frame_trans:
  assumes "queue_frame sp st m m'" and "queue_frame sp st' m' m''"
  shows "queue_frame sp st' m m''"
proof -
  have "\<exists>n. threads m'' u = (threads m u)\<lparr>th_state := st' u, th_next := n\<rparr>" for u
  proof -
    obtain n n' where "threads m' u = (threads m u)\<lparr>th_state := st u, th_next := n\<rparr>"
      and "threads m'' u = (threads m' u)\<lparr>th_state := st' u, th_next := n'\<rparr>"
      using assms unfolding queue_frame_def by blast
    then show ?thesis
      by (auto intro: exI [of _ n'])
  qed
  moreover obtain h tl c h' tl' c' where
    "scheds m' = (scheds m)(sp := (scheds m sp)
      \<lparr>sc_ready_head := h, sc_ready_tail := tl, sc_runnable_count := c\<rparr>)"
    "scheds m'' = (scheds m')(sp := (scheds m' sp)
      \<lparr>sc_ready_head := h', sc_ready_tail := tl', sc_runnable_count := c'\<rparr>)"
    using assms unfolding queue_frame_def by blast
  then have "scheds m'' = (scheds m)(sp := (scheds m sp)
      \<lparr>sc_ready_head := h', sc_ready_tail := tl', sc_runnable_count := c'\<rparr>)"
    by simp
  moreover obtain ts ss ts' ss' where
    "m' = m\<lparr>threads := ts, scheds := ss\<rparr>" "m'' = m'\<lparr>threads := ts', scheds := ss'\<rparr>"
    using assms unfolding queue_frame_def by blast
  then have "m'' = m\<lparr>threads := ts', scheds := ss'\<rparr>"
    by simp
  ultimately show ?thesis
    unfolding queue_frame_def by blast
qed

lemma queue_frame_thread:
  assumes "\<exists>n. f (threads m p) = (threads m p)\<lparr>th_state := st p, th_next := n\<rparr>"
    and "\<And>u. u \<noteq> p \<Longrightarrow> st u = state_of m u"
  shows "queue_frame sp st m (upd_thread p f m)"
proof -
  have "\<exists>n. threads (upd_thread p f m) u = (threads m u)\<lparr>th_state := st u, th_next := n\<rparr>" for u
    using assms by (cases "u = p") (auto intro: exI [of _ "next_of m u"])
  moreover have "scheds (upd_thread p f m) = (scheds m)(sp := (scheds m sp)
      \<lparr>sc_ready_head := sc_ready_head (scheds m sp), sc_ready_tail := sc_ready_tail (scheds m sp),
       sc_runnable_count := sc_runnable_count (scheds m sp)\<rparr>)"
    by simp
  moreover have "upd_thread p f m =
      m\<lparr>threads := threads (upd_thread p f m), scheds := scheds m\<rparr>"
    by (simp add: upd_thread_def)
  ultimately show ?thesis
    unfolding queue_frame_def by blast
qed

lemma queue_frame_sched:
  assumes "\<exists>h tl c. g (scheds m sp) =
    (scheds m sp)\<lparr>sc_ready_head := h, sc_ready_tail := tl, sc_runnable_count := c\<rparr>"
    and "st = state_of m"
  shows "queue_frame sp st m (upd_sched sp g m)"
proof -
  have "\<exists>n. threads (upd_sched sp g m) u = (threads m u)\<lparr>th_state := st u, th_next := n\<rparr>" for u
    using assms(2) by (auto intro: exI [of _ "next_of m u"])
  moreover obtain h tl c where "g (scheds m sp) =
    (scheds m sp)\<lparr>sc_ready_head := h, sc_ready_tail := tl, sc_runnable_count := c\<rparr>"
    using assms(1) by blast
  then have "scheds (upd_sched sp g m) = (scheds m)(sp := (scheds m sp)
      \<lparr>sc_ready_head := h, sc_ready_tail := tl, sc_runnable_count := c\<rparr>)"
    by simp
  moreover have "upd_sched sp g m =
      m\<lparr>threads := threads m, scheds := scheds (upd_sched sp g m)\<rparr>"
    by (simp add: upd_sched_def)
  ultimately show ?thesis
    unfolding queue_frame_def by blast
qed

lemma queue_frame_refl: "queue_frame sp (state_of m) m m"
proof -
  have "\<exists>n. threads m 0 = (threads m 0)\<lparr>th_next := n\<rparr>"
    by (rule exI [of _ "next_of m 0"]) simp
  then show ?thesis
    using queue_frame_thread [of "\<lambda>th. th" m 0 "state_of m" sp] by (simp add: upd_thread_def)
qed

lemma queue_frame_set_next:
  assumes "queue_frame sp st m m'"
  shows "queue_frame sp st m (upd_thread p (\<lambda>th. th\<lparr>th_next := n\<rparr>) m')"
  using assms queue_frameD(3) [OF assms]
  by (auto intro!: queue_frame_trans [OF assms] queue_frame_thread exI [of _ n])

lemma queue_frame_set_ready:
  assumes "queue_frame sp st m m'" and "st' = st(p := MCSOS_THREAD_READY)"
  shows "queue_frame sp st' m
    (upd_thread p (\<lambda>th. th\<lparr>th_state := MCSOS_THREAD_READY, th_next := n\<rparr>) m')"
  using assms queue_frameD(3) [OF assms(1)]
  by (auto intro!: queue_frame_trans [OF assms(1)] queue_frame_thread exI [of _ n])

lemma queue_frame_set_sched:
  assumes "queue_frame sp st m m'"
  shows "queue_frame sp st m (upd_sched sp (\<lambda>s. s\<lparr>sc_ready_head := h s, sc_ready_tail := q s\<rparr>) m')"
    and "queue_frame sp st m (upd_sched sp (\<lambda>s. s\<lparr>sc_ready_head := h s\<rparr>) m')"
    and "queue_frame sp st m (upd_sched sp (\<lambda>s. s\<lparr>sc_ready_tail := q s\<rparr>) m')"
    and "queue_frame sp st m (upd_sched sp (\<lambda>s. s\<lparr>sc_runnable_count := c s\<rparr>) m')"
proof -
  have st: "st = state_of m'"
    using queue_frameD(3) [OF assms] by auto
  let ?s = "scheds m' sp"
  show "queue_frame sp st m (upd_sched sp (\<lambda>s. s\<lparr>sc_ready_head := h s, sc_ready_tail := q s\<rparr>) m')"
    by (rule queue_frame_trans [OF assms queue_frame_sched])
      (rule exI [of _ "h ?s"] exI [of _ "q ?s"] exI [of _ "sc_runnable_count ?s"] | simp add: st)+
  show "queue_frame sp st m (upd_sched sp (\<lambda>s. s\<lparr>sc_ready_head := h s\<rparr>) m')"
    by (rule queue_frame_trans [OF assms queue_frame_sched])
      (rule exI [of _ "h ?s"] exI [of _ "sc_ready_tail ?s"] exI [of _ "sc_runnable_count ?s"] | simp add: st)+
  show "queue_frame sp st m (upd_sched sp (\<lambda>s. s\<lparr>sc_ready_tail := q s\<rparr>) m')"
    by (rule queue_frame_trans [OF assms queue_frame_sched])
      (rule exI [of _ "sc_ready_head ?s"] exI [of _ "q ?s"] exI [of _ "sc_runnable_count ?s"] | simp add: st)+
  show "queue_frame sp st m (upd_sched sp (\<lambda>s. s\<lparr>sc_runnable_count := c s\<rparr>) m')"
    by (rule queue_frame_trans [OF assms queue_frame_sched])
      (rule exI [of _ "sc_ready_head ?s"] exI [of _ "sc_ready_tail ?s"] exI [of _ "c ?s"] | simp add: st)+
qed

lemmas queue_frame_intros =
  queue_frame_set_sched queue_frame_set_next queue_frame_set_ready [OF _ refl] queue_frame_refl

lemma enqueue_spec:
  assumes rep: "queue_rep sp xs m" and t: "valid_thread_object m t" "t \<notin> set xs"
    and st: "state_of m t \<noteq> MCSOS_THREAD_RUNNING" "state_of m t \<noteq> MCSOS_THREAD_ZOMBIE"
  obtains m' where "mcsos_sched_enqueue sp t m = (MCSOS_SCHED_OK, m')"
    and "queue_rep sp (xs @ [t]) m'"
    and "queue_frame sp ((state_of m)(t := MCSOS_THREAD_READY)) m m'"
proof -
  define m' where "m' = snd (mcsos_sched_enqueue sp t m)"
  have st': "state_of m t = MCSOS_THREAD_NEW \<or> state_of m t = MCSOS_THREAD_READY \<or>
      state_of m t = MCSOS_THREAD_BLOCKED"
    using st by (cases "state_of m t") auto
  have init: "sp \<noteq> 0" "sc_initialized (scheds m sp) \<noteq> 0"
    and tail: "sc_ready_tail (scheds m sp) = (if xs = [] then 0 else last xs)"
    using rep by (simp_all add: queue_rep_def)
  have lst: "xs \<noteq> [] \<Longrightarrow> last xs \<noteq> 0 \<and> last xs \<noteq> t"
    using queue_rep_null [OF rep] t(2) by (metis last_in_set)
  have res: "mcsos_sched_enqueue sp t m = (MCSOS_SCHED_OK, m')"
    using st' init t(1) by (auto simp: m'_def mcsos_sched_enqueue_def Let_def)
  have "t \<noteq> 0"
    using t(1) by (simp add: valid_thread_object_def)
  have "queue_rep sp (xs @ [t]) m'"
    by (rule queue_rep_append [OF rep t(2) \<open>t \<noteq> 0\<close>])
      (use st' init t lst tail in \<open>auto simp: m'_def mcsos_sched_enqueue_def Let_def\<close>)
  moreover have "queue_frame sp ((state_of m)(t := MCSOS_THREAD_READY)) m m'"
    using st' init t(1) unfolding m'_def
    by (auto simp: mcsos_sched_enqueue_def Let_def intro!: queue_frame_intros)
  ultimately show ?thesis
    using res that by blast
qed

lemma pick_next_empty:
  "queue_rep sp [] m \<Longrightarrow> mcsos_sched_pick_next sp m = (idle_of sp m, m)"
  by (simp add: queue_rep_def mcsos_sched_pick_next_def)

lemma pick_next_spec:
  assumes rep: "queue_rep sp (t # xs) m"
  obtains m' where "mcsos_sched_pick_next sp m = (t, m')"
    and "queue_rep sp xs m'" and "queue_frame sp (state_of m) m m'"
proof -
  define m' where "m' = snd (mcsos_sched_pick_next sp m)"
  have t: "t \<notin> set xs" "t \<noteq> 0"
    using queue_rep_distinct [OF rep] queue_rep_null [OF rep] by auto
  have head: "sc_ready_head (scheds m sp) = t" "sp \<noteq> 0" "sc_initialized (scheds m sp) \<noteq> 0"
    using rep by (simp_all add: queue_rep_def)
  have res: "mcsos_sched_pick_next sp m = (t, m')"
    using head t by (simp add: m'_def mcsos_sched_pick_next_def Let_def)
  have rest: "links (next_of m) (next_of m t) xs 0"
    using rep by (simp add: queue_rep_def)
  have count: "sc_runnable_count (scheds m sp) = of_nat (length xs) + 1"
    using rep by (simp add: queue_rep_def)
  have pos: "0 < sc_runnable_count (scheds m sp)"
    using rep queue_rep_length [OF rep]
    by (simp add: queue_rep_def word_less_nat_alt unat_of_nat_small del: of_nat_Suc)
  have tl: "next_of m t = 0 \<longleftrightarrow> xs = []" "xs \<noteq> [] \<Longrightarrow> sc_ready_tail (scheds m sp) = last xs"
    using rest rep by (cases xs; auto simp: queue_rep_def)+
  have "links (next_of m') (next_of m t) xs 0 \<longleftrightarrow> links (next_of m) (next_of m t) xs 0"
    by (rule links_cong) (use head t in \<open>auto simp: m'_def mcsos_sched_pick_next_def Let_def\<close>)
  then have "queue_rep sp xs m'"
    using head pos count rest tl t unfolding m'_def
    by (auto simp: mcsos_sched_pick_next_def Let_def queue_rep_def)
  moreover have "queue_frame sp (state_of m) m m'"
    using head t unfolding m'_def
    by (auto simp: mcsos_sched_pick_next_def Let_def intro!: queue_frame_intros)
  ultimately show ?thesis
    using res that by blast
qed

section \<open>The scheduler invariant\<close>

text \<open>
  The queue holds exactly the READY threads; the current and the idle thread are RUNNING, and no
  other thread is. The idle thread keeps that state while another thread runs.
\<close>

definition sched_inv :: "u64 \<Rightarrow> u64 list \<Rightarrow> sched_mem \<Rightarrow> bool" where
  "sched_inv sp xs m \<longleftrightarrow> queue_rep sp xs m \<and>
     (\<forall>t. t \<in> set xs \<longleftrightarrow> valid_thread_object m t \<and> state_of m t = MCSOS_THREAD_READY) \<and>
     (\<forall>t. t = current_of sp m \<or> t = idle_of sp m \<longleftrightarrow>
        valid_thread_object m t \<and> state_of m t = MCSOS_THREAD_RUNNING)"

lemma sched_inv_ready:
  "sched_inv sp xs m \<Longrightarrow> t \<in> set xs \<longleftrightarrow> valid_thread_object m t \<and> state_of m t = MCSOS_THREAD_READY"
  by (simp add: sched_inv_def)

lemma sched_inv_running:
  "sched_inv sp xs m \<Longrightarrow> t = current_of sp m \<or> t = idle_of sp m \<Longrightarrow>
     valid_thread_object m t \<and> state_of m t = MCSOS_THREAD_RUNNING \<and> t \<notin> set xs"
  unfolding sched_inv_def by (metis mcsos_thread_state.distinct(9))

lemma enqueue_inv:
  assumes inv: "sched_inv sp xs m" and t: "valid_thread_object m t"
    and st: "state_of m t = MCSOS_THREAD_NEW \<or> state_of m t = MCSOS_THREAD_BLOCKED"
  obtains m' where "mcsos_sched_enqueue sp t m = (MCSOS_SCHED_OK, m')"
    and "sched_inv sp (xs @ [t]) m'" and "current_of sp m' = current_of sp m"
    and "idle_of sp m' = idle_of sp m"
    and "queue_frame sp ((state_of m)(t := MCSOS_THREAD_READY)) m m'"
proof -
  have "t \<notin> set xs" and rep: "queue_rep sp xs m"
    using inv st by (auto simp: sched_inv_def)
  then obtain m' where m': "mcsos_sched_enqueue sp t m = (MCSOS_SCHED_OK, m')"
      "queue_rep sp (xs @ [t]) m'"
    and fr: "queue_frame sp ((state_of m)(t := MCSOS_THREAD_READY)) m m'"
    using enqueue_spec [OF rep t] st by (metis mcsos_thread_state.distinct)
  note D = queue_frameD [OF fr]
  have "sched_inv sp (xs @ [t]) m'"
    using inv t st m'(2) unfolding sched_inv_def by (auto simp: D)
  then show ?thesis
    using that m' fr D by blast
qed

text \<open>Round robin: what a yield does to the current thread and the ready list.\<close>

fun yield_spec :: "u64 \<Rightarrow> u64 \<Rightarrow> u64 list \<Rightarrow> u64 \<times> u64 list" where
  "yield_spec idle cur [] = (idle, if cur = idle then [] else [cur])"
| "yield_spec idle cur (y # ys) = (y, if cur = idle then ys else ys @ [cur])"

fun block_spec :: "u64 \<Rightarrow> u64 list \<Rightarrow> u64 \<times> u64 list" where
  "block_spec idle [] = (idle, [])"
| "block_spec idle (y # ys) = (y, ys)"

text \<open>
  A yield starts from the invariant, or, when a thread blocks itself, from a state in which the
  current thread has just been marked BLOCKED.
\<close>

definition yield_pre :: "u64 \<Rightarrow> u64 list \<Rightarrow> sched_mem \<Rightarrow> bool" where
  "yield_pre sp xs m \<longleftrightarrow> queue_rep sp xs m \<and>
     (\<forall>t. t \<in> set xs \<longleftrightarrow> valid_thread_object m t \<and> state_of m t = MCSOS_THREAD_READY) \<and>
     (\<forall>t. valid_thread_object m t \<and> state_of m t = MCSOS_THREAD_RUNNING \<longrightarrow>
        t = current_of sp m \<or> t = idle_of sp m) \<and>
     valid_thread_object m (idle_of sp m) \<and> state_of m (idle_of sp m) = MCSOS_THREAD_RUNNING \<and>
     valid_thread_object m (current_of sp m) \<and>
     (state_of m (current_of sp m) = MCSOS_THREAD_RUNNING \<or>
      state_of m (current_of sp m) = MCSOS_THREAD_BLOCKED)"

definition yield_target :: "u64 \<Rightarrow> u64 list \<Rightarrow> sched_mem \<Rightarrow> u64 \<times> u64 list" where
  "yield_target sp xs m =
    (if state_of m (current_of sp m) = MCSOS_THREAD_RUNNING
     then yield_spec (idle_of sp m) (current_of sp m) xs else block_spec (idle_of sp m) xs)"

lemma inv_yield_pre:
  "sched_inv sp xs m \<Longrightarrow> yield_pre sp xs m \<and> state_of m (current_of sp m) = MCSOS_THREAD_RUNNING"
  unfolding sched_inv_def yield_pre_def by blast

lemma yield_pick:
  assumes pre: "yield_pre sp xs m"
  obtains nxt ys m1 where "mcsos_sched_pick_next sp m = (nxt, m1)"
    and "queue_rep sp ys m1" and "queue_frame sp (state_of m) m m1"
    and "valid_thread_object m nxt" and "nxt \<notin> set ys"
    and "xs = [] \<and> ys = [] \<and> nxt = idle_of sp m \<or>
         xs = nxt # ys \<and> state_of m nxt = MCSOS_THREAD_READY"
proof (cases xs)
  case Nil
  then have "mcsos_sched_pick_next sp m = (idle_of sp m, m)"
    using pre by (simp add: yield_pre_def pick_next_empty)
  with Nil pre that [of "idle_of sp m" m "[]"] queue_frame_refl show ?thesis
    by (simp add: yield_pre_def)
next
  case (Cons t ys)
  then have rep: "queue_rep sp (t # ys) m"
    using pre by (simp add: yield_pre_def)
  obtain m1 where m1: "mcsos_sched_pick_next sp m = (t, m1)" "queue_rep sp ys m1"
      "queue_frame sp (state_of m) m m1"
    using pick_next_spec [OF rep] by blast
  have "t \<notin> set ys" "valid_thread_object m t \<and> state_of m t = MCSOS_THREAD_READY"
    using queue_rep_distinct [OF rep] pre Cons by (auto simp: yield_pre_def)
  with m1 Cons that show ?thesis
    by blast
qed

lemma yield_requeue:
  assumes rep: "queue_rep sp ys m1" and fr: "queue_frame sp (state_of m) m m1"
    and old: "valid_thread_object m old" "old \<notin> set ys"
  obtains m2 where
    "(if th_state (threads m1 old) = MCSOS_THREAD_RUNNING \<and> old \<noteq> sc_idle (scheds m1 sp)
      then mcsos_sched_enqueue sp old
        (upd_thread old (\<lambda>th. th\<lparr>th_state := MCSOS_THREAD_READY\<rparr>) m1)
      else (MCSOS_SCHED_OK, m1)) = (MCSOS_SCHED_OK, m2)"
    and "queue_rep sp
      (if state_of m old = MCSOS_THREAD_RUNNING \<and> old \<noteq> idle_of sp m then ys @ [old] else ys) m2"
    and "queue_frame sp
      (if state_of m old = MCSOS_THREAD_RUNNING \<and> old \<noteq> idle_of sp m
       then (state_of m)(old := MCSOS_THREAD_READY) else state_of m) m m2"
proof (cases "state_of m old = MCSOS_THREAD_RUNNING \<and> old \<noteq> idle_of sp m")
  case True
  note D = queue_frameD [OF fr]
  let ?m = "upd_thread old (\<lambda>th. th\<lparr>th_state := MCSOS_THREAD_READY\<rparr>) m1"
  have "queue_rep sp ys ?m"
    by (rule queue_rep_cong [OF rep]) auto
  moreover have "valid_thread_object ?m old"
    using old(1) D(1) by (simp add: valid_thread_object_def)
  ultimately obtain m2 where m2: "mcsos_sched_enqueue sp old ?m = (MCSOS_SCHED_OK, m2)"
      "queue_rep sp (ys @ [old]) m2"
      "queue_frame sp ((state_of ?m)(old := MCSOS_THREAD_READY)) ?m m2"
    using enqueue_spec [of sp ys ?m old] old(2) by auto
  have "queue_frame sp ((state_of m)(old := MCSOS_THREAD_READY)) m ?m"
    by (rule queue_frame_trans [OF fr queue_frame_thread])
      (auto simp: D intro!: exI [of _ "next_of m1 old"])
  moreover have "(state_of ?m)(old := MCSOS_THREAD_READY) = (state_of m)(old := MCSOS_THREAD_READY)"
    by (auto simp: D)
  ultimately have "queue_frame sp ((state_of m)(old := MCSOS_THREAD_READY)) m m2"
    using queue_frame_trans m2(3) by metis
  with m2 True that [of m2] D show ?thesis
    by simp
next
  case False
  then show ?thesis
    using that [of m1] rep fr queue_frameD [OF fr] by auto
qed

text \<open>
  The effect of a yield: the scheduling decision, the invariant after it, and the register
  contexts.
\<close>

definition switched :: "u64 \<Rightarrow> u64 \<Rightarrow> sched_mem \<Rightarrow> sched_mem \<Rightarrow> bool" where
  "switched old nxt m m' \<longleftrightarrow>
     (if nxt = old then cpu m' = cpu m \<and> (\<forall>t. th_context (threads m' t) = th_context (threads m t))
      else cpu m' = th_context (threads m nxt) \<and>
        (\<forall>t. th_context (threads m' t) =
          (if t = old then (cpu m)\<lparr>rip := switch_label m\<rparr> else th_context (threads m t))))"

lemma yield_switch_simps:
  "next_of (yield_switch sp old nxt m) t = next_of m t"
  "th_magic (threads (yield_switch sp old nxt m) t) = th_magic (threads m t)"
  "state_of (yield_switch sp old nxt m) t = (if t = nxt then MCSOS_THREAD_RUNNING else state_of m t)"
  "sc_current (scheds (yield_switch sp old nxt m) sp) = nxt"
  "sc_idle (scheds (yield_switch sp old nxt m) sp) = sc_idle (scheds m sp)"
  "sc_ready_head (scheds (yield_switch sp old nxt m) sp) = sc_ready_head (scheds m sp)"
  "sc_ready_tail (scheds (yield_switch sp old nxt m) sp) = sc_ready_tail (scheds m sp)"
  "sc_runnable_count (scheds (yield_switch sp old nxt m) sp) = sc_runnable_count (scheds m sp)"
  "sc_initialized (scheds (yield_switch sp old nxt m) sp) = sc_initialized (scheds m sp)"
  by (simp_all add: yield_switch_def mcsos_context_switch_def Let_def)

lemma yield_switch_valid:
  "valid_thread_object (yield_switch sp old nxt m) t = valid_thread_object m t"
  by (simp add: valid_thread_object_def yield_switch_simps)

lemma yield_switch_context:
  assumes "nxt \<noteq> old"
  shows "cpu (yield_switch sp old nxt m) = th_context (threads m nxt)"
    and "th_context (threads (yield_switch sp old nxt m) t) =
      (if t = old then (cpu m)\<lparr>rip := switch_label m\<rparr> else th_context (threads m t))"
  using assms
  by (simp_all add: yield_switch_def mcsos_context_switch_def Let_def upd_thread_def upd_sched_def)

lemma yield_eval:
  assumes "sp \<noteq> 0" and "sc_initialized (scheds m sp) \<noteq> 0"
    and "valid_thread_object m (current_of sp m)"
    and "mcsos_sched_pick_next sp m = (n, m1)" and "valid_thread_object m1 n"
    and "n \<noteq> current_of sp m"
    and "(if th_state (threads m1 (current_of sp m)) = MCSOS_THREAD_RUNNING \<and>
        current_of sp m \<noteq> sc_idle (scheds m1 sp)
      then mcsos_sched_enqueue sp (current_of sp m)
        (upd_thread (current_of sp m) (\<lambda>th. th\<lparr>th_state := MCSOS_THREAD_READY\<rparr>) m1)
      else (MCSOS_SCHED_OK, m1)) = (MCSOS_SCHED_OK, m2)"
  shows "mcsos_sched_yield sp m = (MCSOS_SCHED_OK, yield_switch sp (current_of sp m) n m2)"
  using assms(1-6) unfolding mcsos_sched_yield_def Let_def
  by (simp only: assms(7) split_conv if_False not_True_eq_False simp_thms)

lemma upd_thread_same_state: "state_of m p = st \<Longrightarrow> upd_thread p (\<lambda>th. th\<lparr>th_state := st\<rparr>) m = m"
proof -
  assume "state_of m p = st"
  then have "(threads m p)\<lparr>th_state := st\<rparr> = threads m p"
    by (cases "threads m p") simp
  then show ?thesis
    by (simp add: upd_thread_def)
qed

lemma yield_core:
  assumes pre: "yield_pre sp xs m" and tgt: "yield_target sp xs m = (nxt, ys')"
    and blk: "state_of m (current_of sp m) = MCSOS_THREAD_BLOCKED \<Longrightarrow>
      current_of sp m \<noteq> idle_of sp m"
  obtains m' where "mcsos_sched_yield sp m = (MCSOS_SCHED_OK, m')" and "sched_inv sp ys' m'"
    and "current_of sp m' = nxt" and "idle_of sp m' = idle_of sp m"
    and "switched (current_of sp m) nxt m m'"
    and "state_of m (current_of sp m) = MCSOS_THREAD_BLOCKED \<Longrightarrow>
      state_of m' (current_of sp m) = MCSOS_THREAD_BLOCKED"
proof -
  let ?old = "current_of sp m"
  obtain n ys m1 where pick: "mcsos_sched_pick_next sp m = (n, m1)"
    and rep: "queue_rep sp ys m1" and fr: "queue_frame sp (state_of m) m m1"
    and n: "valid_thread_object m n" "n \<notin> set ys"
    and xs: "xs = [] \<and> ys = [] \<and> n = idle_of sp m \<or>
         xs = n # ys \<and> state_of m n = MCSOS_THREAD_READY"
    by (rule yield_pick [OF pre])
  note D = queue_frameD [OF fr]
  have "state_of m ?old \<noteq> MCSOS_THREAD_READY"
    using pre by (auto simp: yield_pre_def)
  then have old: "valid_thread_object m ?old" "?old \<notin> set xs"
    using pre unfolding yield_pre_def by blast+
  then have "?old \<notin> set ys"
    using xs by auto
  obtain m2 where m2: "(if th_state (threads m1 ?old) = MCSOS_THREAD_RUNNING \<and>
        ?old \<noteq> sc_idle (scheds m1 sp)
      then mcsos_sched_enqueue sp ?old
        (upd_thread ?old (\<lambda>th. th\<lparr>th_state := MCSOS_THREAD_READY\<rparr>) m1)
      else (MCSOS_SCHED_OK, m1)) = (MCSOS_SCHED_OK, m2)"
    and rep2: "queue_rep sp (if state_of m ?old = MCSOS_THREAD_RUNNING \<and> ?old \<noteq> idle_of sp m
        then ys @ [?old] else ys) m2"
    and fr2: "queue_frame sp (if state_of m ?old = MCSOS_THREAD_RUNNING \<and> ?old \<noteq> idle_of sp m
       then (state_of m)(?old := MCSOS_THREAD_READY) else state_of m) m m2"
    by (rule yield_requeue [OF rep fr old(1) \<open>?old \<notin> set ys\<close>])
  note D2 = queue_frameD [OF fr2]
  have pre_cur: "state_of m ?old = MCSOS_THREAD_RUNNING \<or> state_of m ?old = MCSOS_THREAD_BLOCKED"
    and pre_run: "\<And>t. valid_thread_object m t \<Longrightarrow> state_of m t = MCSOS_THREAD_RUNNING \<Longrightarrow>
        t = ?old \<or> t = idle_of sp m"
    and pre_ready: "\<And>t. t \<in> set xs \<longleftrightarrow> valid_thread_object m t \<and> state_of m t = MCSOS_THREAD_READY"
    and pre_idle: "valid_thread_object m (idle_of sp m)"
      "state_of m (idle_of sp m) = MCSOS_THREAD_RUNNING"
    using pre unfolding yield_pre_def by blast+
  have init: "sp \<noteq> 0" "sc_initialized (scheds m sp) \<noteq> 0"
    using pre by (simp_all add: yield_pre_def queue_rep_def)
  have nxt: "nxt = n" and ys': "ys' = (if state_of m ?old = MCSOS_THREAD_RUNNING \<and>
      ?old \<noteq> idle_of sp m then ys @ [?old] else ys)"
    using tgt xs blk pre_cur unfolding yield_target_def by (elim disjE conjE; simp split: if_splits)+
  show ?thesis
  proof (cases "n = ?old")
    case True
    then have idle: "xs = []" "?old = idle_of sp m" "state_of m ?old = MCSOS_THREAD_RUNNING"
      using xs pre old unfolding yield_pre_def by auto
    then have "mcsos_sched_pick_next sp m = (?old, m)"
      using pre pick_next_empty by (simp add: yield_pre_def)
    then have "mcsos_sched_yield sp m = (MCSOS_SCHED_OK, m)"
      using init old idle by (simp add: mcsos_sched_yield_def upd_thread_same_state Let_def)
    moreover have "sched_inv sp ys' m"
      using pre idle xs unfolding sched_inv_def yield_pre_def ys' by auto
    ultimately show ?thesis
      using that [of m] True nxt idle by (simp add: switched_def)
  next
    case False
    let ?m' = "yield_switch sp ?old n m2"
    have res: "mcsos_sched_yield sp m = (MCSOS_SCHED_OK, ?m')"
      using n(1) by (intro yield_eval [OF init old(1) pick _ False m2]) (simp add: D)
    have "queue_rep sp ys' ?m'"
      unfolding ys' by (rule queue_rep_cong [OF rep2]) (simp_all add: yield_switch_simps)
    moreover have "t \<in> set ys' \<longleftrightarrow> valid_thread_object m t \<and> t \<noteq> n \<and>
        (t = ?old \<and> state_of m ?old = MCSOS_THREAD_RUNNING \<and> ?old \<noteq> idle_of sp m \<or>
         state_of m t = MCSOS_THREAD_READY)" for t
      using xs pre_ready [of t] n(2) False old unfolding ys' by auto
    moreover have "t = n \<or> t = idle_of sp m \<longleftrightarrow> valid_thread_object m t \<and> (t = n \<or>
        state_of m t = MCSOS_THREAD_RUNNING \<and> (t = ?old \<longrightarrow> ?old = idle_of sp m))" for t
      using pre_run [of t] pre_idle n(1) blk by auto
    ultimately have "sched_inv sp ys' ?m'"
      unfolding sched_inv_def yield_switch_valid yield_switch_simps D2
      by auto
    moreover have "switched ?old n m ?m'"
      using False by (simp add: switched_def yield_switch_context D2)
    ultimately show ?thesis
      using that [of ?m'] nxt res False by (simp add: yield_switch_simps D2)
  qed
qed

section \<open>Call sequences\<close>

text \<open>
  The calls of the threads on the scheduler. \<open>Compute\<close> is a stretch of thread code between two
  calls: it leaves arbitrary values in the registers.
\<close>

datatype sched_call =
    Yield | Tick | Block_current | Mark_ready u64 | Enqueue u64
  | Prepare u64 string u64 u64 u64 u64 u64
  | Compute mcsos_context

fun sched_exec :: "u64 \<Rightarrow> sched_call \<Rightarrow> sched_mem \<Rightarrow> mcsos_sched_result \<times> sched_mem" where
  "sched_exec sp Yield m = mcsos_sched_yield sp m"
| "sched_exec sp Tick m = mcsos_sched_tick sp m"
| "sched_exec sp Block_current m = mcsos_thread_block_current sp m"
| "sched_exec sp (Mark_ready t) m = mcsos_thread_mark_ready sp t m"
| "sched_exec sp (Enqueue t) m = mcsos_sched_enqueue sp t m"
| "sched_exec sp (Prepare t name entry arg base sz tid) m =
     mcsos_thread_prepare t name entry arg base sz tid m"
| "sched_exec sp (Compute regs) m = (MCSOS_SCHED_OK, m\<lparr>cpu := regs\<rparr>)"

text \<open>
  The caller's part of the contract: a thread that is already READY is not enqueued again, and a
  thread object is not prepared again while it is queued or running.
\<close>

fun call_allowed :: "sched_call \<Rightarrow> sched_mem \<Rightarrow> bool" where
  "call_allowed (Enqueue t) m \<longleftrightarrow>
     \<not> (valid_thread_object m t \<and> state_of m t = MCSOS_THREAD_READY)"
| "call_allowed (Prepare t name entry arg base sz tid) m \<longleftrightarrow>
     \<not> (valid_thread_object m t \<and>
        (state_of m t = MCSOS_THREAD_READY \<or> state_of m t = MCSOS_THREAD_RUNNING))"
| "call_allowed _ m \<longleftrightarrow> True"

primrec sched_run :: "u64 \<Rightarrow> sched_call list \<Rightarrow> sched_mem \<Rightarrow> sched_mem" where
  "sched_run sp [] m = m"
| "sched_run sp (c # cs) m = sched_run sp cs (snd (sched_exec sp c m))"

primrec calls_allowed :: "u64 \<Rightarrow> sched_call list \<Rightarrow> sched_mem \<Rightarrow> bool" where
  "calls_allowed sp [] m \<longleftrightarrow> True"
| "calls_allowed sp (c # cs) m \<longleftrightarrow> call_allowed c m \<and> calls_allowed sp cs (snd (sched_exec sp c m))"

lemma sched_inv_init: "sched_inv sp xs m \<Longrightarrow> sp \<noteq> 0 \<and> sc_initialized (scheds m sp) \<noteq> 0"
  by (simp add: sched_inv_def queue_rep_def)

text \<open>A call either leaves the current thread in place and can only append to the ready list, or switches.\<close>

definition stays :: "u64 \<Rightarrow> u64 list \<Rightarrow> sched_mem \<Rightarrow> sched_mem \<Rightarrow> bool" where
  "stays sp xs m m' \<longleftrightarrow> (\<exists>zs. sched_inv sp (xs @ zs) m') \<and> current_of sp m' = current_of sp m"

lemma stays_same: "sched_inv sp xs m' \<Longrightarrow> current_of sp m' = current_of sp m \<Longrightarrow> stays sp xs m m'"
  by (auto simp: stays_def intro: exI [of _ "[]"])

lemma enqueue_keeps:
  assumes inv: "sched_inv sp xs m" and ok: "call_allowed (Enqueue t) m"
    and res: "mcsos_sched_enqueue sp t m = (rc, m')"
  shows "stays sp xs m m'" and "th_context (threads m' u) = th_context (threads m u)"
proof -
  have "stays sp xs m m' \<and> th_context (threads m' u) = th_context (threads m u)"
  proof (cases "valid_thread_object m t \<and>
      (state_of m t = MCSOS_THREAD_NEW \<or> state_of m t = MCSOS_THREAD_BLOCKED)")
    case True
    then obtain m1 where m1: "mcsos_sched_enqueue sp t m = (MCSOS_SCHED_OK, m1)"
      "sched_inv sp (xs @ [t]) m1" "current_of sp m1 = current_of sp m"
      and fr: "queue_frame sp ((state_of m)(t := MCSOS_THREAD_READY)) m m1"
      using enqueue_inv [OF inv] by metis
    then show ?thesis
      using res queue_frameD(2) [OF fr] unfolding stays_def by auto
  next
    case False
    then have "m' = m"
      using ok res by (auto simp: mcsos_sched_enqueue_def split: if_splits)
    then show ?thesis
      using inv unfolding stays_def by (auto intro: exI [of _ "[]"])
  qed
  then show "stays sp xs m m'" "th_context (threads m' u) = th_context (threads m u)"
    by auto
qed

lemma tick_keeps:
  assumes inv: "sched_inv sp xs m"
  shows "sched_inv sp xs (snd (mcsos_sched_tick sp m))"
    and "current_of sp (snd (mcsos_sched_tick sp m)) = current_of sp m"
proof -
  let ?m = "snd (mcsos_sched_tick sp m)"
  have t: "next_of ?m t = next_of m t" "state_of ?m t = state_of m t"
      "th_magic (threads ?m t) = th_magic (threads m t)" for t
    by (simp_all add: mcsos_sched_tick_def Let_def)
  then have v: "valid_thread_object ?m t = valid_thread_object m t" for t
    by (simp add: valid_thread_object_def)
  have s: "sc_current (scheds ?m sp) = sc_current (scheds m sp)"
    "sc_idle (scheds ?m sp) = sc_idle (scheds m sp)"
    by (simp_all add: mcsos_sched_tick_def Let_def)
  have "queue_rep sp xs ?m"
    by (rule queue_rep_cong [of sp xs m])
      (use inv in \<open>auto simp: t sched_inv_def mcsos_sched_tick_def Let_def\<close>)
  with inv show "sched_inv sp xs ?m" "current_of sp ?m = current_of sp m"
    by (simp_all add: sched_inv_def t v s)
qed

lemma prepare_cases:
  obtains (refused) rc where "mcsos_thread_prepare t name entry arg base sz tid m = (rc, m)"
      "rc \<noteq> MCSOS_SCHED_OK"
  | (prepared) top th where "mcsos_thread_prepare t name entry arg base sz tid m =
        (MCSOS_SCHED_OK, upd_thread t (\<lambda>_. th) (m\<lparr>stack_words := (stack_words m)(top := 0)\<rparr>))"
      "th_magic th = MCSOS_THREAD_MAGIC" "th_state th = MCSOS_THREAD_NEW"
  unfolding mcsos_thread_prepare_def Let_def
  by (cases "t = 0 \<or> entry = 0 \<or> base = 0"; cases "sz < MCSOS_MIN_KERNEL_STACK";
      cases "base + sz \<le> base";
      cases "align_down_uintptr (base + sz) MCSOS_STACK_ALIGN \<le> base + 128") auto

lemma prepare_keeps:
  assumes inv: "sched_inv sp xs m"
    and ok: "call_allowed (Prepare t name entry arg base sz tid) m"
  shows "sched_inv sp xs (snd (mcsos_thread_prepare t name entry arg base sz tid m))"
    and "current_of sp (snd (mcsos_thread_prepare t name entry arg base sz tid m)) = current_of sp m"
proof -
  have out: "t \<notin> set xs" "t \<noteq> current_of sp m" "t \<noteq> idle_of sp m"
    using ok inv sched_inv_ready [OF inv] sched_inv_running [OF inv] by auto
  have "sched_inv sp xs (snd (mcsos_thread_prepare t name entry arg base sz tid m)) \<and>
    current_of sp (snd (mcsos_thread_prepare t name entry arg base sz tid m)) = current_of sp m"
  proof (cases t name entry arg base sz tid m rule: prepare_cases)
    case (prepared top th)
    let ?m = "upd_thread t (\<lambda>_. th) (m\<lparr>stack_words := (stack_words m)(top := 0)\<rparr>)"
    have "queue_rep sp xs ?m"
      by (rule queue_rep_cong [of sp xs m]) (use inv out in \<open>auto simp: sched_inv_def\<close>)
    then show ?thesis
      using inv out prepared unfolding sched_inv_def valid_thread_object_def by auto
  qed (simp add: inv)
  then show "sched_inv sp xs (snd (mcsos_thread_prepare t name entry arg base sz tid m))"
    "current_of sp (snd (mcsos_thread_prepare t name entry arg base sz tid m)) = current_of sp m"
    by auto
qed

lemma yield_keeps:
  assumes inv: "sched_inv sp xs m"
  obtains m' n ys where "mcsos_sched_yield sp m = (MCSOS_SCHED_OK, m')"
    and "yield_spec (idle_of sp m) (current_of sp m) xs = (n, ys)" and "sched_inv sp ys m'"
    and "current_of sp m' = n" and "idle_of sp m' = idle_of sp m"
    and "switched (current_of sp m) n m m'"
proof -
  obtain n ys where y: "yield_spec (idle_of sp m) (current_of sp m) xs = (n, ys)"
    by fastforce
  have "yield_target sp xs m = (n, ys)"
    using y inv_yield_pre [OF inv] by (simp add: yield_target_def)
  then show ?thesis
    using yield_core [of sp xs m n ys] inv_yield_pre [OF inv] that y by auto
qed

lemma block_keeps:
  assumes inv: "sched_inv sp xs m" and cur: "current_of sp m \<noteq> idle_of sp m"
  obtains m' n ys where "mcsos_thread_block_current sp m = (MCSOS_SCHED_OK, m')"
    and "block_spec (idle_of sp m) xs = (n, ys)" and "sched_inv sp ys m'"
    and "current_of sp m' = n" and "idle_of sp m' = idle_of sp m"
    and "switched (current_of sp m) n m m'"
    and "state_of m' (current_of sp m) = MCSOS_THREAD_BLOCKED"
proof -
  let ?m = "upd_thread (current_of sp m) (\<lambda>th. th\<lparr>th_state := MCSOS_THREAD_BLOCKED\<rparr>) m"
  have v: "valid_thread_object ?m t = valid_thread_object m t" for t
    by (simp add: valid_thread_object_def)
  have c: "current_of sp m \<notin> set xs" "valid_thread_object m (current_of sp m)"
    using sched_inv_running [OF inv] by auto
  obtain n ys where b: "block_spec (idle_of sp m) xs = (n, ys)"
    by fastforce
  have "queue_rep sp xs ?m"
    by (rule queue_rep_cong [of sp xs m]) (use inv in \<open>auto simp: sched_inv_def\<close>)
  then have pre: "yield_pre sp xs ?m"
    using inv c cur unfolding yield_pre_def sched_inv_def v by auto
  have tgt: "yield_target sp xs ?m = (n, ys)"
    using b by (simp add: yield_target_def)
  have res: "mcsos_thread_block_current sp m = mcsos_sched_yield sp ?m"
    using sched_inv_init [OF inv] c cur by (simp add: mcsos_thread_block_current_def)
  have sw: "switched (current_of sp m) n ?m m' \<Longrightarrow> switched (current_of sp m) n m m'" for m'
    by (auto simp: switched_def upd_thread_def split: if_splits)
  show ?thesis
    by (rule yield_core [OF pre tgt]) (use cur res b sw that in auto)
qed

text \<open>Every allowed call either stays or switches, and what it does to the saved contexts.\<close>

lemma exec_step:
  assumes inv: "sched_inv sp xs m" and ok: "call_allowed c m"
    and res: "sched_exec sp c m = (rc, m')"
  obtains (stay) "stays sp xs m m'" "c \<noteq> Yield"
      "\<And>u. (\<forall>n e a b s i. c \<noteq> Prepare u n e a b s i) \<Longrightarrow>
        th_context (threads m' u) = th_context (threads m u)"
  | (switch) n ys where "sched_inv sp ys m'" "current_of sp m' = n"
      "switched (current_of sp m) n m m'"
      "(n, ys) = yield_spec (idle_of sp m) (current_of sp m) xs \<or>
       (n, ys) = block_spec (idle_of sp m) xs"
proof (cases c)
  case Yield
  show ?thesis
    by (rule yield_keeps [OF inv], rule switch) (use Yield res in auto)
next
  case Tick
  then have m': "m' = snd (mcsos_sched_tick sp m)"
    using res by simp
  show ?thesis
    by (rule stay)
      (use tick_keeps [OF inv] Tick in
        \<open>auto simp: m' mcsos_sched_tick_def Let_def intro: stays_same split: if_splits\<close>)
next
  case Block_current
  show ?thesis
  proof (cases "current_of sp m = idle_of sp m")
    case True
    then have "m' = m"
      using res Block_current by (auto simp: mcsos_thread_block_current_def split: if_splits)
    with inv Block_current show ?thesis
      by (intro stay) (auto intro: stays_same)
  next
    case False
    show ?thesis
      by (rule block_keeps [OF inv False], rule switch) (use Block_current res in auto)
  qed
next
  case (Mark_ready t)
  show ?thesis
  proof (cases "valid_thread_object m t \<and> state_of m t = MCSOS_THREAD_BLOCKED")
    case True
    then have "mcsos_sched_enqueue sp t m = (rc, m')" "call_allowed (Enqueue t) m"
      using res Mark_ready by (auto simp: mcsos_thread_mark_ready_def)
    from enqueue_keeps [OF inv this(2,1)] show ?thesis
      by (intro stay) (simp_all add: Mark_ready)
  next
    case False
    then have "m' = m"
      using res Mark_ready by (auto simp: mcsos_thread_mark_ready_def split: if_splits)
    with inv Mark_ready show ?thesis
      by (intro stay) (auto intro: stays_same)
  qed
next
  case (Enqueue t)
  then have "mcsos_sched_enqueue sp t m = (rc, m')" "call_allowed (Enqueue t) m"
    using res ok by simp_all
  from enqueue_keeps [OF inv this(2,1)] show ?thesis
    by (intro stay) (simp_all add: Enqueue)
next
  case (Prepare t name entry arg base sz tid)
  then have m': "m' = snd (mcsos_thread_prepare t name entry arg base sz tid m)"
    using res by simp
  have "th_context (threads m' u) = th_context (threads m u)" if "u \<noteq> t" for u
    using m' that by (cases t name entry arg base sz tid m rule: prepare_cases) auto
  then show ?thesis
    using prepare_keeps [OF inv] ok Prepare m'
    by (intro stay) (auto intro!: stays_same)
next
  case (Compute regs)
  then have m': "m' = m\<lparr>cpu := regs\<rparr>"
    using res by simp
  have "queue_rep sp xs m'"
    by (rule queue_rep_cong [of sp xs m]) (use inv m' in \<open>auto simp: sched_inv_def\<close>)
  then have "sched_inv sp xs m'"
    using inv m' by (simp add: sched_inv_def valid_thread_object_def)
  with Compute m' show ?thesis
    by (intro stay) (auto intro: stays_same)
qed

lemma exec_position:
  assumes inv: "sched_inv sp (as @ t # bs) m" and ok: "call_allowed c m"
  obtains (running) ys where "sched_inv sp ys (snd (sched_exec sp c m))"
      "current_of sp (snd (sched_exec sp c m)) = t"
  | (waiting) as' bs' where "sched_inv sp (as' @ t # bs') (snd (sched_exec sp c m))"
      "length as' \<le> length as" "c = Yield \<Longrightarrow> length as' < length as"
proof -
  obtain rc m' where e: "sched_exec sp c m = (rc, m')"
    by fastforce
  show ?thesis
  proof (rule exec_step [OF inv ok e], goal_cases)
    case 1
    then show ?case
      using waiting e unfolding stays_def by auto
  next
    case (2 n ys)
    then show ?case
      using running waiting e by (cases as) (auto split: if_splits)
  qed
qed

lemma exec_keeps:
  assumes inv: "sched_inv sp xs m" and ok: "call_allowed c m"
  obtains ys where "sched_inv sp ys (snd (sched_exec sp c m))"
proof -
  obtain rc m' where e: "sched_exec sp c m = (rc, m')"
    by fastforce
  show ?thesis
    by (rule exec_step [OF inv ok e]) (use that e in \<open>auto simp: stays_def\<close>)
qed

end
