(* ===== verification/Sched_Correct.thy ===== *)
theory Sched_Correct
  imports Sched
begin

text \<open>
  Correctness of the scheduler: the FIFO contract of the ready queue, safety of call sequences,
  round-robin fairness, preservation of thread contexts across switches, the queue check, the
  initial stack of a thread, and what goes wrong when a READY thread is enqueued twice.
\<close>

section \<open>The ready queue as a FIFO\<close>

text \<open>Taking \<open>n\<close> elements from a queue, in the order they come out.\<close>

primrec drain :: "('s \<Rightarrow> 'a \<times> 's) \<Rightarrow> nat \<Rightarrow> 's \<Rightarrow> 'a list \<times> 's" where
  "drain deq 0 s = ([], s)"
| "drain deq (Suc n) s = (let (x, s') = deq s; (xs, s'') = drain deq n s' in (x # xs, s''))"

locale fifo_queue =
  fixes rep :: "'a list \<Rightarrow> 's \<Rightarrow> bool" and addable :: "'a \<Rightarrow> 's \<Rightarrow> bool"
    and enq :: "'a \<Rightarrow> 's \<Rightarrow> 's" and deq :: "'s \<Rightarrow> 'a \<times> 's"
  assumes enq_rep: "rep xs s \<Longrightarrow> addable x s \<Longrightarrow> x \<notin> set xs \<Longrightarrow> rep (xs @ [x]) (enq x s)"
    and enq_addable: "rep xs s \<Longrightarrow> addable x s \<Longrightarrow> x \<notin> set xs \<Longrightarrow> addable y s \<Longrightarrow>
      addable y (enq x s)"
    and deq_rep: "rep (x # xs) s \<Longrightarrow> fst (deq s) = x \<and> rep xs (snd (deq s))"
begin

lemma enq_all:
  assumes "rep xs s" and "distinct (xs @ ys)" and "\<And>y. y \<in> set ys \<Longrightarrow> addable y s"
  shows "rep (xs @ ys) (fold enq ys s)"
  using assms
proof (induction ys arbitrary: xs s)
  case (Cons y ys)
  have "rep (xs @ [y]) (enq y s)"
    using Cons.prems by (intro enq_rep) auto
  moreover have "addable z (enq y s)" if "z \<in> set ys" for z
    using Cons.prems that by (intro enq_addable) auto
  ultimately have "rep ((xs @ [y]) @ ys) (fold enq ys (enq y s))"
    using Cons.prems(2) by (intro Cons.IH) auto
  then show ?case
    by simp
qed simp

lemma drain_rep:
  "rep (xs @ ys) s \<Longrightarrow> \<exists>s'. drain deq (length xs) s = (xs, s') \<and> rep ys s'"
proof (induction xs arbitrary: s)
  case (Cons x xs)
  then have "fst (deq s) = x" and "rep (xs @ ys) (snd (deq s))"
    using deq_rep [of x "xs @ ys" s] by simp_all
  then show ?case
    using Cons.IH [of "snd (deq s)"] by (auto simp: split_beta Let_def)
qed simp

lemma fifo:
  assumes "rep xs s" and "distinct (xs @ ys)" and "\<And>y. y \<in> set ys \<Longrightarrow> addable y s"
  shows "fst (drain deq (length xs + length ys) (fold enq ys s)) = xs @ ys"
  using drain_rep [of "xs @ ys" "[]" "fold enq ys s"] enq_all [OF assms] by auto

end

definition enqueueable :: "u64 \<Rightarrow> sched_mem \<Rightarrow> bool" where
  "enqueueable t m \<longleftrightarrow> valid_thread_object m t \<and>
     state_of m t \<noteq> MCSOS_THREAD_RUNNING \<and> state_of m t \<noteq> MCSOS_THREAD_ZOMBIE"

interpretation ready_queue: fifo_queue "queue_rep sp" enqueueable
  "\<lambda>t m. snd (mcsos_sched_enqueue sp t m)" "mcsos_sched_pick_next sp" for sp
proof
  fix xs m x y
  assume a: "queue_rep sp xs m" "enqueueable x m" "x \<notin> set xs"
  then obtain m' where e: "mcsos_sched_enqueue sp x m = (MCSOS_SCHED_OK, m')"
      "queue_rep sp (xs @ [x]) m'"
    and fr: "queue_frame sp ((state_of m)(x := MCSOS_THREAD_READY)) m m'"
    using enqueue_spec unfolding enqueueable_def by blast
  then show "queue_rep sp (xs @ [x]) (snd (mcsos_sched_enqueue sp x m))"
    by simp
  assume "enqueueable y m"
  then show "enqueueable y (snd (mcsos_sched_enqueue sp x m))"
    using e queue_frameD [OF fr] by (simp add: enqueueable_def)
next
  fix x xs m
  assume "queue_rep sp (x # xs) m"
  then show "fst (mcsos_sched_pick_next sp m) = x \<and>
    queue_rep sp xs (snd (mcsos_sched_pick_next sp m))"
    using pick_next_spec by (metis fst_conv snd_conv)
qed

section \<open>Walking the queue\<close>

lemma ready_count_links:
  "links (next_of m) c ys 0 \<Longrightarrow> ready_count_loop m c k = Some (k + of_nat (length ys))"
proof (induction ys arbitrary: c k)
  case (Cons y ys)
  then show ?case
    by (subst ready_count_loop.simps) (simp add: add.assoc)
qed (simp add: ready_count_loop.simps)

lemma ready_count_sound:
  assumes "ready_count_loop m c k = Some r"
  shows "\<exists>ys. links (next_of m) c ys 0"
proof (rule ready_count_loop.raw_induct [where P = "\<lambda>m c k r. \<exists>ys. links (next_of m) c ys 0",
      OF _ assms], goal_cases)
  case (1 loop m c k r)
  show ?case
  proof (cases "c = 0")
    case True
    then show ?thesis
      by (auto intro: exI [of _ "[]"])
  next
    case False
    then obtain ys where "links (next_of m) (next_of m c) ys 0"
      using 1(1) [of m "next_of m c" "k + 1" r] 1(2) by auto
    then have "links (next_of m) c (c # ys) 0"
      using False by simp
    then show ?thesis
      by blast
  qed
qed

abbreviation queued_ok :: "sched_mem \<Rightarrow> mcsos_scheduler \<Rightarrow> u64 \<Rightarrow> bool" where
  "queued_ok m s t \<equiv> valid_thread_object m t \<and> state_of m t = MCSOS_THREAD_READY \<and> t \<noteq> sc_current s"

lemma validate_loop_sound:
  assumes "sched_validate_loop m s c l k = Some r"
  shows "r = MCSOS_SCHED_OK \<longrightarrow>
    (\<exists>ys. links (next_of m) c ys 0 \<and> list_all (queued_ok m s) ys \<and>
       last (l # ys) = sc_ready_tail s \<and> k + of_nat (length ys) = sc_runnable_count s)"
proof (rule sched_validate_loop.raw_induct [where P = "\<lambda>m s c l k r. r = MCSOS_SCHED_OK \<longrightarrow>
     (\<exists>ys. links (next_of m) c ys 0 \<and> list_all (queued_ok m s) ys \<and>
       last (l # ys) = sc_ready_tail s \<and> k + of_nat (length ys) = sc_runnable_count s)",
     OF _ assms], goal_cases)
  case (1 loop m s c l k r)
  show ?case
  proof (cases "c = 0")
    case True
    with 1(2) show ?thesis
      by (auto intro!: exI [of _ "[]"] split: if_splits)
  next
    case False
    show ?thesis
    proof
      assume r: "r = MCSOS_SCHED_OK"
      with False 1(2) have ok: "queued_ok m s c" "loop m s (next_of m c) c (k + 1) = Some r"
        by (auto split: if_splits)
      obtain ys where "links (next_of m) (next_of m c) ys 0" "list_all (queued_ok m s) ys"
        "last (c # ys) = sc_ready_tail s" "k + 1 + of_nat (length ys) = sc_runnable_count s"
        using 1(1) [OF ok(2)] r by blast
      then show "\<exists>ys. links (next_of m) c ys 0 \<and> list_all (queued_ok m s) ys \<and>
         last (l # ys) = sc_ready_tail s \<and> k + of_nat (length ys) = sc_runnable_count s"
        using False ok(1) by (intro exI [of _ "c # ys"]) (simp add: add.assoc)
    qed
  qed
qed

lemma validate_loop_complete:
  assumes "links (next_of m) c ys 0" and "list_all (queued_ok m s) ys"
    and "last (l # ys) = sc_ready_tail s" and "sc_runnable_count s = of_nat (j + length ys)"
    and "j + length ys + 1 < 2 ^ 64"
  shows "sched_validate_loop m s c l (of_nat j) = Some MCSOS_SCHED_OK"
  using assms
proof (induction ys arbitrary: c l j)
  case Nil
  then show ?case
    by (simp add: sched_validate_loop.simps)
next
  case (Cons y ys)
  have "unat (of_nat (j + 1) :: u64) = j + 1"
    by (rule unat_of_nat_small) (use Cons.prems(5) in simp)
  moreover have "unat (of_nat (j + length (y # ys) + 1) :: u64) = j + length (y # ys) + 1"
    by (rule unat_of_nat_small) (use Cons.prems(5) in simp)
  moreover have "sc_runnable_count s + 1 = of_nat (j + length (y # ys) + 1)"
    unfolding Cons.prems(4) by simp
  moreover have "of_nat j + 1 = (of_nat (j + 1) :: u64)"
    by simp
  ultimately have "\<not> sc_runnable_count s + 1 < of_nat j + 1"
    unfolding word_less_nat_alt by (metis add_le_mono1 le_add1 not_le)
  moreover have "sched_validate_loop m s (next_of m c) c (of_nat (Suc j)) = Some MCSOS_SCHED_OK"
    using Cons.prems by (intro Cons.IH) auto
  ultimately show ?case
    using Cons.prems(1,2) by (subst sched_validate_loop.simps) (simp add: add.commute)
qed

lemma validate_loop_returns:
  assumes "k \<le> sc_runnable_count s + 1" and "unat (sc_runnable_count s) + 2 < 2 ^ 64"
  shows "\<exists>r. sched_validate_loop m s c l k = Some r"
  using assms(1)
proof (induction "unat (sc_runnable_count s + 1) - unat k" arbitrary: c l k rule: less_induct)
  case less
  have bound: "unat (sc_runnable_count s + 1) = unat (sc_runnable_count s) + 1"
    using assms(2) by (simp add: unat_add_nowrap)
  have "unat (k + 1) = unat k + 1"
    using less.prems assms(2) by (simp add: unat_add_nowrap word_le_nat_alt bound)
  then have "\<exists>r. sched_validate_loop m s (next_of m c) c (k + 1) = Some r"
    if "\<not> sc_runnable_count s + 1 < k + 1"
    using less.hyps [of "k + 1"] that by (auto simp: word_less_nat_alt word_le_nat_alt)
  then show ?case
    by (subst sched_validate_loop.simps) auto
qed

lemma inv_length:
  assumes inv: "sched_inv sp xs m"
  shows "length xs + 1 < 2 ^ 64"
proof -
  have c: "current_of sp m \<notin> set xs" "current_of sp m \<noteq> 0"
    using sched_inv_running [OF inv, of "current_of sp m"] by (auto simp: valid_thread_object_def)
  have rep: "queue_rep sp xs m"
    using inv by (simp add: sched_inv_def)
  have "length (current_of sp m # xs) < 2 ^ 64"
    by (rule length_distinct_u64)
      (use c queue_rep_distinct [OF rep] queue_rep_null [OF rep] in auto)
  then show ?thesis
    by simp
qed

lemma inv_validate:
  assumes inv: "sched_inv sp xs m"
  shows "mcsos_sched_validate sp m = Some MCSOS_SCHED_OK"
proof -
  have rep: "queue_rep sp xs m"
    using inv by (simp add: sched_inv_def)
  have "list_all (queued_ok m (scheds m sp)) xs"
    using sched_inv_ready [OF inv] sched_inv_running [OF inv] by (auto simp: list_all_iff)
  then have "sched_validate_loop m (scheds m sp) (sc_ready_head (scheds m sp)) 0 (of_nat 0) =
      Some MCSOS_SCHED_OK"
    using rep inv_length [OF inv]
    by (intro validate_loop_complete [of _ _ xs]) (auto simp: queue_rep_def)
  then show ?thesis
    using sched_inv_init [OF inv] sched_inv_running [OF inv] by (simp add: mcsos_sched_validate_def)
qed

lemma inv_ready_count:
  "sched_inv sp xs m \<Longrightarrow> mcsos_sched_ready_count sp m = Some (of_nat (length xs))"
  unfolding sched_inv_def queue_rep_def mcsos_sched_ready_count_def
  using ready_count_links [of m _ xs 0] by auto

section \<open>Call sequences\<close>

lemma init_inv:
  assumes "sp \<noteq> 0" and "boot \<noteq> 0" and "\<forall>t. t \<noteq> boot \<longrightarrow> \<not> valid_thread_object m t"
  shows "fst (mcsos_scheduler_init sp boot m) = MCSOS_SCHED_OK"
    and "sched_inv sp [] (snd (mcsos_scheduler_init sp boot m))"
  using assms
  by (auto simp: mcsos_scheduler_init_def Let_def sched_inv_def queue_rep_def valid_thread_object_def)

lemma run_inv:
  "sched_inv sp xs m \<Longrightarrow> calls_allowed sp cs m \<Longrightarrow> \<exists>ys. sched_inv sp ys (sched_run sp cs m)"
proof (induction cs arbitrary: xs m)
  case (Cons c cs)
  then obtain ys where "sched_inv sp ys (snd (sched_exec sp c m))"
    using exec_keeps [of sp xs m c] by auto
  with Cons show ?case
    by auto
qed auto

text \<open>A first memory: no thread object is valid yet.\<close>

definition blank_thread :: mcsos_thread where
  "blank_thread = \<lparr>th_magic = 0, th_id = 0, th_name = [], th_state = MCSOS_THREAD_NEW,
     th_context = zero_context, th_entry = 0, th_arg = 0, th_stack_base = 0, th_stack_size = 0,
     th_next = 0, th_switches = 0, th_ticks = 0, th_exit_code = 0\<rparr>"

definition blank_sched :: mcsos_scheduler where
  "blank_sched = \<lparr>sc_current = 0, sc_idle = 0, sc_ready_head = 0, sc_ready_tail = 0, sc_next_id = 0,
     sc_runnable_count = 0, sc_context_switches = 0, sc_ticks = 0, sc_initialized = 0\<rparr>"

definition blank_mem :: sched_mem where
  "blank_mem = \<lparr>threads = \<lambda>_. blank_thread, scheds = \<lambda>_. blank_sched, stack_words = \<lambda>_. 0,
     g_active_sched = 0, cpu = zero_context, trampoline_addr = 0x1000, switch_label = 0x2000\<rparr>"

definition boot_mem :: sched_mem where
  "boot_mem = snd (mcsos_scheduler_init 16 32 blank_mem)"

definition demo_calls :: "sched_call list" where
  "demo_calls = [Prepare 48 ''a'' 0x3000 0 0x8000 4096 1, Enqueue 48,
     Prepare 64 ''b'' 0x3100 0 0xA000 8192 2, Enqueue 64]"

definition demo_mem :: sched_mem where
  "demo_mem = sched_run 16 demo_calls boot_mem"

lemma blank_mem_invalid: "\<not> valid_thread_object blank_mem t"
  by (simp add: valid_thread_object_def blank_mem_def blank_thread_def MCSOS_THREAD_MAGIC_def)

lemma boot_mem_inv: "sched_inv 16 [] boot_mem"
  unfolding boot_mem_def by (rule init_inv) (simp_all add: blank_mem_invalid)

lemmas sched_eval =
  boot_mem_def blank_mem_def blank_thread_def blank_sched_def demo_calls_def zero_context_def
  mcsos_scheduler_init_def mcsos_thread_prepare_def mcsos_sched_enqueue_def mcsos_sched_yield_def
  mcsos_sched_pick_next_def mcsos_thread_block_current_def mcsos_thread_mark_ready_def
  mcsos_sched_tick_def yield_switch_def mcsos_context_switch_def upd_thread_def upd_sched_def
  valid_thread_object_def align_down_uintptr_def MCSOS_THREAD_MAGIC_def MCSOS_STACK_ALIGN_def
  MCSOS_MIN_KERNEL_STACK_def

lemma demo_allowed: "calls_allowed 16 demo_calls boot_mem"
  by (simp add: sched_eval Let_def)

lemma demo_inv: "sched_inv 16 [48, 64] demo_mem"
  unfolding demo_mem_def sched_inv_def queue_rep_def
  by (auto simp: sched_eval Let_def)

text \<open>
  Property C16. Starting from \<^verbatim>\<open>mcsos_scheduler_init\<close>, every sequence of calls that keeps the caller's
  contract leaves a well-formed scheduler: the ready list is a proper linked list of exactly the
  READY threads, only the current and the idle thread are RUNNING, \<^verbatim>\<open>mcsos_sched_validate\<close> returns
  OK and \<^verbatim>\<open>mcsos_sched_ready_count\<close> returns the length of the list.
\<close>

theorem sched_calls_safe:
  assumes "sp \<noteq> 0" and "boot \<noteq> 0" and "\<forall>t. t \<noteq> boot \<longrightarrow> \<not> valid_thread_object m t"
    and "calls_allowed sp cs (snd (mcsos_scheduler_init sp boot m))"
  shows "\<exists>xs. let m' = sched_run sp cs (snd (mcsos_scheduler_init sp boot m)) in
    sched_inv sp xs m' \<and> mcsos_sched_validate sp m' = Some MCSOS_SCHED_OK \<and>
    mcsos_sched_ready_count sp m' = Some (of_nat (length xs))"
  unfolding Let_def
  using run_inv [OF init_inv(2) [OF assms(1-3)] assms(4)] inv_validate inv_ready_count by blast

theorem sched_calls_safe_witness:
  "calls_allowed 16 (demo_calls @ [Yield, Tick, Block_current, Mark_ready 48, Yield])
     (snd (mcsos_scheduler_init 16 32 blank_mem)) \<and>
   (\<exists>xs. sched_inv 16 xs (sched_run 16 (demo_calls @ [Yield, Tick, Block_current, Mark_ready 48, Yield])
     (snd (mcsos_scheduler_init 16 32 blank_mem))))"
proof -
  have ok: "calls_allowed 16 (demo_calls @ [Yield, Tick, Block_current, Mark_ready 48, Yield])
     (snd (mcsos_scheduler_init 16 32 blank_mem))"
    by (simp add: sched_eval Let_def)
  show ?thesis
    using sched_calls_safe [OF _ _ _ ok] ok blank_mem_invalid unfolding Let_def by auto
qed

text \<open>
  Property C25. A yield is one round-robin step on the ready list: the thread at the head runs next;
  the yielding thread goes to the tail unless it is the idle thread; the idle thread runs only when
  the list is empty. The call returns OK, and the registers are saved and loaded accordingly.
\<close>

theorem sched_yield_round_robin:
  assumes "sched_inv sp xs m"
    and "yield_spec (idle_of sp m) (current_of sp m) xs = (nxt, ys)"
  shows "\<exists>m'. mcsos_sched_yield sp m = (MCSOS_SCHED_OK, m') \<and> sched_inv sp ys m' \<and>
    current_of sp m' = nxt \<and> idle_of sp m' = idle_of sp m \<and> switched (current_of sp m) nxt m m'"
  using assms by (auto intro: yield_keeps [OF assms(1)])

theorem sched_yield_round_robin_witness:
  "\<exists>m'. mcsos_sched_yield 16 demo_mem = (MCSOS_SCHED_OK, m') \<and> sched_inv 16 [64] m' \<and>
    current_of 16 m' = 48"
proof -
  have "idle_of 16 demo_mem = 32 \<and> current_of 16 demo_mem = 32"
    by (simp add: demo_mem_def sched_eval Let_def)
  then show ?thesis
    using sched_yield_round_robin [OF demo_inv, of 48 "[64]"] by auto
qed

text \<open>
  Property C6. Fairness: a thread at position \<open>k\<close> of the ready list of a well-formed scheduler runs after at most
  \<open>k + 1\<close> yields, whatever other calls (ticks, blocking, wake-ups, enqueues, thread creation) come
  between, as long as they keep the caller contract \<open>calls_allowed\<close>: no READY thread is enqueued again, and no
  READY or RUNNING thread is prepared again. The code does not check the contract.
\<close>

theorem sched_fair:
  assumes "sched_inv sp (as @ t # bs) m" and "calls_allowed sp cs m"
    and "length as < length (filter (\<lambda>c. c = Yield) cs)"
  shows "\<exists>n \<le> length cs. current_of sp (sched_run sp (take n cs) m) = t"
  using assms
proof (induction cs arbitrary: as bs m)
  case (Cons c cs)
  let ?m = "snd (sched_exec sp c m)"
  have ok: "call_allowed c m"
    using Cons.prems(2) by simp
  show ?case
  proof (rule exec_position [OF Cons.prems(1) ok])
    assume "current_of sp ?m = t"
    then show ?thesis
      by (intro exI [of _ 1]) simp
  next
    fix as' bs'
    assume w: "sched_inv sp (as' @ t # bs') ?m" "length as' \<le> length as"
      "c = Yield \<Longrightarrow> length as' < length as"
    have "\<exists>n \<le> length cs. current_of sp (sched_run sp (take n cs) ?m) = t"
      using Cons.prems(2,3) w by (intro Cons.IH [OF w(1)]) (auto split: if_splits)
    then obtain n where "n \<le> length cs" "current_of sp (sched_run sp (take n cs) ?m) = t"
      by blast
    then show ?thesis
      by (intro exI [of _ "Suc n"]) simp
  qed
qed simp

theorem sched_fair_witness:
  "\<exists>n \<le> 3. current_of 16 (sched_run 16 (take n [Yield, Tick, Yield]) demo_mem) = 64"
proof -
  have "calls_allowed 16 [Yield, Tick, Yield] demo_mem"
    by simp
  then show ?thesis
    using sched_fair [of 16 "[48]" 64 "[]" demo_mem "[Yield, Tick, Yield]"] demo_inv
    by (simp add: numeral_3_eq_3)
qed

section \<open>Contexts\<close>

text \<open>
  \<open>away sp a cs m\<close>: while the calls \<open>cs\<close> run from \<open>m\<close>, thread \<open>a\<close> is never the one that runs and
  is not prepared anew.
\<close>

primrec away :: "u64 \<Rightarrow> u64 \<Rightarrow> sched_call list \<Rightarrow> sched_mem \<Rightarrow> bool" where
  "away sp a [] m \<longleftrightarrow> True"
| "away sp a (c # cs) m \<longleftrightarrow> current_of sp m \<noteq> a \<and>
     (case c of Prepare t _ _ _ _ _ _ \<Rightarrow> t \<noteq> a | _ \<Rightarrow> True) \<and> away sp a cs (snd (sched_exec sp c m))"

lemma away_context:
  assumes "sched_inv sp xs m" and "calls_allowed sp cs m" and "away sp a cs m"
    and "current_of sp m \<noteq> a" and "current_of sp (sched_run sp cs m) = a"
  shows "cpu (sched_run sp cs m) = th_context (threads m a)"
  using assms
proof (induction cs arbitrary: xs m)
  case (Cons c cs)
  obtain rc m' where e: "sched_exec sp c m = (rc, m')"
    by fastforce
  have ok: "call_allowed c m" "calls_allowed sp cs m'" "away sp a cs m'"
    and c: "\<forall>n e a' b s i. c \<noteq> Prepare a n e a' b s i"
    using Cons.prems(2,3) e by auto
  show ?case
  proof (rule exec_step [OF Cons.prems(1) ok(1) e])
    assume s: "stays sp xs m m'" and ctx: "\<And>u. (\<forall>n e a b s i. c \<noteq> Prepare u n e a b s i) \<Longrightarrow>
        th_context (threads m' u) = th_context (threads m u)"
    then obtain ys where "sched_inv sp ys m'" "current_of sp m' \<noteq> a"
      using Cons.prems(4) by (auto simp: stays_def)
    then show ?thesis
      using Cons.IH [of ys m'] ok Cons.prems(5) e ctx c by simp
  next
    fix n ys
    assume w: "sched_inv sp ys m'" "current_of sp m' = n" "switched (current_of sp m) n m m'"
    show ?thesis
    proof (cases "n = a")
      case True
      then have "cs = []"
        using ok(3) w(2) by (cases cs) auto
      then show ?thesis
        using w True Cons.prems(4) e by (simp add: switched_def)
    next
      case False
      moreover have "th_context (threads m' a) = th_context (threads m a)"
        using w(3) Cons.prems(4) by (auto simp: switched_def split: if_splits)
      ultimately show ?thesis
        using Cons.IH [of ys m'] ok w Cons.prems(5) e by simp
    qed
  qed
qed simp

text \<open>
  Property C24. A thread that yields the processor finds its registers unchanged when it runs again:
  whatever the other threads compute and call in the meantime, the switch back loads exactly the
  stack pointer and callee-saved registers it had when it yielded, and continues at the return
  label of the context switch.
\<close>

theorem sched_context_restored:
  assumes "sched_inv sp xs m" and "mcsos_sched_yield sp m = (rc, m1)"
    and "current_of sp m1 \<noteq> current_of sp m"
    and "calls_allowed sp cs m1" and "away sp (current_of sp m) cs m1"
    and "current_of sp (sched_run sp cs m1) = current_of sp m"
  shows "cpu (sched_run sp cs m1) = (cpu m)\<lparr>rip := switch_label m\<rparr>"
proof -
  obtain ys where ys: "sched_inv sp ys m1" "switched (current_of sp m) (current_of sp m1) m m1"
    by (rule yield_keeps [OF assms(1)]) (use assms(2) in auto)
  have "cpu (sched_run sp cs m1) = th_context (threads m1 (current_of sp m))"
    using away_context [OF ys(1) assms(4,5,3,6)] .
  then show ?thesis
    using ys(2) assms(3) by (simp add: switched_def)
qed

theorem sched_context_restored_witness:
  "cpu (sched_run 16 [Compute (zero_context\<lparr>rbx := 1\<rparr>), Block_current, Compute zero_context, Block_current]
      (snd (mcsos_sched_yield 16 (demo_mem\<lparr>cpu := zero_context\<lparr>rsp := 77, rbx := 5\<rparr>\<rparr>)))) =
    zero_context\<lparr>rsp := 77, rbx := 5, rip := 0x2000\<rparr>"
proof -
  let ?m = "demo_mem\<lparr>cpu := zero_context\<lparr>rsp := 77, rbx := 5\<rparr>\<rparr>"
  let ?cs = "[Compute (zero_context\<lparr>rbx := 1\<rparr>), Block_current, Compute zero_context, Block_current]"
  let ?m1 = "snd (mcsos_sched_yield 16 ?m)"
  have inv: "sched_inv 16 [48, 64] ?m"
    using demo_inv by (simp add: sched_inv_def queue_rep_def valid_thread_object_def)
  have y: "mcsos_sched_yield 16 ?m = (fst (mcsos_sched_yield 16 ?m), ?m1)"
    by simp
  have c: "current_of 16 ?m = 32" "current_of 16 ?m1 \<noteq> current_of 16 ?m"
    "switch_label ?m = 0x2000"
    by (simp_all add: demo_mem_def sched_eval Let_def)
  have cs: "calls_allowed 16 ?cs ?m1" "away 16 (current_of 16 ?m) ?cs ?m1"
    "current_of 16 (sched_run 16 ?cs ?m1) = current_of 16 ?m"
    by (simp_all add: demo_mem_def sched_eval Let_def)
  show ?thesis
    using sched_context_restored [OF inv y c(2) cs] c by simp
qed

section \<open>The queue check and the contract\<close>

text \<open>
  Property C26. If the runnable count is not one of the last two 64-bit values, \<^verbatim>\<open>mcsos_sched_validate\<close> returns
  for every memory, corrupted queues and cycles included; and it returns
  OK exactly when the scheduler is initialised, the current thread is valid and the queue is a
  proper list of valid READY threads, other than the current one, that agrees with tail and count.
\<close>

theorem sched_validate_decides:
  assumes "unat (sc_runnable_count (scheds m sp)) + 2 < 2 ^ 64"
  shows "(\<exists>r. mcsos_sched_validate sp m = Some r) \<and>
    (mcsos_sched_validate sp m = Some MCSOS_SCHED_OK \<longleftrightarrow>
      valid_thread_object m (current_of sp m) \<and>
      (\<exists>xs. queue_rep sp xs m \<and> (\<forall>t \<in> set xs. valid_thread_object m t \<and>
         state_of m t = MCSOS_THREAD_READY \<and> t \<noteq> current_of sp m)))"
proof -
  let ?s = "scheds m sp"
  let ?ok = "sp \<noteq> 0 \<and> sc_initialized ?s \<noteq> 0 \<and> valid_thread_object m (current_of sp m)"
  have ret: "\<exists>r. sched_validate_loop m ?s (sc_ready_head ?s) 0 0 = Some r"
    by (rule validate_loop_returns [OF _ assms]) simp
  have "?ok \<and> (\<exists>xs. queue_rep sp xs m \<and> list_all (queued_ok m ?s) xs)"
    if "mcsos_sched_validate sp m = Some MCSOS_SCHED_OK"
  proof -
    have ok: ?ok
      using that by (auto simp: mcsos_sched_validate_def split: if_splits)
    then have "sched_validate_loop m ?s (sc_ready_head ?s) 0 0 = Some MCSOS_SCHED_OK"
      using that by (simp add: mcsos_sched_validate_def)
    from validate_loop_sound [OF this] obtain ys where
      "links (next_of m) (sc_ready_head ?s) ys 0" "list_all (queued_ok m ?s) ys"
      "last (0 # ys) = sc_ready_tail ?s" "of_nat (length ys) = sc_runnable_count ?s"
      by auto
    then have "queue_rep sp ys m \<and> list_all (queued_ok m ?s) ys"
      using ok unfolding queue_rep_def by (auto split: if_splits)
    then show ?thesis
      using ok by blast
  qed
  moreover have "mcsos_sched_validate sp m = Some MCSOS_SCHED_OK"
    if "valid_thread_object m (current_of sp m)" "queue_rep sp xs m" "list_all (queued_ok m ?s) xs" for xs
  proof -
    have "unat (of_nat (length xs) :: u64) = length xs"
      by (rule unat_of_nat_small) (use queue_rep_length [OF that(2)] in simp)
    moreover have "sc_runnable_count ?s = of_nat (length xs)"
      using that(2) unfolding queue_rep_def by blast
    ultimately have "unat (sc_runnable_count ?s) = length xs"
      by (simp only:)
    then have "length xs + 1 < 2 ^ 64"
      using assms by linarith
    then have "sched_validate_loop m ?s (sc_ready_head ?s) 0 (of_nat 0) = Some MCSOS_SCHED_OK"
      using that(2,3) by (intro validate_loop_complete [of _ _ xs]) (auto simp: queue_rep_def)
    then show ?thesis
      using that by (simp add: mcsos_sched_validate_def queue_rep_def)
  qed
  moreover have "\<exists>r. mcsos_sched_validate sp m = Some r"
    using ret by (simp add: mcsos_sched_validate_def)
  ultimately show ?thesis
    unfolding list_all_iff by metis
qed

theorem sched_validate_decides_witness:
  "mcsos_sched_validate 16 demo_mem = Some MCSOS_SCHED_OK"
proof -
  have count: "unat (sc_runnable_count (scheds demo_mem 16)) + 2 < 2 ^ 64"
    by (simp add: demo_mem_def sched_eval Let_def)
  have "valid_thread_object demo_mem (current_of 16 demo_mem)" and rep: "queue_rep 16 [48, 64] demo_mem"
    using demo_inv sched_inv_running [OF demo_inv, of "current_of 16 demo_mem"]
    by (simp_all add: sched_inv_def)
  moreover have "\<forall>t \<in> set [48, 64]. valid_thread_object demo_mem t \<and>
       state_of demo_mem t = MCSOS_THREAD_READY \<and> t \<noteq> current_of 16 demo_mem"
    using sched_inv_running [OF demo_inv] sched_inv_ready [OF demo_inv] by metis
  ultimately show ?thesis
    by (intro iffD2 [OF conjunct2 [OF sched_validate_decides [OF count]]] conjI exI [of _ "[48, 64]"])
qed

lemma links_into_loop:
  assumes "nx t = t" and "t \<noteq> 0"
  shows "links nx p xs t \<Longrightarrow> \<not> links nx p ys 0"
proof (induction xs arbitrary: p ys)
  case Nil
  moreover have "\<not> links nx t ys 0"
    using assms by (induction ys) auto
  ultimately show ?case
    by simp
next
  case (Cons x xs)
  then show ?case
    by (cases ys) auto
qed

text \<open>
  Property C28. \<^verbatim>\<open>mcsos_sched_enqueue\<close> accepts a thread that is READY and already queued. Enqueueing the
  last queued thread a second time returns OK and links it to itself; from then on
  \<^verbatim>\<open>mcsos_sched_ready_count\<close> never returns.
\<close>

theorem sched_double_enqueue:
  assumes "sched_inv sp (xs @ [t]) m"
  shows "\<exists>m'. mcsos_sched_enqueue sp t m = (MCSOS_SCHED_OK, m') \<and>
    th_next (threads m' t) = t \<and> mcsos_sched_ready_count sp m' = None"
proof -
  have rep: "queue_rep sp (xs @ [t]) m"
    using assms by (simp add: sched_inv_def)
  have t: "valid_thread_object m t" "state_of m t = MCSOS_THREAD_READY" "t \<noteq> 0" "t \<notin> set xs"
    using sched_inv_ready [OF assms, of t] queue_rep_distinct [OF rep]
    by (auto simp: valid_thread_object_def)
  define m' where "m' = snd (mcsos_sched_enqueue sp t m)"
  have res: "mcsos_sched_enqueue sp t m = (MCSOS_SCHED_OK, m')"
    and nx: "next_of m' = (next_of m)(t := t)"
    and hd: "sc_ready_head (scheds m' sp) = sc_ready_head (scheds m sp)"
    and init: "sp \<noteq> 0" "sc_initialized (scheds m' sp) \<noteq> 0"
    using rep t by (auto simp: m'_def queue_rep_def mcsos_sched_enqueue_def Let_def)
  have "links (next_of m') (sc_ready_head (scheds m' sp)) xs t"
    using rep t(4) by (simp add: queue_rep_def links_snoc nx hd)
  then have "\<not> links (next_of m') (sc_ready_head (scheds m' sp)) ys 0" for ys
    using links_into_loop [OF _ t(3)] fun_cong [OF nx, of t] by simp
  then have "ready_count_loop m' (sc_ready_head (scheds m' sp)) 0 = None"
    using ready_count_sound by (cases "ready_count_loop m' (sc_ready_head (scheds m' sp)) 0") blast+
  then show ?thesis
    using res init fun_cong [OF nx, of t] by (auto simp: mcsos_sched_ready_count_def)
qed

theorem sched_double_enqueue_witness:
  "\<exists>m'. mcsos_sched_enqueue 16 64 demo_mem = (MCSOS_SCHED_OK, m') \<and>
    mcsos_sched_ready_count 16 m' = None"
  using sched_double_enqueue [of 16 "[48]" 64 demo_mem] demo_inv by auto

lemma unat_stack_top: "unat (align_down_uintptr a MCSOS_STACK_ALIGN) = unat a div 16 * 16"
  using unat_and_not_mask [of a 4]
  by (simp add: align_down_uintptr_def MCSOS_STACK_ALIGN_def mask_eq_decr_exp)

lemma word_add_wrap_le:
  assumes "\<not> unat a + unat b < 2 ^ LENGTH('a)"
  shows "(a :: 'a::len word) + b \<le> a"
proof -
  have "unat a < 2 ^ LENGTH('a)" "unat b < 2 ^ LENGTH('a)"
    by (rule unsigned_less)+
  then have "unat a + unat b - 2 ^ LENGTH('a) \<le> unat a"
    by linarith
  moreover have "(unat a + unat b) mod 2 ^ LENGTH('a) = (unat a + unat b - 2 ^ LENGTH('a)) mod 2 ^ LENGTH('a)"
    using assms by (intro le_mod_geq) simp
  ultimately have "(unat a + unat b) mod 2 ^ LENGTH('a) \<le> unat a"
    using mod_less_eq_dividend order_trans by metis
  then show ?thesis
    by (simp only: word_le_nat_alt unat_word_ariths)
qed

lemma stack_top_arith:
  fixes b s t :: nat
  assumes "4096 \<le> s" and "t = (b + s) div 16 * 16"
  shows "b + 128 < t" and "8 \<le> t" and "(t - 8) mod 16 = 8" and "b < t - 8" and "t - 8 + 8 \<le> b + s"
proof -
  have "b + s = t + (b + s) mod 16" "(b + s) mod 16 < 16"
    unfolding assms(2) by (simp_all only: div_mult_mod_eq mod_less_divisor zero_less_numeral)
  then show t: "b + 128 < t" "8 \<le> t" "b < t - 8" "t - 8 + 8 \<le> b + s"
    using assms(1) by linarith+
  obtain q where "t = Suc q * 16"
    using t(2) assms(2) by (cases "(b + s) div 16") auto
  then have "t - 8 = q * 16 + 8"
    by simp
  then show "(t - 8) mod 16 = 8"
    by (simp only: mod_mult_self3) simp
qed

text \<open>
  Property C27. \<^verbatim>\<open>mcsos_thread_prepare\<close>: when it returns OK, the initial stack pointer lies inside the
  stack with room for the zero word it points at, is 8 modulo 16 as the ABI requires at a
  function's first instruction, and the thread starts in the trampoline; when it does not, nothing
  is changed. A non-NULL stack of at least the minimum size that does not run past the end of the
  address space is always accepted.
\<close>

theorem thread_prepare_stack:
  assumes "t \<noteq> 0" and "entry \<noteq> 0" and "base \<noteq> 0"
  shows "if 4096 \<le> unat sz \<and> unat base + unat sz < 2 ^ 64
    then \<exists>m'. mcsos_thread_prepare t name entry arg base sz tid m = (MCSOS_SCHED_OK, m') \<and>
      (let sp = rsp (th_context (threads m' t)) in
        unat sp mod 16 = 8 \<and> unat base < unat sp \<and> unat sp + 8 \<le> unat base + unat sz \<and>
        stack_words m' sp = 0 \<and> rip (th_context (threads m' t)) = trampoline_addr m)
    else mcsos_thread_prepare t name entry arg base sz tid m = (MCSOS_SCHED_ESTACK, m)"
proof (cases "4096 \<le> unat sz \<and> unat base + unat sz < 2 ^ 64")
  case True
  let ?top = "align_down_uintptr (base + sz) MCSOS_STACK_ALIGN"
  have high: "unat (base + sz) = unat base + unat sz"
    by (rule unat_add_nowrap) (use True in simp)
  have top: "unat ?top = (unat base + unat sz) div 16 * 16"
    unfolding unat_stack_top high ..
  note t = stack_top_arith [OF conjunct1 [OF True] top]
  have low: "unat (base + 128) = unat base + 128"
    by (subst unat_add_nowrap) (use True in simp_all)
  have "\<not> sz < 4096" "\<not> base + sz \<le> base" "\<not> ?top \<le> base + 128"
    unfolding word_less_nat_alt word_le_nat_alt high low using True t(1) by simp_all
  moreover have "unat (?top - 8) = unat ?top - 8"
    by (subst unat_sub) (use t(2) in \<open>simp_all add: word_le_nat_alt\<close>)
  then have "unat (?top - 8) mod 16 = 8" "unat base < unat (?top - 8)"
    "unat (?top - 8) + 8 \<le> unat base + unat sz"
    using t(3-5) by simp_all
  ultimately show ?thesis
    using assms
    by (simp only: True mcsos_thread_prepare_def MCSOS_MIN_KERNEL_STACK_def zero_context_def
        upd_thread_def Let_def if_True if_False simp_thms) simp
next
  case False
  have "base + sz \<le> base" if "\<not> unat base + unat sz < 2 ^ 64"
    by (rule word_add_wrap_le) (use that in simp)
  then have "sz < 4096 \<or> base + sz \<le> base"
    using False by (auto simp: word_less_nat_alt)
  then show ?thesis
    unfolding if_not_P [OF False] using assms
    by (auto simp: mcsos_thread_prepare_def MCSOS_MIN_KERNEL_STACK_def Let_def)
qed

theorem thread_prepare_stack_witness:
  "\<exists>m'. mcsos_thread_prepare 48 ''a'' 0x3000 0 0x8000 4096 1 blank_mem = (MCSOS_SCHED_OK, m') \<and>
    unat (rsp (th_context (threads m' 48))) mod 16 = 8"
  using thread_prepare_stack [where t = 48 and entry = 12288 and base = 32768 and sz = 4096
      and name = "''a''" and arg = 0 and tid = 1 and m = blank_mem]
  by (auto simp: Let_def)

text \<open>
  The ready queue is first-in first-out: distinct enqueueable threads come out of
  \<^verbatim>\<open>mcsos_sched_pick_next\<close> in the order in which they were queued, after those already there.
\<close>

theorem sched_queue_fifo:
  assumes "queue_rep sp xs m" and "distinct (xs @ ys)"
    and "\<And>y. y \<in> set ys \<Longrightarrow> enqueueable y m"
  shows "fst (drain (mcsos_sched_pick_next sp) (length xs + length ys)
    (fold (\<lambda>t m. snd (mcsos_sched_enqueue sp t m)) ys m)) = xs @ ys"
  using ready_queue.fifo [OF assms(1,2)] assms(3) by blast

theorem sched_queue_fifo_witness:
  "fst (drain (mcsos_sched_pick_next 16) 3 (fold (\<lambda>t m. snd (mcsos_sched_enqueue 16 t m)) [80]
     (snd (mcsos_thread_prepare 80 ''c'' 0x3000 0 0x8000 4096 1 demo_mem)))) = [48, 64, 80]"
proof -
  let ?m = "snd (mcsos_thread_prepare 80 ''c'' 0x3000 0 0x8000 4096 1 demo_mem)"
  have "\<not> valid_thread_object demo_mem 80"
    by (simp add: demo_mem_def sched_eval Let_def)
  then have "queue_rep 16 [48, 64] ?m"
    using prepare_keeps(1) [OF demo_inv] by (simp add: sched_inv_def)
  moreover have "enqueueable 80 ?m"
    by (simp add: enqueueable_def demo_mem_def sched_eval Let_def)
  ultimately show ?thesis
    using sched_queue_fifo [of 16 "[48, 64]" ?m "[80]"] by (simp add: numeral_3_eq_3)
qed

end
