(* ===== verification/Sync.thy ===== *)
theory Sync
  imports Prelude
begin

text \<open>
  Synchronisation: \<^verbatim>\<open>src/kernel/sync/lockdep.c\<close>, \<^verbatim>\<open>spinlock.c\<close>, \<^verbatim>\<open>mutex.c\<close> and
  \<^verbatim>\<open>src/include/mcs_sync.h\<close>. The calls are first given as functions on the lock objects, as one
  processor executes them undisturbed. The locks are then given once more as step relations, one
  step per atomic access, so that calls of any number of threads interleave; a call run alone
  through its steps is the function.
\<close>

section \<open>Lock objects and results\<close>

datatype mcs_sync_result =
    MCS_SYNC_OK | MCS_SYNC_EINVAL | MCS_SYNC_EBUSY | MCS_SYNC_EPERM
  | MCS_SYNC_EDEADLK | MCS_SYNC_EOVERFLOW

definition MCS_LOCKDEP_MAX_HELD :: nat where "MCS_LOCKDEP_MAX_HELD = 16"

record mcs_lockdep_state =
  held_class :: "u32 list"
  held_name :: "string option list"
  ld_depth :: u32
  violation_count :: u32

record mcs_spinlock =
  spin_locked :: u32
  spin_class_id :: u32
  spin_name :: string

record mcs_mutex =
  mutex_locked :: u32
  mutex_owner :: u64
  mutex_class_id :: u32
  mutex_name :: string

section \<open>Lock order checking\<close>

definition mcs_lockdep_init :: "mcs_lockdep_state option \<Rightarrow> mcs_lockdep_state option" where
  "mcs_lockdep_init state = (case state of None \<Rightarrow> None | Some s \<Rightarrow> Some
     (s\<lparr>held_class := replicate MCS_LOCKDEP_MAX_HELD 0,
        held_name := replicate MCS_LOCKDEP_MAX_HELD None, ld_depth := 0, violation_count := 0\<rparr>))"

definition mcs_lockdep_is_held :: "mcs_lockdep_state option \<Rightarrow> u32 \<Rightarrow> bool" where
  "mcs_lockdep_is_held state class_id = (case state of None \<Rightarrow> False | Some s \<Rightarrow>
     class_id \<noteq> 0 \<and>
     list_ex (\<lambda>i. held_class s ! i = class_id) [0..<min (unat (ld_depth s)) MCS_LOCKDEP_MAX_HELD])"

definition violation :: "mcs_lockdep_state \<Rightarrow> mcs_lockdep_state" where
  "violation s = s\<lparr>violation_count := violation_count s + 1\<rparr>"

definition mcs_lockdep_before_acquire ::
  "mcs_lockdep_state option \<Rightarrow> u32 \<Rightarrow> string \<Rightarrow> mcs_sync_result \<times> mcs_lockdep_state option" where
  "mcs_lockdep_before_acquire state class_id name = (case state of
     None \<Rightarrow> (MCS_SYNC_EINVAL, None)
   | Some s \<Rightarrow>
       if class_id = 0 then (MCS_SYNC_EINVAL, Some s)
       else if unat (ld_depth s) \<ge> MCS_LOCKDEP_MAX_HELD then (MCS_SYNC_EOVERFLOW, Some (violation s))
       else if list_ex (\<lambda>i. held_class s ! i = class_id) [0..<unat (ld_depth s)]
       then (MCS_SYNC_EDEADLK, Some (violation s))
       else if ld_depth s > 0 \<and> class_id < held_class s ! unat (ld_depth s - 1)
       then (MCS_SYNC_EDEADLK, Some (violation s))
       else (MCS_SYNC_OK, Some
         (s\<lparr>held_class := (held_class s)[unat (ld_depth s) := class_id],
            held_name := (held_name s)[unat (ld_depth s) := Some name],
            ld_depth := ld_depth s + 1\<rparr>)))"

definition mcs_lockdep_after_release ::
  "mcs_lockdep_state option \<Rightarrow> u32 \<Rightarrow> string \<Rightarrow> mcs_sync_result \<times> mcs_lockdep_state option" where
  "mcs_lockdep_after_release state class_id name = (case state of
     None \<Rightarrow> (MCS_SYNC_EINVAL, None)
   | Some s \<Rightarrow>
       if class_id = 0 then (MCS_SYNC_EINVAL, Some s)
       else if ld_depth s = 0 then (MCS_SYNC_EPERM, Some (violation s))
       else
         let index = unat (ld_depth s - 1) in
         if held_class s ! index \<noteq> class_id then (MCS_SYNC_EDEADLK, Some (violation s))
         else (MCS_SYNC_OK, Some
           (s\<lparr>held_class := (held_class s)[index := 0], held_name := (held_name s)[index := None],
              ld_depth := ld_depth s - 1\<rparr>)))"

section \<open>Spinlocks and mutexes, one call at a time\<close>

definition mcs_spin_init :: "mcs_spinlock option \<Rightarrow> u32 \<Rightarrow> string \<Rightarrow> mcs_spinlock option" where
  "mcs_spin_init lock class_id name = (case lock of None \<Rightarrow> None | Some l \<Rightarrow>
     Some (l\<lparr>spin_locked := 0, spin_class_id := class_id, spin_name := name\<rparr>))"

definition mcs_spin_try_lock :: "mcs_spinlock option \<Rightarrow> bool \<times> mcs_spinlock option" where
  "mcs_spin_try_lock lock = (case lock of None \<Rightarrow> (False, None) | Some l \<Rightarrow>
     (spin_locked l = 0, Some (l\<lparr>spin_locked := 1\<rparr>)))"

definition mcs_spin_unlock :: "mcs_spinlock option \<Rightarrow> mcs_spinlock option" where
  "mcs_spin_unlock lock = (case lock of None \<Rightarrow> None | Some l \<Rightarrow> Some (l\<lparr>spin_locked := 0\<rparr>))"

definition mcs_spin_is_locked :: "mcs_spinlock option \<Rightarrow> bool" where
  "mcs_spin_is_locked lock = (case lock of None \<Rightarrow> False | Some l \<Rightarrow> spin_locked l \<noteq> 0)"

definition mcs_mutex_init :: "mcs_mutex option \<Rightarrow> u32 \<Rightarrow> string \<Rightarrow> mcs_mutex option" where
  "mcs_mutex_init mutex class_id name = (case mutex of None \<Rightarrow> None | Some m \<Rightarrow>
     Some (m\<lparr>mutex_locked := 0, mutex_owner := 0, mutex_class_id := class_id, mutex_name := name\<rparr>))"

definition mcs_mutex_try_lock :: "mcs_mutex option \<Rightarrow> u64 \<Rightarrow> mcs_sync_result \<times> mcs_mutex option" where
  "mcs_mutex_try_lock mutex owner_id = (case mutex of None \<Rightarrow> (MCS_SYNC_EINVAL, None) | Some m \<Rightarrow>
     if owner_id = 0 then (MCS_SYNC_EINVAL, Some m)
     else if mutex_locked m \<noteq> 0 then
       (if mutex_owner m = owner_id then MCS_SYNC_EDEADLK else MCS_SYNC_EBUSY, Some m)
     else (MCS_SYNC_OK, Some (m\<lparr>mutex_locked := 1, mutex_owner := owner_id\<rparr>)))"

definition mcs_mutex_unlock :: "mcs_mutex option \<Rightarrow> u64 \<Rightarrow> mcs_sync_result \<times> mcs_mutex option" where
  "mcs_mutex_unlock mutex owner_id = (case mutex of None \<Rightarrow> (MCS_SYNC_EINVAL, None) | Some m \<Rightarrow>
     if owner_id = 0 then (MCS_SYNC_EINVAL, Some m)
     else if mutex_owner m \<noteq> owner_id then (MCS_SYNC_EPERM, Some m)
     else (MCS_SYNC_OK, Some (m\<lparr>mutex_owner := 0, mutex_locked := 0\<rparr>)))"

definition mcs_mutex_is_locked :: "mcs_mutex option \<Rightarrow> bool" where
  "mcs_mutex_is_locked mutex = (case mutex of None \<Rightarrow> False | Some m \<Rightarrow> mutex_locked m \<noteq> 0)"

definition mcs_mutex_owner :: "mcs_mutex option \<Rightarrow> u64" where
  "mcs_mutex_owner mutex = (case mutex of None \<Rightarrow> 0 | Some m \<Rightarrow> mutex_owner m)"

section \<open>Interleavings\<close>

text \<open>
  A spinlock used by threads \<open>'p\<close>. \<open>Spin_try\<close> is before the exchange of \<^verbatim>\<open>mcs_spin_try_lock\<close>,
  \<open>Spin_wait\<close> in the inner loop of \<^verbatim>\<open>mcs_spin_lock\<close>, \<open>Spin_in\<close> between lock and unlock.
\<close>

datatype spin_pc = Spin_out | Spin_try | Spin_wait | Spin_in

record 'p spin_sys =
  spin_lock :: mcs_spinlock
  spin_pc_of :: "'p \<Rightarrow> spin_pc"

inductive mcs_spin_lock_step :: "'p spin_sys \<Rightarrow> 'p spin_sys \<Rightarrow> bool" where
  spin_call: "spin_pc_of s p = Spin_out \<Longrightarrow>
    mcs_spin_lock_step s (s\<lparr>spin_pc_of := (spin_pc_of s)(p := Spin_try)\<rparr>)"
| spin_try: "spin_pc_of s p = Spin_try \<Longrightarrow>
    mcs_spin_try_lock (Some (spin_lock s)) = (ok, Some l) \<Longrightarrow>
    mcs_spin_lock_step s (s\<lparr>spin_lock := l,
      spin_pc_of := (spin_pc_of s)(p := if ok then Spin_in else Spin_wait)\<rparr>)"
| spin_wait: "spin_pc_of s p = Spin_wait \<Longrightarrow> \<not> mcs_spin_is_locked (Some (spin_lock s)) \<Longrightarrow>
    mcs_spin_lock_step s (s\<lparr>spin_pc_of := (spin_pc_of s)(p := Spin_try)\<rparr>)"
| spin_leave: "spin_pc_of s p = Spin_in \<Longrightarrow> mcs_spin_unlock (Some (spin_lock s)) = Some l \<Longrightarrow>
    mcs_spin_lock_step s (s\<lparr>spin_lock := l, spin_pc_of := (spin_pc_of s)(p := Spin_out)\<rparr>)"

text \<open>
  A mutex used by threads named by their owner ids. One step is one atomic access of
  \<^verbatim>\<open>mcs_mutex_try_lock\<close> (\<open>M_cas\<close>, then \<open>M_own\<close> or \<open>M_fail\<close>) or of \<^verbatim>\<open>mcs_mutex_unlock\<close> (\<open>U_load\<close>,
  \<open>U_clear\<close>, \<open>U_free\<close>). \<open>holds\<close> records who holds the mutex: from the successful exchange to the
  store that frees it. \<open>returned\<close> is the last result a thread got.
  The accesses are interleaved, that is sequentially consistent: the weaker orders that the source asks for
  (relaxed, acquire, release) are not represented. \<open>mutex_step p\<close> is a step of the thread \<open>p\<close>.
\<close>

datatype mutex_pc = M_ready | M_cas | M_fail | M_own | U_load | U_clear | U_free

record mutex_sys =
  the_mutex :: mcs_mutex
  mutex_pc_of :: "u64 \<Rightarrow> mutex_pc"
  holds :: "u64 \<Rightarrow> bool"
  returned :: "u64 \<Rightarrow> mcs_sync_result"

abbreviation at_pc :: "u64 \<Rightarrow> mutex_pc \<Rightarrow> mutex_sys \<Rightarrow> mutex_sys" where
  "at_pc p c s \<equiv> s\<lparr>mutex_pc_of := (mutex_pc_of s)(p := c)\<rparr>"

definition mutex_return :: "u64 \<Rightarrow> mcs_sync_result \<Rightarrow> mutex_sys \<Rightarrow> mutex_sys" where
  "mutex_return p rc s =
    s\<lparr>mutex_pc_of := (mutex_pc_of s)(p := M_ready), returned := (returned s)(p := rc)\<rparr>"

inductive mutex_step :: "u64 \<Rightarrow> mutex_sys \<Rightarrow> mutex_sys \<Rightarrow> bool" where
  lock_call: "mutex_pc_of s p = M_ready \<Longrightarrow> p \<noteq> 0 \<Longrightarrow> mutex_step p s (at_pc p M_cas s)"
| cas_fails: "mutex_pc_of s p = M_cas \<Longrightarrow> mutex_locked (the_mutex s) \<noteq> 0 \<Longrightarrow>
    mutex_step p s (at_pc p M_fail s)"
| cas_succeeds: "mutex_pc_of s p = M_cas \<Longrightarrow> mutex_locked (the_mutex s) = 0 \<Longrightarrow>
    mutex_step p s (at_pc p M_own
      (s\<lparr>the_mutex := (the_mutex s)\<lparr>mutex_locked := 1\<rparr>, holds := (holds s)(p := True)\<rparr>))"
| lock_fails: "mutex_pc_of s p = M_fail \<Longrightarrow>
    mutex_step p s (mutex_return p
      (if mutex_owner (the_mutex s) = p then MCS_SYNC_EDEADLK else MCS_SYNC_EBUSY) s)"
| lock_owns: "mutex_pc_of s p = M_own \<Longrightarrow>
    mutex_step p s (mutex_return p MCS_SYNC_OK
      (s\<lparr>the_mutex := (the_mutex s)\<lparr>mutex_owner := p\<rparr>\<rparr>))"
| unlock_call: "mutex_pc_of s p = M_ready \<Longrightarrow> p \<noteq> 0 \<Longrightarrow> mutex_step p s (at_pc p U_load s)"
| unlock_fails: "mutex_pc_of s p = U_load \<Longrightarrow> mutex_owner (the_mutex s) \<noteq> p \<Longrightarrow>
    mutex_step p s (mutex_return p MCS_SYNC_EPERM s)"
| unlock_loads: "mutex_pc_of s p = U_load \<Longrightarrow> mutex_owner (the_mutex s) = p \<Longrightarrow>
    mutex_step p s (at_pc p U_clear s)"
| unlock_clears: "mutex_pc_of s p = U_clear \<Longrightarrow>
    mutex_step p s (at_pc p U_free (s\<lparr>the_mutex := (the_mutex s)\<lparr>mutex_owner := 0\<rparr>\<rparr>))"
| unlock_frees: "mutex_pc_of s p = U_free \<Longrightarrow>
    mutex_step p s (mutex_return p MCS_SYNC_OK
      (s\<lparr>the_mutex := (the_mutex s)\<lparr>mutex_locked := 0\<rparr>, holds := (holds s)(p := False)\<rparr>))"

text \<open>A step of any thread; and a step of any thread while a call of \<open>p\<close> is running.\<close>

definition mutex_any :: "mutex_sys \<Rightarrow> mutex_sys \<Rightarrow> bool" where
  "mutex_any s s' \<longleftrightarrow> (\<exists>q. mutex_step q s s')"

definition mutex_during :: "u64 \<Rightarrow> mutex_sys \<Rightarrow> mutex_sys \<Rightarrow> bool" where
  "mutex_during p s s' \<longleftrightarrow> mutex_pc_of s p \<noteq> M_ready \<and> mutex_any s s'"

text \<open>A step of \<open>p\<close> alone while its call is running.\<close>

definition mutex_alone :: "u64 \<Rightarrow> mutex_sys \<Rightarrow> mutex_sys \<Rightarrow> bool" where
  "mutex_alone p s s' \<longleftrightarrow> mutex_pc_of s p \<noteq> M_ready \<and> mutex_step p s s'"

text \<open>
  Threads \<open>'p\<close> that take locks in the way the lock order check prescribes: each thread has its own
  lockdep state, asks before it acquires a lock of a class, then waits until the lock is free.
  There is one lock per class.
\<close>

record 'p lock_sys =
  lockdep_of :: "'p \<Rightarrow> mcs_lockdep_state"
  waiting :: "'p \<Rightarrow> bool"
  lock_owner :: "u32 \<Rightarrow> 'p option"

section \<open>The held stack\<close>

definition held :: "mcs_lockdep_state \<Rightarrow> u32 list" where
  "held s = take (unat (ld_depth s)) (held_class s)"

definition lockdep_wf :: "mcs_lockdep_state \<Rightarrow> bool" where
  "lockdep_wf s \<longleftrightarrow> length (held_class s) = MCS_LOCKDEP_MAX_HELD \<and>
     length (held_name s) = MCS_LOCKDEP_MAX_HELD \<and>
     unat (ld_depth s) \<le> MCS_LOCKDEP_MAX_HELD \<and>
     sorted_wrt (<) (held s) \<and> 0 \<notin> set (held s)"

lemma held_violation [simp]: "held (violation s) = held s" "lockdep_wf (violation s) = lockdep_wf s"
  by (simp_all add: violation_def held_def lockdep_wf_def)

lemma length_held: "lockdep_wf s \<Longrightarrow> length (held s) = unat (ld_depth s)"
  by (simp add: held_def lockdep_wf_def)

lemma held_ex:
  assumes "lockdep_wf s"
  shows "list_ex (\<lambda>i. held_class s ! i = c) [0..<unat (ld_depth s)] \<longleftrightarrow> c \<in> set (held s)"
proof -
  have "c \<in> set (held s) \<longleftrightarrow> (\<exists>i<unat (ld_depth s). held_class s ! i = c)"
    using assms by (auto simp: held_def lockdep_wf_def in_set_conv_nth)
  then show ?thesis
    by (auto simp: list_ex_iff)
qed

lemma depth_minus_1: "ld_depth s \<noteq> 0 \<Longrightarrow> unat (ld_depth s - 1) = unat (ld_depth s) - 1"
  by (simp add: unat_minus_one)

lemma held_last:
  assumes "lockdep_wf s" and "ld_depth s \<noteq> 0"
  shows "held_class s ! unat (ld_depth s - 1) = last (held s)"
proof -
  have "0 < unat (ld_depth s)"
    using assms(2) by (simp add: unat_gt_0)
  moreover from this have "held s \<noteq> []"
    using length_held [OF assms(1)] by auto
  ultimately show ?thesis
    using length_held [OF assms(1)] assms(2)
    by (simp add: last_conv_nth depth_minus_1 held_def)
qed

lemma held_empty: "lockdep_wf s \<Longrightarrow> held s = [] \<longleftrightarrow> ld_depth s = 0"
  using length_held [of s] by (auto simp: unat_eq_0 [symmetric])

lemma above_last:
  assumes "sorted_wrt (<) (xs :: u32 list)" and "xs \<noteq> []" and "last xs < c" and "x \<in> set xs"
  shows "x < c"
proof -
  obtain ys y where "xs = ys @ [y]"
    using assms(2) by (cases xs rule: rev_cases) auto
  then show ?thesis
    using assms by (auto simp: sorted_wrt_append)
qed

lemma before_acquire_ok:
  assumes wf: "lockdep_wf s" and c: "c \<noteq> 0"
    and room: "length (held s) < MCS_LOCKDEP_MAX_HELD" and above: "\<forall>h \<in> set (held s). h < c"
  obtains s' where "mcs_lockdep_before_acquire (Some s) c name = (MCS_SYNC_OK, Some s')"
    and "lockdep_wf s'" and "held s' = held s @ [c]"
proof -
  let ?d = "unat (ld_depth s)"
  define s' where "s' = s\<lparr>held_class := (held_class s)[?d := c],
    held_name := (held_name s)[?d := Some name], ld_depth := ld_depth s + 1\<rparr>"
  have d: "?d < 16" "length (held_class s) = 16"
    using wf room length_held [OF wf] by (simp_all add: lockdep_wf_def MCS_LOCKDEP_MAX_HELD_def)
  then have d': "unat (ld_depth s + 1) = ?d + 1"
    by (simp add: unat_add_nowrap)
  have held': "held s' = held s @ [c]"
    using d d' by (simp add: s'_def held_def take_Suc_conv_app_nth)
  have "lockdep_wf s'"
    using wf d d' held' c above
    by (simp add: lockdep_wf_def s'_def sorted_wrt_append MCS_LOCKDEP_MAX_HELD_def)
  moreover have "\<not> c < held_class s ! unat (ld_depth s - 1)" if "ld_depth s \<noteq> 0"
    using that above held_last [OF wf] held_empty [OF wf] by (metis last_in_set not_less_iff_gr_or_eq)
  then have "mcs_lockdep_before_acquire (Some s) c name = (MCS_SYNC_OK, Some s')"
    using c d above held_ex [OF wf, of c]
    by (auto simp: mcs_lockdep_before_acquire_def MCS_LOCKDEP_MAX_HELD_def s'_def)
  ultimately show ?thesis
    using that held' by blast
qed

lemma before_acquire_refused:
  assumes wf: "lockdep_wf s"
    and bad: "c = 0 \<or> MCS_LOCKDEP_MAX_HELD \<le> length (held s) \<or> (\<exists>h \<in> set (held s). c \<le> h)"
  shows "fst (mcs_lockdep_before_acquire (Some s) c name) \<noteq> MCS_SYNC_OK"
    and "snd (mcs_lockdep_before_acquire (Some s) c name) \<in> {Some s, Some (violation s)}"
proof -
  have "c \<in> set (held s) \<or> c < last (held s) \<and> held s \<noteq> []" if "h \<in> set (held s)" "c \<le> h" for h
  proof (rule ccontr)
    assume n: "\<not> ?thesis"
    then have "last (held s) < c"
      using that by (metis empty_iff empty_set last_in_set linorder_neqE)
    then have "h < c"
      using above_last [of "held s" c h] wf that(1) by (cases "held s") (auto simp: lockdep_wf_def)
    with that show False
      by simp
  qed
  then consider "c = 0" | "MCS_LOCKDEP_MAX_HELD \<le> unat (ld_depth s)" | "c \<in> set (held s)"
    | "c < last (held s)" "ld_depth s \<noteq> 0"
    using bad length_held [OF wf] held_empty [OF wf] by auto
  then show "fst (mcs_lockdep_before_acquire (Some s) c name) \<noteq> MCS_SYNC_OK"
      "snd (mcs_lockdep_before_acquire (Some s) c name) \<in> {Some s, Some (violation s)}"
    using held_ex [OF wf, of c] held_last [OF wf]
    by (cases; simp add: mcs_lockdep_before_acquire_def word_neq_0_conv)+
qed

lemma after_release_ok:
  assumes wf: "lockdep_wf s" and c: "held s \<noteq> []" "last (held s) = c"
  obtains s' where "mcs_lockdep_after_release (Some s) c name = (MCS_SYNC_OK, Some s')"
    and "lockdep_wf s'" and "held s' = butlast (held s)"
proof -
  let ?i = "unat (ld_depth s - 1)"
  define s' where "s' = s\<lparr>held_class := (held_class s)[?i := 0],
    held_name := (held_name s)[?i := None], ld_depth := ld_depth s - 1\<rparr>"
  have d0: "ld_depth s \<noteq> 0"
    using c held_empty [OF wf] by simp
  have "c \<in> set (held s)"
    using c last_in_set by blast
  then have "c \<noteq> 0"
    using wf by (auto simp: lockdep_wf_def)
  have held': "held s' = butlast (held s)"
    using wf d0 by (simp add: s'_def held_def depth_minus_1 butlast_take lockdep_wf_def)
  have "sorted_wrt (<) (butlast (held s))"
    using wf c(1) unfolding lockdep_wf_def by (metis append_butlast_last_id sorted_wrt_append)
  moreover have "0 \<notin> set (butlast (held s))"
    using wf in_set_butlastD by (fastforce simp: lockdep_wf_def)
  ultimately have "lockdep_wf s'"
    using wf d0 held' unfolding lockdep_wf_def by (auto simp: s'_def depth_minus_1)
  moreover have "mcs_lockdep_after_release (Some s) c name = (MCS_SYNC_OK, Some s')"
    using \<open>c \<noteq> 0\<close> d0 held_last [OF wf d0] c
    by (simp add: mcs_lockdep_after_release_def s'_def Let_def)
  ultimately show ?thesis
    using that held' by blast
qed

lemma after_release_refused:
  assumes wf: "lockdep_wf s" and c: "held s = [] \<or> last (held s) \<noteq> c"
  shows "fst (mcs_lockdep_after_release (Some s) c name) \<noteq> MCS_SYNC_OK"
    and "snd (mcs_lockdep_after_release (Some s) c name) \<in> {Some s, Some (violation s)}"
proof -
  have "ld_depth s = 0 \<or> held_class s ! unat (ld_depth s - 1) \<noteq> c"
    using c held_empty [OF wf] held_last [OF wf] by auto
  then show "fst (mcs_lockdep_after_release (Some s) c name) \<noteq> MCS_SYNC_OK"
      "snd (mcs_lockdep_after_release (Some s) c name) \<in> {Some s, Some (violation s)}"
    by (auto simp: mcs_lockdep_after_release_def Let_def)
qed

section \<open>Threads under the lock order check\<close>

text \<open>The class a waiting thread waits for is the last one it announced.\<close>

abbreviation wanted :: "'p lock_sys \<Rightarrow> 'p \<Rightarrow> u32" where
  "wanted s p \<equiv> last (held (lockdep_of s p))"

inductive lock_step :: "'p lock_sys \<Rightarrow> 'p lock_sys \<Rightarrow> bool" where
  announce: "\<not> waiting s p \<Longrightarrow>
    mcs_lockdep_before_acquire (Some (lockdep_of s p)) c name = (MCS_SYNC_OK, Some d) \<Longrightarrow>
    lock_step s (s\<lparr>lockdep_of := (lockdep_of s)(p := d), waiting := (waiting s)(p := True)\<rparr>)"
| announce_refused: "\<not> waiting s p \<Longrightarrow>
    mcs_lockdep_before_acquire (Some (lockdep_of s p)) c name = (rc, Some d) \<Longrightarrow> rc \<noteq> MCS_SYNC_OK \<Longrightarrow>
    lock_step s (s\<lparr>lockdep_of := (lockdep_of s)(p := d)\<rparr>)"
| acquire: "waiting s p \<Longrightarrow> lock_owner s (wanted s p) = None \<Longrightarrow>
    lock_step s (s\<lparr>waiting := (waiting s)(p := False),
      lock_owner := (lock_owner s)(wanted s p := Some p)\<rparr>)"
| release: "\<not> waiting s p \<Longrightarrow>
    mcs_lockdep_after_release (Some (lockdep_of s p)) c name = (MCS_SYNC_OK, Some d) \<Longrightarrow>
    lock_step s (s\<lparr>lockdep_of := (lockdep_of s)(p := d), lock_owner := (lock_owner s)(c := None)\<rparr>)"
| release_refused: "\<not> waiting s p \<Longrightarrow>
    mcs_lockdep_after_release (Some (lockdep_of s p)) c name = (rc, Some d) \<Longrightarrow> rc \<noteq> MCS_SYNC_OK \<Longrightarrow>
    lock_step s (s\<lparr>lockdep_of := (lockdep_of s)(p := d)\<rparr>)"

definition waits_for :: "'p lock_sys \<Rightarrow> 'p \<Rightarrow> 'p \<Rightarrow> bool" where
  "waits_for s p q \<longleftrightarrow> waiting s p \<and> lock_owner s (wanted s p) = Some q"

definition lock_start :: "'p lock_sys \<Rightarrow> bool" where
  "lock_start s \<longleftrightarrow> (\<forall>p. lockdep_wf (lockdep_of s p) \<and> held (lockdep_of s p) = [] \<and> \<not> waiting s p) \<and>
     lock_owner s = (\<lambda>_. None)"

text \<open>What a thread owns is what it announced, without the class it still waits for.\<close>

definition lock_inv :: "'p lock_sys \<Rightarrow> bool" where
  "lock_inv s \<longleftrightarrow> (\<forall>p. lockdep_wf (lockdep_of s p) \<and>
     (waiting s p \<longrightarrow> held (lockdep_of s p) \<noteq> []) \<and>
     (\<forall>c. lock_owner s c = Some p \<longleftrightarrow> c \<in> set (if waiting s p then butlast (held (lockdep_of s p))
        else held (lockdep_of s p))))"

end
