(* ===== verification/Sync_Correct.thy ===== *)
theory Sync_Correct
  imports Sync
begin

text \<open>
  Correctness of the locks: the lock order check excludes circular waiting and keeps some thread
  able to move, spinlock and mutex are exclusive under every interleaving, and the results of the
  mutex calls are exact.
\<close>

section \<open>Lock order\<close>

lemma before_acquire_OK_D:
  assumes wf: "lockdep_wf s" and ok: "mcs_lockdep_before_acquire (Some s) c name = (MCS_SYNC_OK, Some s')"
  shows "lockdep_wf s' \<and> held s' = held s @ [c] \<and> c \<noteq> 0 \<and> (\<forall>h \<in> set (held s). h < c)"
proof -
  have good: "c \<noteq> 0" "length (held s) < MCS_LOCKDEP_MAX_HELD" "\<forall>h \<in> set (held s). h < c"
    using before_acquire_refused(1) [OF wf, of c name] ok by (auto simp: not_le [symmetric])
  show ?thesis
    by (rule before_acquire_ok [OF wf good, of name]) (use ok good in auto)
qed

lemma after_release_OK_D:
  assumes wf: "lockdep_wf s" and ok: "mcs_lockdep_after_release (Some s) c name = (MCS_SYNC_OK, Some s')"
  shows "lockdep_wf s' \<and> held s = held s' @ [c]"
proof -
  have good: "held s \<noteq> []" "last (held s) = c"
    using after_release_refused(1) [OF wf, of c name] ok by auto
  then have "held s = butlast (held s) @ [c]"
    by (metis append_butlast_last_id)
  then show ?thesis
    using after_release_ok [OF wf good, of name] ok by (metis Pair_inject option.inject)
qed

lemma lockdep_error_unchanged:
  "mcs_lockdep_before_acquire (Some s) c name = (rc, Some d) \<Longrightarrow> rc \<noteq> MCS_SYNC_OK \<Longrightarrow>
     d = s \<or> d = violation s"
  "mcs_lockdep_after_release (Some s) c name = (rc, Some d) \<Longrightarrow> rc \<noteq> MCS_SYNC_OK \<Longrightarrow>
     d = s \<or> d = violation s"
  by (auto simp: mcs_lockdep_before_acquire_def mcs_lockdep_after_release_def Let_def split: if_splits)

lemma lock_inv_same_held:
  assumes "lock_inv s" and "held d = held (lockdep_of s p)" and "lockdep_wf d"
  shows "lock_inv (s\<lparr>lockdep_of := (lockdep_of s)(p := d)\<rparr>)"
  using assms by (simp add: lock_inv_def)

interpretation lock_order: step_invariant lock_start lock_step lock_inv
proof
  fix s :: "'p lock_sys"
  assume "lock_start s"
  then show "lock_inv s"
    by (simp add: lock_start_def lock_inv_def)
next
  fix s s' :: "'p lock_sys"
  assume inv: "lock_inv s" and step: "lock_step s s'"
  have wf: "lockdep_wf (lockdep_of s p)" for p
    using inv by (simp add: lock_inv_def)
  have own: "lock_owner s c = Some p \<longleftrightarrow>
      c \<in> set (if waiting s p then butlast (held (lockdep_of s p)) else held (lockdep_of s p))" for p c
    using inv by (simp add: lock_inv_def)
  from step show "lock_inv s'"
  proof cases
    case (announce p c name d)
    then show ?thesis
      using inv before_acquire_OK_D [OF wf announce(3)] by (auto simp: lock_inv_def)
  next
    case (announce_refused p c name rc d)
    then show ?thesis
      using lock_inv_same_held [OF inv] wf [of p] lockdep_error_unchanged(1) [OF announce_refused(3,4)]
      by auto
  next
    case (acquire p)
    let ?w = "wanted s p"
    have "held (lockdep_of s p) = butlast (held (lockdep_of s p)) @ [?w]"
      using inv acquire(2) by (simp add: lock_inv_def)
    then have "set (held (lockdep_of s p)) = insert ?w (set (butlast (held (lockdep_of s p))))"
      by (metis append.simps(1) list.simps(15) rotate1.simps(2) set_rotate1)
    moreover have "waiting s q \<Longrightarrow> ?w \<notin> set (butlast (held (lockdep_of s q)))"
      "\<not> waiting s q \<Longrightarrow> ?w \<notin> set (held (lockdep_of s q))" for q
      using own [of ?w q] acquire(3) by auto
    ultimately show ?thesis
      using inv acquire(2,3) unfolding acquire(1) lock_inv_def by auto
  next
    case (release p c name d)
    have h: "lockdep_wf d" "held (lockdep_of s p) = held d @ [c]"
      using after_release_OK_D [OF wf release(3)] by auto
    then have "c \<notin> set (held d)"
      using wf [of p] by (auto simp: lockdep_wf_def sorted_wrt_append)
    moreover have "lock_owner s c = Some p"
      using own [of c p] h release(2) by simp
    then have "waiting s q \<Longrightarrow> c \<notin> set (butlast (held (lockdep_of s q)))"
      "\<not> waiting s q \<Longrightarrow> c \<notin> set (held (lockdep_of s q))" if "q \<noteq> p" for q
      using own [of c q] that by auto
    ultimately show ?thesis
      using inv h release(2) unfolding release(1) lock_inv_def by auto
  next
    case (release_refused p c name rc d)
    then show ?thesis
      using lock_inv_same_held [OF inv] wf [of p] lockdep_error_unchanged(2) [OF release_refused(3,4)]
      by auto
  qed
qed

text \<open>Along a chain of waiting threads the wanted classes increase.\<close>

lemma waits_for_increases:
  assumes "lock_inv s" and "waits_for s p q" and "waiting s q"
  shows "wanted s p < wanted s q"
proof -
  let ?h = "held (lockdep_of s q)"
  have "wanted s p \<in> set (butlast ?h)" "?h \<noteq> []" "sorted_wrt (<) ?h"
    using assms by (auto simp: lock_inv_def waits_for_def lockdep_wf_def)
  then show ?thesis
    by (metis append_butlast_last_id list.set_intros(1) sorted_wrt_append)
qed

lemma waits_for_trancl_increases:
  assumes "lock_inv s"
  shows "(waits_for s)\<^sup>+\<^sup>+ p q \<Longrightarrow> waiting s q \<Longrightarrow> wanted s p < wanted s q"
proof (induction rule: tranclp_induct)
  case (step q r)
  then have "waiting s q"
    by (simp add: waits_for_def)
  with step show ?case
    using waits_for_increases [OF assms] less_trans by blast
qed (simp add: waits_for_increases [OF assms])

definition fresh_lockdep :: mcs_lockdep_state where
  "fresh_lockdep = \<lparr>held_class = replicate 16 0, held_name = replicate 16 None, ld_depth = 0,
     violation_count = 0\<rparr>"

definition two_threads :: "bool lock_sys" where
  "two_threads = \<lparr>lockdep_of = \<lambda>_. fresh_lockdep, waiting = \<lambda>_. False, lock_owner = \<lambda>_. None\<rparr>"

lemma two_threads_start: "lock_start two_threads"
  by (simp add: lock_start_def two_threads_def fresh_lockdep_def lockdep_wf_def held_def
      MCS_LOCKDEP_MAX_HELD_def)

text \<open>
  Property C17. Threads that ask the lock order check before each acquisition never wait for each
  other in a circle: in every reachable state the waits-for relation has no cycle.
\<close>

theorem lockdep_no_circular_wait:
  assumes "lock_start s0" and "lock_step\<^sup>*\<^sup>* s0 s"
  shows "\<not> (waits_for s)\<^sup>+\<^sup>+ p p"
proof
  assume cycle: "(waits_for s)\<^sup>+\<^sup>+ p p"
  then have "waiting s p"
    using tranclpD [OF cycle] by (auto simp: waits_for_def)
  then show False
    using waits_for_trancl_increases [OF lock_order.reachable_inv [OF assms] cycle] by simp
qed

text \<open>
  Two threads and locks of classes 1 and 2: one thread holds 1 and waits for 2, the other holds 2.
\<close>

definition ld_after :: "u32 list \<Rightarrow> mcs_lockdep_state" where
  "ld_after cs = fold (\<lambda>c s. the (snd (mcs_lockdep_before_acquire (Some s) c ''lock''))) cs fresh_lockdep"

definition one_waits :: "bool lock_sys" where
  "one_waits = \<lparr>lockdep_of = (\<lambda>p. if p then ld_after [1, 2] else ld_after [2]),
     waiting = (\<lambda>p. p), lock_owner = [1 \<mapsto> True, 2 \<mapsto> False]\<rparr>"

lemma ld_after_eval:
  "mcs_lockdep_before_acquire (Some fresh_lockdep) 1 ''lock'' = (MCS_SYNC_OK, Some (ld_after [1]))"
  "mcs_lockdep_before_acquire (Some fresh_lockdep) 2 ''lock'' = (MCS_SYNC_OK, Some (ld_after [2]))"
  "mcs_lockdep_before_acquire (Some (ld_after [1])) 2 ''lock'' = (MCS_SYNC_OK, Some (ld_after [1, 2]))"
  "held (ld_after [1]) = [1]" "held (ld_after [2]) = [2]" "held (ld_after [1, 2]) = [1, 2]"
  by code_simp+

lemma one_waits_reachable: "lock_step\<^sup>*\<^sup>* two_threads one_waits"
proof -
  define s1 :: "bool lock_sys" where "s1 = \<lparr>lockdep_of = (\<lambda>_. fresh_lockdep)(True := ld_after [1]),
    waiting = (\<lambda>_. False)(True := True), lock_owner = \<lambda>_. None\<rparr>"
  define s2 where "s2 = s1\<lparr>waiting := (waiting s1)(True := False), lock_owner := [1 \<mapsto> True]\<rparr>"
  define s3 where "s3 = s2\<lparr>lockdep_of := (lockdep_of s2)(False := ld_after [2]),
    waiting := (waiting s2)(False := True)\<rparr>"
  define s4 where "s4 = s3\<lparr>waiting := (waiting s3)(False := False),
    lock_owner := [1 \<mapsto> True, 2 \<mapsto> False]\<rparr>"
  have "lock_step two_threads s1"
    using announce [of two_threads True 1 "''lock''" "ld_after [1]"]
    by (simp add: two_threads_def s1_def ld_after_eval)
  moreover have "lock_step s1 s2"
    using acquire [of s1 True] by (simp add: s1_def s2_def ld_after_eval)
  moreover have "lock_step s2 s3"
    using announce [of s2 False 2 "''lock''" "ld_after [2]"]
    by (simp add: s1_def s2_def s3_def ld_after_eval)
  moreover have "lock_step s3 s4"
    using acquire [of s3 False] by (simp add: s1_def s2_def s3_def s4_def ld_after_eval)
  moreover have "s4\<lparr>lockdep_of := (lockdep_of s4)(True := ld_after [1, 2]),
      waiting := (waiting s4)(True := True)\<rparr> = one_waits"
    by (auto simp: s1_def s2_def s3_def s4_def one_waits_def fun_eq_iff)
  then have "lock_step s4 one_waits"
    using announce [of s4 True 2 "''lock''" "ld_after [1, 2]"]
    by (simp add: s1_def s2_def s3_def s4_def ld_after_eval)
  ultimately show ?thesis
    by (meson converse_rtranclp_into_rtranclp rtranclp.rtrancl_refl)
qed

lemma one_waits_waits: "waits_for one_waits True False"
  by (simp add: waits_for_def one_waits_def ld_after_eval)

theorem lockdep_no_circular_wait_witness:
  "lock_step\<^sup>*\<^sup>* two_threads one_waits \<and> waits_for one_waits True False \<and>
    \<not> (waits_for one_waits)\<^sup>+\<^sup>+ True True"
  using lockdep_no_circular_wait [OF two_threads_start one_waits_reachable, of True]
    one_waits_reachable one_waits_waits
  by blast

text \<open>
  Property C29. Under the lock order check the system is never stuck: from every waiting thread a
  chain of waits leads to a thread that can move, because it does not wait or because the lock it
  waits for is free.
\<close>

theorem lockdep_progress:
  assumes "lock_start s0" and "lock_step\<^sup>*\<^sup>* s0 s" and "waiting s p"
  shows "\<exists>q. (waits_for s)\<^sup>*\<^sup>* p q \<and> (\<not> waiting s q \<or> lock_owner s (wanted s q) = None)"
  using assms(3)
proof (induction "2 ^ 32 - unat (wanted s p)" arbitrary: p rule: less_induct)
  case less
  show ?case
  proof (cases "lock_owner s (wanted s p)")
    case None
    then show ?thesis
      by blast
  next
    case (Some q)
    then have w: "waits_for s p q"
      using less.prems by (simp add: waits_for_def)
    show ?thesis
    proof (cases "waiting s q")
      case True
      have "unat (wanted s p) < unat (wanted s q)"
        using waits_for_increases [OF lock_order.reachable_inv [OF assms(1,2)] w True]
        by (simp add: word_less_nat_alt)
      moreover have "unat (wanted s q) < 2 ^ 32"
        using unsigned_less [of "wanted s q", where 'a = nat] by simp
      ultimately have "2 ^ 32 - unat (wanted s q) < 2 ^ 32 - unat (wanted s p)"
        by linarith
      then show ?thesis
        using less.hyps True w by (meson converse_rtranclp_into_rtranclp)
    next
      case False
      then show ?thesis
        using w by blast
    qed
  qed
qed

theorem lockdep_progress_witness:
  "\<exists>q. (waits_for one_waits)\<^sup>*\<^sup>* True q \<and>
    (\<not> waiting one_waits q \<or> lock_owner one_waits (wanted one_waits q) = None)"
  using lockdep_progress [OF two_threads_start one_waits_reachable, of True]
  by (simp add: one_waits_def)

text \<open>
  Property C30. \<^verbatim>\<open>mcs_lockdep_before_acquire\<close> on a well-formed state accepts a class exactly when it
  is not 0, fewer than 16 classes are held and every held class is smaller; it then pushes the
  class. Otherwise the held classes stay as they are. A release with the same class undoes it.
\<close>

theorem lockdep_acquire_release:
  assumes wf: "lockdep_wf s"
  shows "if c \<noteq> 0 \<and> length (held s) < MCS_LOCKDEP_MAX_HELD \<and> (\<forall>h \<in> set (held s). h < c)
    then \<exists>s' s''. mcs_lockdep_before_acquire (Some s) c name = (MCS_SYNC_OK, Some s') \<and>
      lockdep_wf s' \<and> held s' = held s @ [c] \<and> mcs_lockdep_is_held (Some s') c \<and>
      mcs_lockdep_after_release (Some s') c name' = (MCS_SYNC_OK, Some s'') \<and>
      lockdep_wf s'' \<and> held s'' = held s
    else fst (mcs_lockdep_before_acquire (Some s) c name) \<noteq> MCS_SYNC_OK \<and>
      snd (mcs_lockdep_before_acquire (Some s) c name) \<in> {Some s, Some (violation s)}"
proof (cases "c \<noteq> 0 \<and> length (held s) < MCS_LOCKDEP_MAX_HELD \<and> (\<forall>h \<in> set (held s). h < c)")
  case True
  then obtain s' where a: "mcs_lockdep_before_acquire (Some s) c name = (MCS_SYNC_OK, Some s')"
    "lockdep_wf s'" "held s' = held s @ [c]"
    using before_acquire_ok [OF wf] by metis
  then obtain s'' where r: "mcs_lockdep_after_release (Some s') c name' = (MCS_SYNC_OK, Some s'')"
    "lockdep_wf s''" "held s'' = butlast (held s')"
    using after_release_ok [of s' c name'] by auto
  have "min (unat (ld_depth s')) MCS_LOCKDEP_MAX_HELD = unat (ld_depth s')"
    using a(2) by (simp add: lockdep_wf_def)
  then have "mcs_lockdep_is_held (Some s') c"
    using held_ex [OF a(2), of c] a(3) True by (simp add: mcs_lockdep_is_held_def)
  with a r True show ?thesis
    by simp
next
  case False
  then show ?thesis
    using before_acquire_refused [OF wf, of c name] by (auto simp: not_le [symmetric])
qed

theorem lockdep_acquire_release_witness:
  "\<exists>s' s''. mcs_lockdep_before_acquire (Some (ld_after [1])) 2 ''b'' = (MCS_SYNC_OK, Some s') \<and>
    held s' = [1, 2] \<and>
    mcs_lockdep_after_release (Some s') 2 ''b'' = (MCS_SYNC_OK, Some s'') \<and> held s'' = [1]"
proof -
  have "lockdep_wf (ld_after [1])"
    by code_simp
  then show ?thesis
    using lockdep_acquire_release [of "ld_after [1]" 2 "''b''" "''b''"]
    by (auto simp: ld_after_eval MCS_LOCKDEP_MAX_HELD_def)
qed

section \<open>Spinlock\<close>

definition spin_start :: "'p spin_sys \<Rightarrow> bool" where
  "spin_start s \<longleftrightarrow> spin_locked (spin_lock s) = 0 \<and> (\<forall>p. spin_pc_of s p = Spin_out)"

text \<open>\<open>h\<close> is the thread between lock and unlock, if there is one.\<close>

definition spin_held_by :: "'p option \<Rightarrow> 'p spin_sys \<Rightarrow> bool" where
  "spin_held_by h s \<longleftrightarrow> (\<forall>p. spin_pc_of s p = Spin_in \<longleftrightarrow> h = Some p) \<and>
     (spin_locked (spin_lock s) = 0 \<longleftrightarrow> h = None)"

lemma spin_held_by_pc: "spin_held_by h s \<Longrightarrow> spin_pc_of s p = Spin_in \<longleftrightarrow> h = Some p"
  by (simp add: spin_held_by_def)

definition spin_inv :: "'p spin_sys \<Rightarrow> bool" where
  "spin_inv s \<longleftrightarrow> (\<exists>h. spin_held_by h s)"

lemmas spin_defs = mcs_spin_try_lock_def mcs_spin_unlock_def mcs_spin_is_locked_def

lemma spin_step_held:
  assumes h: "spin_held_by h s" and step: "mcs_spin_lock_step s s'"
  shows "\<exists>h'. spin_held_by h' s'"
  using step
proof cases
  case (spin_call p)
  then have "h \<noteq> Some p"
    using spin_held_by_pc [OF h, of p] by auto
  then have "spin_held_by h s'"
    using h unfolding spin_call(1) spin_held_by_def by simp
  then show ?thesis ..
next
  case (spin_try p ok l)
  have l: "l = (spin_lock s)\<lparr>spin_locked := 1\<rparr>" "ok \<longleftrightarrow> spin_locked (spin_lock s) = 0"
    using spin_try(3) by (auto simp: spin_defs)
  have "h \<noteq> Some p"
    using spin_held_by_pc [OF h, of p] spin_try(2) by auto
  then have "spin_held_by (if ok then Some p else h) s'"
    using h l unfolding spin_try(1) spin_held_by_def by auto
  then show ?thesis ..
next
  case (spin_wait p)
  then have "h \<noteq> Some p"
    using spin_held_by_pc [OF h, of p] by auto
  then have "spin_held_by h s'"
    using h unfolding spin_wait(1) spin_held_by_def by simp
  then show ?thesis ..
next
  case (spin_leave p l)
  then have "h = Some p" "l = (spin_lock s)\<lparr>spin_locked := 0\<rparr>"
    using spin_held_by_pc [OF h, of p] by (auto simp: spin_defs)
  then have "spin_held_by None s'"
    using h unfolding spin_leave(1) spin_held_by_def by auto
  then show ?thesis ..
qed

interpretation spin: step_invariant spin_start mcs_spin_lock_step spin_inv
proof
  fix s :: "'p spin_sys"
  assume "spin_start s"
  then have "spin_held_by None s"
    by (simp add: spin_start_def spin_held_by_def)
  then show "spin_inv s"
    unfolding spin_inv_def ..
qed (use spin_step_held in \<open>auto simp: spin_inv_def\<close>)

text \<open>From \<open>Spin_wait\<close> or \<open>Spin_try\<close> with the lock free a thread gets in by its own steps.\<close>

lemma spin_enters:
  assumes "spin_locked (spin_lock s) = 0" and "spin_pc_of s r \<in> {Spin_try, Spin_wait}"
  shows "\<exists>s'. mcs_spin_lock_step\<^sup>*\<^sup>* s s' \<and> spin_pc_of s' r = Spin_in"
proof -
  have enter: "\<exists>s'. mcs_spin_lock_step s s' \<and> spin_pc_of s' r = Spin_in"
    if "spin_locked (spin_lock s) = 0" "spin_pc_of s r = Spin_try" for s :: "'a spin_sys"
    using spin_try [of s r True "(spin_lock s)\<lparr>spin_locked := 1\<rparr>"] that
    by (intro exI conjI) (auto simp: spin_defs)
  show ?thesis
  proof (cases "spin_pc_of s r = Spin_try")
    case True
    then show ?thesis
      using enter assms(1) by blast
  next
    case False
    let ?s = "s\<lparr>spin_pc_of := (spin_pc_of s)(r := Spin_try)\<rparr>"
    have "mcs_spin_lock_step s ?s"
      using assms False by (intro spin_wait) (auto simp: spin_defs)
    moreover obtain s' where "mcs_spin_lock_step ?s s'" "spin_pc_of s' r = Spin_in"
      using enter [of ?s] assms(1) by auto
    ultimately show ?thesis
      by (meson converse_rtranclp_into_rtranclp r_into_rtranclp)
  qed
qed

text \<open>
  Property C32. At most one thread is between lock and unlock of a spinlock, under every
  interleaving of the atomic accesses; and no wake-up is lost: from every reachable state in which
  a thread is trying to take the lock there is a continuation in which it gets in.
\<close>

theorem spin_lock_exclusive:
  assumes "spin_start s0" and "mcs_spin_lock_step\<^sup>*\<^sup>* s0 s"
  shows "(spin_pc_of s p = Spin_in \<longrightarrow> spin_pc_of s q = Spin_in \<longrightarrow> p = q) \<and>
    (spin_pc_of s r \<in> {Spin_try, Spin_wait} \<longrightarrow>
      (\<exists>s'. mcs_spin_lock_step\<^sup>*\<^sup>* s s' \<and> spin_pc_of s' r = Spin_in))"
proof -
  obtain h where h: "spin_held_by h s"
    using spin.reachable_inv [OF assms] unfolding spin_inv_def ..
  have "\<exists>s'. mcs_spin_lock_step\<^sup>*\<^sup>* s s' \<and> spin_pc_of s' r = Spin_in"
    if r: "spin_pc_of s r \<in> {Spin_try, Spin_wait}"
  proof (cases h)
    case None
    then show ?thesis
      using h r by (intro spin_enters) (auto simp: spin_held_by_def)
  next
    case (Some p)
    let ?s = "s\<lparr>spin_lock := (spin_lock s)\<lparr>spin_locked := 0\<rparr>,
      spin_pc_of := (spin_pc_of s)(p := Spin_out)\<rparr>"
    have p: "spin_pc_of s p = Spin_in"
      using h Some by (simp add: spin_held_by_def)
    then have "mcs_spin_lock_step s ?s"
      by (intro spin_leave) (simp_all add: spin_defs)
    moreover have "\<exists>s'. mcs_spin_lock_step\<^sup>*\<^sup>* ?s s' \<and> spin_pc_of s' r = Spin_in"
      using r p by (intro spin_enters) auto
    ultimately show ?thesis
      by (meson converse_rtranclp_into_rtranclp)
  qed
  then show ?thesis
    using h by (auto simp: spin_held_by_def)
qed

definition free_spin :: "nat spin_sys" where
  "free_spin = \<lparr>spin_lock = \<lparr>spin_locked = 0, spin_class_id = 1, spin_name = ''s''\<rparr>,
     spin_pc_of = \<lambda>_. Spin_out\<rparr>"

theorem spin_lock_exclusive_witness:
  "mcs_spin_lock_step\<^sup>*\<^sup>* free_spin (free_spin\<lparr>spin_pc_of := (\<lambda>_. Spin_out)(3 := Spin_try)\<rparr>) \<and>
   (\<exists>s'. mcs_spin_lock_step\<^sup>*\<^sup>* (free_spin\<lparr>spin_pc_of := (\<lambda>_. Spin_out)(3 := Spin_try)\<rparr>) s' \<and>
     spin_pc_of s' 3 = Spin_in)"
proof -
  let ?s = "free_spin\<lparr>spin_pc_of := (\<lambda>_. Spin_out)(3 := Spin_try)\<rparr>"
  have start: "spin_start free_spin"
    by (simp add: spin_start_def free_spin_def)
  have "mcs_spin_lock_step free_spin ?s"
    using spin_call [of free_spin 3] by (simp add: free_spin_def)
  then have steps: "mcs_spin_lock_step\<^sup>*\<^sup>* free_spin ?s"
    by (rule r_into_rtranclp)
  then show ?thesis
    using spin_lock_exclusive [OF start steps, of 0 0 3] by simp
qed

section \<open>Mutex\<close>















section \<open>Calls of a mutex among other threads\<close>

















section \<open>Calls of a mutex undisturbed\<close>










end
