(* ===== verification/Block.thy ===== *)
theory Block
  imports Prelude
begin

text \<open>
  The block layer: \<^verbatim>\<open>src/kernel/block/block.c\<close> (registry and range-checked access), \<^verbatim>\<open>ramblk.c\<close> (the
  RAM disk driver) and \<^verbatim>\<open>src/include/mcsos/block.h\<close>. Device and RAM disk objects live in stores
  indexed by address, NULL being 0; the bytes a RAM disk's \<^verbatim>\<open>storage\<close> pointer leads to are part of
  the RAM disk object. A driver's function pointers are names of the driver functions of the
  sources; calling one is \<open>blk_call\<close>.
\<close>

section \<open>Data\<close>

datatype mcsos_blk_status =
    MCSOS_BLK_OK | MCSOS_BLK_EINVAL | MCSOS_BLK_ERANGE
  | MCSOS_BLK_EFULL | MCSOS_BLK_EIO | MCSOS_BLK_ENODEV

definition MCSOS_BLK_NAME_MAX :: nat where "MCSOS_BLK_NAME_MAX = 16"
definition MCSOS_BLK_MAX_DEVICES :: nat where "MCSOS_BLK_MAX_DEVICES = 8"
definition MCSOS_BLK_DEFAULT_SECTOR_SIZE :: u32 where "MCSOS_BLK_DEFAULT_SECTOR_SIZE = 512"

datatype blk_fn = Mcsos_ramblk_read | Mcsos_ramblk_write | Mcsos_ramblk_flush

record mcsos_blk_ops =
  ops_read :: "blk_fn option"
  ops_write :: "blk_fn option"
  ops_flush :: "blk_fn option"

record mcsos_blk_device =
  dev_name :: string
  dev_block_size :: u32
  dev_block_count :: u64
  dev_flags :: u32
  dev_ops :: "mcsos_blk_ops option"
  dev_driver_data :: u64

record mcsos_ramblk =
  ram_storage :: bytes
  ram_storage_size :: u64

record blk_mem =
  devs :: "u64 \<Rightarrow> mcsos_blk_device"
  rams :: "u64 \<Rightarrow> mcsos_ramblk"
  g_blk_devices :: "u64 list"
  g_blk_count :: u32

section \<open>Registry\<close>

definition mcsos_is_power_of_two_u32 :: "u32 \<Rightarrow> bool" where
  "mcsos_is_power_of_two_u32 value \<longleftrightarrow> value \<noteq> 0 \<and> value AND (value - 1) = 0"

definition mcsos_name_is_nonempty :: "string option \<Rightarrow> bool" where
  "mcsos_name_is_nonempty s \<longleftrightarrow> s \<noteq> None \<and> s \<noteq> Some []"

definition mcsos_copy_name :: "string option \<Rightarrow> string" where
  "mcsos_copy_name src = (case src of None \<Rightarrow> [] | Some s \<Rightarrow> take (MCSOS_BLK_NAME_MAX - 1) s)"

definition mcsos_blk_copy_name_for_driver :: "string option \<Rightarrow> string" where
  "mcsos_blk_copy_name_for_driver src = mcsos_copy_name src"

definition mcsos_blk_registry_reset :: "blk_mem \<Rightarrow> blk_mem" where
  "mcsos_blk_registry_reset w =
    w\<lparr>g_blk_devices := replicate MCSOS_BLK_MAX_DEVICES 0, g_blk_count := 0\<rparr>"

definition mcsos_blk_register :: "u64 \<Rightarrow> blk_mem \<Rightarrow> mcsos_blk_status \<times> blk_mem" where
  "mcsos_blk_register dev w =
    (let d = devs w dev in
     if dev = 0 then (MCSOS_BLK_EINVAL, w)
     else case dev_ops d of None \<Rightarrow> (MCSOS_BLK_EINVAL, w) | Some ops \<Rightarrow>
       if ops_read ops = None \<or> ops_write ops = None then (MCSOS_BLK_EINVAL, w)
       else if \<not> mcsos_name_is_nonempty (Some (dev_name d)) \<or> dev_block_count d = 0 \<or>
         dev_block_size d < MCSOS_BLK_DEFAULT_SECTOR_SIZE \<or>
         \<not> mcsos_is_power_of_two_u32 (dev_block_size d)
       then (MCSOS_BLK_EINVAL, w)
       else if unat (g_blk_count w) \<ge> MCSOS_BLK_MAX_DEVICES then (MCSOS_BLK_EFULL, w)
       else (MCSOS_BLK_OK,
         w\<lparr>g_blk_devices := (g_blk_devices w)[unat (g_blk_count w) := dev],
           g_blk_count := g_blk_count w + 1\<rparr>))"

definition mcsos_blk_get :: "u32 \<Rightarrow> blk_mem \<Rightarrow> u64" where
  "mcsos_blk_get index w =
    (if index \<ge> g_blk_count w then 0 else g_blk_devices w ! unat index)"

definition mcsos_blk_count :: "blk_mem \<Rightarrow> u32" where
  "mcsos_blk_count w = g_blk_count w"

section \<open>The RAM disk driver\<close>

definition mcsos_memcpy_u8 :: "bytes \<Rightarrow> nat \<Rightarrow> bytes \<Rightarrow> nat \<Rightarrow> u64 \<Rightarrow> bytes" where
  "mcsos_memcpy_u8 dst doff src soff n = copy_loop dst doff src soff (unat n)"

text \<open>Buffers are \<open>None\<close> for NULL; a read returns the buffer with the copied bytes.\<close>

definition mcsos_ramblk_rw ::
  "u64 \<Rightarrow> u64 \<Rightarrow> u32 \<Rightarrow> bytes option \<Rightarrow> bool \<Rightarrow> blk_mem \<Rightarrow> mcsos_blk_status \<times> bytes option \<times> blk_mem" where
  "mcsos_ramblk_rw dev lba count buffer is_write w = (case buffer of
     None \<Rightarrow> (MCSOS_BLK_EINVAL, None, w)
   | Some buf \<Rightarrow>
       if dev = 0 \<or> dev_driver_data (devs w dev) = 0 then (MCSOS_BLK_EINVAL, Some buf, w)
       else
         let p = dev_driver_data (devs w dev);
             ram = rams w p;
             byte_offset = lba * ucast (dev_block_size (devs w dev));
             byte_count = ucast count * ucast (dev_block_size (devs w dev)) in
         if byte_offset > ram_storage_size ram \<or> byte_count > ram_storage_size ram - byte_offset
         then (MCSOS_BLK_ERANGE, Some buf, w)
         else if is_write then
           (MCSOS_BLK_OK, Some buf, w\<lparr>rams := (rams w)(p := ram\<lparr>ram_storage :=
              mcsos_memcpy_u8 (ram_storage ram) (unat byte_offset) buf 0 byte_count\<rparr>)\<rparr>)
         else
           (MCSOS_BLK_OK, Some (mcsos_memcpy_u8 buf 0 (ram_storage ram) (unat byte_offset) byte_count), w))"

definition mcsos_ramblk_read ::
  "u64 \<Rightarrow> u64 \<Rightarrow> u32 \<Rightarrow> bytes option \<Rightarrow> blk_mem \<Rightarrow> mcsos_blk_status \<times> bytes option \<times> blk_mem" where
  "mcsos_ramblk_read dev lba count buffer w = mcsos_ramblk_rw dev lba count buffer False w"

definition mcsos_ramblk_write ::
  "u64 \<Rightarrow> u64 \<Rightarrow> u32 \<Rightarrow> bytes option \<Rightarrow> blk_mem \<Rightarrow> mcsos_blk_status \<times> bytes option \<times> blk_mem" where
  "mcsos_ramblk_write dev lba count buffer w = mcsos_ramblk_rw dev lba count buffer True w"

definition mcsos_ramblk_flush ::
  "u64 \<Rightarrow> u64 \<Rightarrow> u32 \<Rightarrow> bytes option \<Rightarrow> blk_mem \<Rightarrow> mcsos_blk_status \<times> bytes option \<times> blk_mem" where
  "mcsos_ramblk_flush dev lba count buffer w = (MCSOS_BLK_OK, buffer, w)"

definition g_ramblk_ops :: mcsos_blk_ops where
  "g_ramblk_ops = \<lparr>ops_read = Some Mcsos_ramblk_read, ops_write = Some Mcsos_ramblk_write,
     ops_flush = Some Mcsos_ramblk_flush\<rparr>"

definition mcsos_ramblk_init ::
  "u64 \<Rightarrow> u64 \<Rightarrow> string option \<Rightarrow> bytes option \<Rightarrow> u64 \<Rightarrow> u32 \<Rightarrow> blk_mem \<Rightarrow> mcsos_blk_status \<times> blk_mem" where
  "mcsos_ramblk_init dev ram name storage storage_size block_size w =
    (if dev = 0 \<or> ram = 0 \<or> storage = None \<or> name = None then (MCSOS_BLK_EINVAL, w)
     else if block_size < MCSOS_BLK_DEFAULT_SECTOR_SIZE \<or> \<not> mcsos_is_power_of_two_u32 block_size
     then (MCSOS_BLK_EINVAL, w)
     else if storage_size < ucast block_size \<or> storage_size mod ucast block_size \<noteq> 0
     then (MCSOS_BLK_EINVAL, w)
     else (MCSOS_BLK_OK,
       w\<lparr>rams := (rams w)(ram := \<lparr>ram_storage = the storage, ram_storage_size = storage_size\<rparr>),
         devs := (devs w)(dev :=
           \<lparr>dev_name = mcsos_blk_copy_name_for_driver name, dev_block_size = block_size,
            dev_block_count = storage_size div ucast block_size, dev_flags = 0,
            dev_ops = Some g_ramblk_ops, dev_driver_data = ram\<rparr>)\<rparr>))"

section \<open>Range-checked access\<close>

fun blk_call ::
  "blk_fn \<Rightarrow> u64 \<Rightarrow> u64 \<Rightarrow> u32 \<Rightarrow> bytes option \<Rightarrow> blk_mem \<Rightarrow> mcsos_blk_status \<times> bytes option \<times> blk_mem" where
  "blk_call Mcsos_ramblk_read = mcsos_ramblk_read"
| "blk_call Mcsos_ramblk_write = mcsos_ramblk_write"
| "blk_call Mcsos_ramblk_flush = mcsos_ramblk_flush"

definition mcsos_blk_validate_range ::
  "u64 \<Rightarrow> u64 \<Rightarrow> u32 \<Rightarrow> bytes option \<Rightarrow> blk_mem \<Rightarrow> mcsos_blk_status" where
  "mcsos_blk_validate_range dev lba count buffer w =
    (if dev = 0 \<or> buffer = None \<or> count = 0 \<or> dev_ops (devs w dev) = None then MCSOS_BLK_EINVAL
     else if lba \<ge> dev_block_count (devs w dev) then MCSOS_BLK_ERANGE
     else if ucast count > dev_block_count (devs w dev) - lba then MCSOS_BLK_ERANGE
     else MCSOS_BLK_OK)"

definition mcsos_blk_read ::
  "u64 \<Rightarrow> u64 \<Rightarrow> u32 \<Rightarrow> bytes option \<Rightarrow> blk_mem \<Rightarrow> mcsos_blk_status \<times> bytes option \<times> blk_mem" where
  "mcsos_blk_read dev lba count buffer w =
    (let st = mcsos_blk_validate_range dev lba count buffer w in
     if st \<noteq> MCSOS_BLK_OK then (st, buffer, w)
     else case ops_read (the (dev_ops (devs w dev))) of
       None \<Rightarrow> (MCSOS_BLK_EINVAL, buffer, w)
     | Some f \<Rightarrow> blk_call f dev lba count buffer w)"

definition mcsos_blk_write ::
  "u64 \<Rightarrow> u64 \<Rightarrow> u32 \<Rightarrow> bytes option \<Rightarrow> blk_mem \<Rightarrow> mcsos_blk_status \<times> bytes option \<times> blk_mem" where
  "mcsos_blk_write dev lba count buffer w =
    (let st = mcsos_blk_validate_range dev lba count buffer w in
     if st \<noteq> MCSOS_BLK_OK then (st, buffer, w)
     else case ops_write (the (dev_ops (devs w dev))) of
       None \<Rightarrow> (MCSOS_BLK_EINVAL, buffer, w)
     | Some f \<Rightarrow> blk_call f dev lba count buffer w)"

definition mcsos_blk_flush :: "u64 \<Rightarrow> blk_mem \<Rightarrow> mcsos_blk_status \<times> blk_mem" where
  "mcsos_blk_flush dev w =
    (if dev = 0 then (MCSOS_BLK_EINVAL, w)
     else case dev_ops (devs w dev) of None \<Rightarrow> (MCSOS_BLK_EINVAL, w) | Some ops \<Rightarrow>
       (case ops_flush ops of None \<Rightarrow> (MCSOS_BLK_OK, w)
        | Some f \<Rightarrow> (let (st, _, w) = blk_call f dev 0 0 None w in (st, w))))"

section \<open>RAM disks as arrays of blocks\<close>

text \<open>
  A device in good order: a RAM disk whose storage holds \<^verbatim>\<open>block_count\<close> blocks of \<^verbatim>\<open>block_size\<close> bytes.
\<close>

definition ram_dev :: "blk_mem \<Rightarrow> u64 \<Rightarrow> bool" where
  "ram_dev w dev \<longleftrightarrow> (let d = devs w dev; r = rams w (dev_driver_data d) in
     dev \<noteq> 0 \<and> dev_driver_data d \<noteq> 0 \<and> dev_ops d = Some g_ramblk_ops \<and> dev_block_size d \<noteq> 0 \<and>
     length (ram_storage r) = unat (ram_storage_size r) \<and>
     unat (ram_storage_size r) = unat (dev_block_count d) * unat (dev_block_size d))"

abbreviation block_size_of :: "blk_mem \<Rightarrow> u64 \<Rightarrow> nat" where
  "block_size_of w dev \<equiv> unat (dev_block_size (devs w dev))"

abbreviation disk_of :: "blk_mem \<Rightarrow> u64 \<Rightarrow> bytes" where
  "disk_of w dev \<equiv> ram_storage (rams w (dev_driver_data (devs w dev)))"

definition disk_block :: "blk_mem \<Rightarrow> u64 \<Rightarrow> u64 \<Rightarrow> bytes" where
  "disk_block w dev lba = slice (unat lba * block_size_of w dev) (block_size_of w dev) (disk_of w dev)"

lemma ram_devD:
  assumes "ram_dev w dev"
  shows "dev \<noteq> 0" "dev_driver_data (devs w dev) \<noteq> 0" "dev_ops (devs w dev) = Some g_ramblk_ops"
    and "0 < block_size_of w dev"
    and "length (disk_of w dev) = unat (dev_block_count (devs w dev)) * block_size_of w dev"
    and "unat (ram_storage_size (rams w (dev_driver_data (devs w dev)))) =
      unat (dev_block_count (devs w dev)) * block_size_of w dev"
  using assms unfolding ram_dev_def Let_def by (simp_all add: unat_gt_0)

text \<open>In range, the driver's 64-bit products do not wrap and its own bounds check passes.\<close>

lemma ram_rw_bounds:
  fixes lba :: u64 and count :: u32
  assumes rd: "ram_dev w dev" and r: "unat lba + unat count \<le> unat (dev_block_count (devs w dev))"
  shows "unat (lba * ucast (dev_block_size (devs w dev))) = unat lba * block_size_of w dev"
    and "unat (ucast count * ucast (dev_block_size (devs w dev)) :: u64) = unat count * block_size_of w dev"
    and "unat lba * block_size_of w dev + unat count * block_size_of w dev \<le> length (disk_of w dev)"
proof -
  let ?n = "block_size_of w dev"
  have "(unat lba + unat count) * ?n \<le> unat (dev_block_count (devs w dev)) * ?n"
    using r by (rule mult_le_mono1)
  then show le: "unat lba * ?n + unat count * ?n \<le> length (disk_of w dev)"
    using ram_devD(5) [OF rd] by (simp add: distrib_right)
  also have "length (disk_of w dev) < 2 ^ 64"
    using ram_devD(5,6) [OF rd] unsigned_less [of "ram_storage_size (rams w (dev_driver_data (devs w dev)))", where 'a = nat]
    by simp
  finally have lt: "unat lba * ?n + unat count * ?n < 2 ^ 64" .
  show "unat (lba * ucast (dev_block_size (devs w dev))) = unat lba * ?n"
    by (subst unat_mult_nowrap) (use lt in simp_all)
  show "unat (ucast count * ucast (dev_block_size (devs w dev)) :: u64) = unat count * ?n"
    by (subst unat_mult_nowrap) (use lt in simp_all)
qed

lemma ramblk_rw_in_range:
  assumes rd: "ram_dev w dev" and r: "unat lba + unat count \<le> unat (dev_block_count (devs w dev))"
  shows "mcsos_ramblk_rw dev lba count (Some buf) is_write w =
    (if is_write then
       (MCSOS_BLK_OK, Some buf, w\<lparr>rams := (rams w)(dev_driver_data (devs w dev) :=
          (rams w (dev_driver_data (devs w dev)))\<lparr>ram_storage :=
            copy_loop (disk_of w dev) (unat lba * block_size_of w dev) buf 0
              (unat count * block_size_of w dev)\<rparr>)\<rparr>)
     else
       (MCSOS_BLK_OK, Some (copy_loop buf 0 (disk_of w dev) (unat lba * block_size_of w dev)
          (unat count * block_size_of w dev)), w))"
proof -
  let ?bo = "lba * ucast (dev_block_size (devs w dev))"
  let ?bc = "ucast count * ucast (dev_block_size (devs w dev)) :: u64"
  let ?size = "ram_storage_size (rams w (dev_driver_data (devs w dev)))"
  note b = ram_rw_bounds [OF rd r]
  have size: "unat ?size = length (disk_of w dev)"
    using ram_devD(5,6) [OF rd] by simp
  have "?bo \<le> ?size"
    using b(1,3) size by (simp add: word_le_nat_alt)
  moreover from this have "?bc \<le> ?size - ?bo"
    using b size by (simp add: word_le_nat_alt unat_sub)
  ultimately show ?thesis
    using ram_devD(1,2) [OF rd] b(1,2)
    by (simp add: mcsos_ramblk_rw_def mcsos_memcpy_u8_def not_less [symmetric] Let_def)
qed

lemma validate_range_ok:
  assumes rd: "ram_dev w dev" and c: "count \<noteq> 0"
  shows "mcsos_blk_validate_range dev lba count (Some buf) w =
    (if unat lba + unat count \<le> unat (dev_block_count (devs w dev)) then MCSOS_BLK_OK
     else MCSOS_BLK_ERANGE)"
proof -
  let ?n = "dev_block_count (devs w dev)"
  have c0: "0 < unat count"
    using c by (simp add: unat_gt_0)
  show ?thesis
  proof (cases "lba \<ge> ?n")
    case True
    then have "\<not> unat lba + unat count \<le> unat ?n"
      using c0 by (simp add: word_le_nat_alt)
    with True show ?thesis
      using ram_devD [OF rd] c by (simp add: mcsos_blk_validate_range_def)
  next
    case False
    then have "unat (?n - lba) = unat ?n - unat lba" "unat lba < unat ?n"
      using unat_sub [of lba ?n] by (simp_all add: word_less_nat_alt not_le less_imp_le)
    then have "ucast count > ?n - lba \<longleftrightarrow> \<not> unat lba + unat count \<le> unat ?n"
      by (auto simp: word_less_nat_alt)
    with False show ?thesis
      using ram_devD [OF rd] c by (simp add: mcsos_blk_validate_range_def)
  qed
qed

definition in_range :: "blk_mem \<Rightarrow> u64 \<Rightarrow> u64 \<Rightarrow> nat \<Rightarrow> bool" where
  "in_range w dev lba n \<longleftrightarrow> unat lba + n \<le> unat (dev_block_count (devs w dev))"

text \<open>The memory with the bytes of \<open>dev\<close>'s disk replaced.\<close>

definition set_disk :: "blk_mem \<Rightarrow> u64 \<Rightarrow> bytes \<Rightarrow> blk_mem" where
  "set_disk w dev bs = (let p = dev_driver_data (devs w dev) in
     w\<lparr>rams := (rams w)(p := (rams w p)\<lparr>ram_storage := bs\<rparr>)\<rparr>)"

lemma set_disk_simps [simp]:
  "devs (set_disk w dev bs) = devs w"
  "g_blk_devices (set_disk w dev bs) = g_blk_devices w" "g_blk_count (set_disk w dev bs) = g_blk_count w"
  by (simp_all add: set_disk_def Let_def)

lemma disk_of_set_disk:
  "ram_storage (rams (set_disk w dev bs) p) =
    (if p = dev_driver_data (devs w dev) then bs else ram_storage (rams w p))"
  by (simp add: set_disk_def Let_def)

lemma ram_dev_set_disk:
  "length bs = length (disk_of w dev) \<Longrightarrow> ram_dev (set_disk w dev bs) d = ram_dev w d"
  by (auto simp: ram_dev_def set_disk_def Let_def)

lemma blk_read_spec:
  assumes rd: "ram_dev w dev" and c: "count \<noteq> 0" and r: "in_range w dev lba (unat count)"
    and len: "unat count * block_size_of w dev \<le> length buf"
  shows "mcsos_blk_read dev lba count (Some buf) w =
    (MCSOS_BLK_OK, Some (slice (unat lba * block_size_of w dev) (unat count * block_size_of w dev)
       (disk_of w dev) @ drop (unat count * block_size_of w dev) buf), w)"
proof -
  have r': "unat lba + unat count \<le> unat (dev_block_count (devs w dev))"
    using r by (simp add: in_range_def)
  show ?thesis
    using validate_range_ok [OF rd c, of lba buf] ramblk_rw_in_range [OF rd r', of buf False]
      ram_devD(3) [OF rd] r' ram_rw_bounds(3) [OF rd r'] len
    by (simp add: mcsos_blk_read_def g_ramblk_ops_def mcsos_ramblk_read_def copy_loop_eq slice_def)
qed

lemma blk_write_spec:
  assumes rd: "ram_dev w dev" and c: "count \<noteq> 0" and r: "in_range w dev lba (unat count)"
  shows "mcsos_blk_write dev lba count (Some buf) w =
    (MCSOS_BLK_OK, Some buf, set_disk w dev (copy_loop (disk_of w dev)
       (unat lba * block_size_of w dev) buf 0 (unat count * block_size_of w dev)))"
proof -
  have r': "unat lba + unat count \<le> unat (dev_block_count (devs w dev))"
    using r by (simp add: in_range_def)
  show ?thesis
    using validate_range_ok [OF rd c, of lba buf] ramblk_rw_in_range [OF rd r', of buf True]
      ram_devD(3) [OF rd] r'
    by (simp add: mcsos_blk_write_def g_ramblk_ops_def mcsos_ramblk_write_def set_disk_def Let_def)
qed

lemma blk_out_of_range:
  assumes rd: "ram_dev w dev" and c: "count \<noteq> 0" and r: "\<not> in_range w dev lba (unat count)"
  shows "mcsos_blk_read dev lba count (Some buf) w = (MCSOS_BLK_ERANGE, Some buf, w)"
    and "mcsos_blk_write dev lba count (Some buf) w = (MCSOS_BLK_ERANGE, Some buf, w)"
  using validate_range_ok [OF rd c, of lba buf] r
  by (simp_all add: mcsos_blk_read_def mcsos_blk_write_def in_range_def)

text \<open>Blocks of one disk are disjoint slices of it.\<close>

lemma block_end:
  assumes rd: "ram_dev w dev" and r: "in_range w dev lba n"
  shows "unat lba * block_size_of w dev + n * block_size_of w dev \<le> length (disk_of w dev)"
proof -
  have "(unat lba + n) * block_size_of w dev \<le> length (disk_of w dev)"
    using mult_le_mono1 [of "unat lba + n" "unat (dev_block_count (devs w dev))"] r
    unfolding ram_devD(5) [OF rd] in_range_def by blast
  then show ?thesis
    by (simp add: distrib_right)
qed

lemma blocks_disjoint:
  assumes "a + n \<le> b \<or> b < (a :: nat)"
  shows "b * k + k \<le> a * k \<or> a * k + n * k \<le> b * k"
  using assms
proof
  assume "a + n \<le> b"
  then have "(a + n) * k \<le> b * k"
    by (rule mult_le_mono1)
  then show ?thesis
    by (simp add: distrib_right)
next
  assume "b < a"
  then have "Suc b * k \<le> a * k"
    by (intro mult_le_mono1) simp
  then show ?thesis
    by (simp add: add.commute)
qed

lemma slice_slice:
  "i + m \<le> n \<Longrightarrow> slice i m (slice off n xs) = slice (off + i) m xs"
  by (simp add: slice_def drop_take min_def add.commute)

lemma slice_0: "slice 0 n xs = take n xs"
  by (simp add: slice_def)

text \<open>What a write of several blocks leaves on the disks.\<close>

lemma disk_block_after_write:
  assumes rd: "ram_dev w dev" and rd': "ram_dev w d" and r: "in_range w dev lba n"
    and len: "n * block_size_of w dev \<le> length buf" and r': "in_range w d l 1"
    and same: "dev_driver_data (devs w d) = dev_driver_data (devs w dev) \<Longrightarrow> d = dev"
  shows "disk_block (set_disk w dev (copy_loop (disk_of w dev) (unat lba * block_size_of w dev) buf 0
      (n * block_size_of w dev))) d l =
    (if d = dev \<and> unat lba \<le> unat l \<and> unat l < unat lba + n
     then slice ((unat l - unat lba) * block_size_of w dev) (block_size_of w dev) buf
     else disk_block w d l)"
proof (cases "d = dev")
  case False
  then show ?thesis
    using same by (auto simp: disk_block_def disk_of_set_disk)
next
  case True
  let ?k = "block_size_of w dev" and ?D = "disk_of w dev"
  let ?new = "copy_loop ?D (unat lba * ?k) buf 0 (n * ?k)"
  have e: "unat lba * ?k + n * ?k \<le> length ?D" "unat l * ?k + ?k \<le> length ?D"
    using block_end [OF rd r] block_end [OF rd', of l 1] r' True by simp_all
  have block: "disk_block (set_disk w dev ?new) d l = slice (unat l * ?k) ?k ?new"
    using True by (simp add: disk_block_def disk_of_set_disk)
  show ?thesis
  proof (cases "unat lba \<le> unat l \<and> unat l < unat lba + n")
    case inside: True
    then obtain i where i: "unat l = unat lba + i" "i < n"
      by (metis le_iff_add nat_add_left_cancel_less)
    have ik: "i * ?k + ?k \<le> n * ?k"
      using mult_le_mono1 [of "Suc i" n ?k] i(2) by (simp add: add.commute)
    have "slice (unat l * ?k) ?k ?new = slice (i * ?k) ?k (slice (unat lba * ?k) (n * ?k) ?new)"
      using slice_slice [OF ik, of "unat lba * ?k" ?new] i(1) by (simp add: distrib_right)
    also have "\<dots> = slice (i * ?k) ?k (slice 0 (n * ?k) buf)"
      using e(1) len by (simp add: slice_copy_same)
    also have "\<dots> = slice (i * ?k) ?k buf"
      using slice_slice [OF ik, of 0 buf] by simp
    finally show ?thesis
      using block inside i True by simp
  next
    case False
    then have "unat l * ?k + ?k \<le> unat lba * ?k \<or> unat lba * ?k + n * ?k \<le> unat l * ?k"
      by (intro blocks_disjoint) auto
    then have "slice (unat l * ?k) ?k ?new = slice (unat l * ?k) ?k ?D"
      using e len by (intro slice_copy_other) auto
    then show ?thesis
      using block False True by (auto simp: disk_block_def)
  qed
qed

section \<open>Block storage as a contract\<close>

text \<open>
  What a client expects of block storage, whether it is a disk or a cache in front of one: in every
  good state, reading an address in range returns OK and its content, reading any other block of a known
  device returns ERANGE and leaves the caller's buffer \<open>z\<close> alone, and neither changes any content; writing
  to an address in range returns OK and changes the content of that address only.
\<close>

datatype ('a, 'b) blk_op = Blk_read 'a | Blk_write 'a 'b

locale block_store =
  fixes good :: "'s \<Rightarrow> bool" and known :: "'s \<Rightarrow> 'a \<Rightarrow> bool" and addr :: "'s \<Rightarrow> 'a \<Rightarrow> bool"
    and fits :: "'b \<Rightarrow> bool" and z :: 'b and content :: "'s \<Rightarrow> 'a \<Rightarrow> 'b"
    and rd :: "'a \<Rightarrow> 's \<Rightarrow> (mcsos_blk_status \<times> 'b) \<times> 's" and wr :: "'a \<Rightarrow> 'b \<Rightarrow> 's \<Rightarrow> mcsos_blk_status \<times> 's"
  assumes rd_good: "good s \<Longrightarrow> known s a \<Longrightarrow> good (snd (rd a s))"
    and rd_addr: "good s \<Longrightarrow> known s a \<Longrightarrow> addr (snd (rd a s)) = addr s"
    and rd_known: "good s \<Longrightarrow> known s a \<Longrightarrow> known (snd (rd a s)) = known s"
    and rd_result: "good s \<Longrightarrow> known s a \<Longrightarrow>
      fst (rd a s) = (if addr s a then (MCSOS_BLK_OK, content s a) else (MCSOS_BLK_ERANGE, z))"
    and rd_content: "good s \<Longrightarrow> known s a \<Longrightarrow> addr s a' \<Longrightarrow> content (snd (rd a s)) a' = content s a'"
    and wr_good: "good s \<Longrightarrow> addr s a \<Longrightarrow> fits b \<Longrightarrow> good (snd (wr a b s))"
    and wr_addr: "good s \<Longrightarrow> addr s a \<Longrightarrow> fits b \<Longrightarrow> addr (snd (wr a b s)) = addr s"
    and wr_known: "good s \<Longrightarrow> addr s a \<Longrightarrow> fits b \<Longrightarrow> known (snd (wr a b s)) = known s"
    and wr_result: "good s \<Longrightarrow> addr s a \<Longrightarrow> fits b \<Longrightarrow> fst (wr a b s) = MCSOS_BLK_OK"
    and wr_content: "good s \<Longrightarrow> addr s a \<Longrightarrow> fits b \<Longrightarrow> addr s a' \<Longrightarrow>
      content (snd (wr a b s)) a' = (if a' = a then b else content s a')"

text \<open>
  Running a list of operations on a store, and on the plain function it stands for. The output has the
  status of every operation, and for a read the caller's buffer.
\<close>

primrec blk_run ::
  "('a \<Rightarrow> 's \<Rightarrow> (mcsos_blk_status \<times> 'b) \<times> 's) \<Rightarrow> ('a \<Rightarrow> 'b \<Rightarrow> 's \<Rightarrow> mcsos_blk_status \<times> 's) \<Rightarrow>
   ('a, 'b) blk_op list \<Rightarrow> 's \<Rightarrow> (mcsos_blk_status \<times> 'b option) list \<times> 's" where
  "blk_run rd wr [] s = ([], s)"
| "blk_run rd wr (p # ps) s = (case p of
     Blk_read a \<Rightarrow> (let ((st, b), s) = rd a s; (out, s) = blk_run rd wr ps s in ((st, Some b) # out, s))
   | Blk_write a b \<Rightarrow> (let (st, s) = wr a b s; (out, s) = blk_run rd wr ps s in ((st, None) # out, s)))"

definition op_ok :: "('a \<Rightarrow> bool) \<Rightarrow> ('a \<Rightarrow> bool) \<Rightarrow> ('b \<Rightarrow> bool) \<Rightarrow> ('a, 'b) blk_op \<Rightarrow> bool" where
  "op_ok known addr fits p \<longleftrightarrow> (case p of Blk_read a \<Rightarrow> known a | Blk_write a b \<Rightarrow> addr a \<and> fits b)"

text \<open>The plain function: a read returns the last value written.\<close>

definition map_rd :: "('a \<Rightarrow> bool) \<Rightarrow> 'b \<Rightarrow> 'a \<Rightarrow> ('a \<Rightarrow> 'b) \<Rightarrow> (mcsos_blk_status \<times> 'b) \<times> ('a \<Rightarrow> 'b)" where
  "map_rd addr z a f = (if addr a then (MCSOS_BLK_OK, f a) else (MCSOS_BLK_ERANGE, z), f)"

definition map_wr :: "'a \<Rightarrow> 'b \<Rightarrow> ('a \<Rightarrow> 'b) \<Rightarrow> mcsos_blk_status \<times> ('a \<Rightarrow> 'b)" where
  "map_wr a b f = (MCSOS_BLK_OK, f(a := b))"

context block_store
begin

lemma run_refines:
  assumes "good s" and "\<forall>p \<in> set ps. op_ok (known s) (addr s) fits p"
    and "\<And>a. addr s a \<Longrightarrow> content s a = f a"
  shows "fst (blk_run rd wr ps s) = fst (blk_run (map_rd (addr s) z) map_wr ps f) \<and>
    good (snd (blk_run rd wr ps s)) \<and> addr (snd (blk_run rd wr ps s)) = addr s \<and>
    (\<forall>a. addr s a \<longrightarrow> content (snd (blk_run rd wr ps s)) a = snd (blk_run (map_rd (addr s) z) map_wr ps f) a)"
  using assms
proof (induction ps arbitrary: s f)
  case (Cons p ps)
  show ?case
  proof (cases p)
    case (Blk_read a)
    then have a: "known s a"
      using Cons.prems(2) by (simp add: op_ok_def)
    obtain st b s' where rd: "rd a s = ((st, b), s')"
      by (metis prod.exhaust)
    have s': "good s'" "addr s' = addr s" "known s' = known s"
      "(st, b) = (if addr s a then (MCSOS_BLK_OK, f a) else (MCSOS_BLK_ERANGE, z))"
      using rd_good [OF Cons.prems(1) a] rd_addr [OF Cons.prems(1) a] rd_known [OF Cons.prems(1) a]
        rd_result [OF Cons.prems(1) a] Cons.prems(3) [of a] rd by auto
    have "content s' a' = f a'" if "addr s' a'" for a'
      using rd_content [OF Cons.prems(1) a] Cons.prems(3) that s'(2) rd by simp
    then show ?thesis
      using Cons.IH [of s' f] Cons.prems(2) s' Blk_read rd
      by (auto simp: map_rd_def split_beta Let_def)
  next
    case (Blk_write a b)
    then have a: "addr s a" "fits b"
      using Cons.prems(2) by (simp_all add: op_ok_def)
    obtain st s' where wr: "wr a b s = (st, s')"
      by (metis prod.exhaust)
    have s': "good s'" "addr s' = addr s" "known s' = known s" "st = MCSOS_BLK_OK"
      using wr_good [OF Cons.prems(1) a] wr_addr [OF Cons.prems(1) a] wr_known [OF Cons.prems(1) a]
        wr_result [OF Cons.prems(1) a] wr by simp_all
    have cont: "content s' a' = (f(a := b)) a'" if "addr s' a'" for a'
      using wr_content [OF Cons.prems(1) a] Cons.prems(3) that s'(2) wr by simp
    have ops: "\<forall>p \<in> set ps. op_ok (known s') (addr s') fits p"
      using Cons.prems(2) s'(2,3) by simp
    have f: "map_wr a b f = (MCSOS_BLK_OK, f(a := b))"
      by (simp add: map_wr_def)
    show ?thesis
      using Cons.IH [OF s'(1) ops cont] s'(2,4) unfolding Blk_write
      by (simp add: wr f split_beta Let_def del: fun_upd_apply)
  qed
qed simp

end

end
