(* ===== verification/Bcache.thy ===== *)
theory Bcache
  imports Block
begin

text \<open>
  The block cache: \<^verbatim>\<open>src/kernel/block/bcache.c\<close>. An entry's \<^verbatim>\<open>data\<close> pointer leads to its own slice of
  the data pool, so an entry carries the bytes of its slice. The cache sits in front of the block
  layer of theory \<^verbatim>\<open>Block\<close> and writes dirty entries back when they are evicted or flushed.
\<close>

section \<open>Data\<close>

record mcsos_bcache_entry =
  e_data :: bytes
  e_capacity :: u32
  e_lba :: u64
  e_valid :: bool
  e_dirty :: bool
  e_dev :: u64

record mcsos_bcache =
  bc_entries :: "mcsos_bcache_entry list"
  bc_entry_count :: u32
  bc_block_size :: u32
  bc_clock_hand :: u64

section \<open>Operations\<close>

definition mcsos_memcpy_u8_bcache :: "bytes \<Rightarrow> bytes \<Rightarrow> u64 \<Rightarrow> bytes" where
  "mcsos_memcpy_u8_bcache dst src n = copy_loop dst 0 src 0 (unat n)"

definition entry_matches :: "mcsos_bcache \<Rightarrow> u64 \<Rightarrow> u64 \<Rightarrow> nat \<Rightarrow> bool" where
  "entry_matches cache dev lba i \<longleftrightarrow> (let e = bc_entries cache ! i in
     e_valid e \<and> e_dev e = dev \<and> e_lba e = lba)"

definition mcsos_bcache_find :: "mcsos_bcache \<Rightarrow> u64 \<Rightarrow> u64 \<Rightarrow> nat option" where
  "mcsos_bcache_find cache dev lba = find (entry_matches cache dev lba) [0..<unat (bc_entry_count cache)]"

definition upd_entry :: "nat \<Rightarrow> (mcsos_bcache_entry \<Rightarrow> mcsos_bcache_entry) \<Rightarrow> mcsos_bcache \<Rightarrow> mcsos_bcache" where
  "upd_entry i f cache = cache\<lparr>bc_entries := (bc_entries cache)[i := f (bc_entries cache ! i)]\<rparr>"

definition mcsos_bcache_flush_entry ::
  "nat \<Rightarrow> mcsos_bcache \<Rightarrow> blk_mem \<Rightarrow> mcsos_blk_status \<times> mcsos_bcache \<times> blk_mem" where
  "mcsos_bcache_flush_entry i cache w =
    (let e = bc_entries cache ! i in
     if \<not> e_valid e \<or> \<not> e_dirty e then (MCSOS_BLK_OK, cache, w)
     else
       let (st, _, w) = mcsos_blk_write (e_dev e) (e_lba e) 1 (Some (e_data e)) w in
       if st \<noteq> MCSOS_BLK_OK then (st, cache, w)
       else (MCSOS_BLK_OK, upd_entry i (\<lambda>e. e\<lparr>e_dirty := False\<rparr>) cache, w))"

definition mcsos_bcache_select_victim ::
  "mcsos_bcache \<Rightarrow> blk_mem \<Rightarrow> mcsos_blk_status \<times> nat option \<times> mcsos_bcache \<times> blk_mem" where
  "mcsos_bcache_select_victim cache w =
    (if bc_entry_count cache = 0 then (MCSOS_BLK_EINVAL, None, cache, w)
     else
       let n = bc_entry_count cache;
           start = ucast (bc_clock_hand cache mod ucast n) :: u32;
           slot = (\<lambda>pass. unat ((start + of_nat pass) mod n)) in
       case find (\<lambda>pass. \<not> e_valid (bc_entries cache ! slot pass)) [0..<unat n] of
         Some pass \<Rightarrow> (MCSOS_BLK_OK, Some (slot pass),
           cache\<lparr>bc_clock_hand := ucast ((of_nat (slot pass) :: u32) + 1)\<rparr>, w)
       | None \<Rightarrow>
           let cache = cache\<lparr>bc_clock_hand := ucast (start + 1)\<rparr>;
               (st, cache, w) = mcsos_bcache_flush_entry (unat start) cache w in
           if st \<noteq> MCSOS_BLK_OK then (st, None, cache, w)
           else (MCSOS_BLK_OK, Some (unat start), cache, w))"

definition mcsos_bcache_init ::
  "mcsos_bcache option \<Rightarrow> mcsos_bcache_entry list option \<Rightarrow> u32 \<Rightarrow> bytes option \<Rightarrow> u32 \<Rightarrow>
   mcsos_blk_status \<times> mcsos_bcache option" where
  "mcsos_bcache_init cache entries entry_count data_pool block_size =
    (case (cache, entries, data_pool) of
       (Some c, Some es, Some pool) \<Rightarrow>
         if entry_count = 0 \<or> block_size = 0 then (MCSOS_BLK_EINVAL, Some c)
         else (MCSOS_BLK_OK, Some
           (c\<lparr>bc_entries := map (\<lambda>i.
                \<lparr>e_data = slice (i * unat block_size) (unat block_size) pool, e_capacity = block_size,
                 e_lba = 0, e_valid = False, e_dirty = False, e_dev = 0\<rparr>) [0..<unat entry_count],
              bc_entry_count := entry_count, bc_block_size := block_size, bc_clock_hand := 0\<rparr>))
     | _ \<Rightarrow> (MCSOS_BLK_EINVAL, cache))"

definition mcsos_bcache_read ::
  "mcsos_bcache option \<Rightarrow> u64 \<Rightarrow> u64 \<Rightarrow> bytes option \<Rightarrow> blk_mem \<Rightarrow>
   mcsos_blk_status \<times> bytes option \<times> mcsos_bcache option \<times> blk_mem" where
  "mcsos_bcache_read cache dev lba buffer w = (case (cache, buffer) of
     (Some c, Some buf) \<Rightarrow>
       if dev = 0 \<or> bc_block_size c \<noteq> dev_block_size (devs w dev)
       then (MCSOS_BLK_EINVAL, buffer, cache, w)
       else
         let deliver = (\<lambda>i c w. (MCSOS_BLK_OK,
               Some (mcsos_memcpy_u8_bcache buf (e_data (bc_entries c ! i)) (ucast (bc_block_size c))),
               Some c, w)) in
         (case mcsos_bcache_find c dev lba of
            Some i \<Rightarrow> deliver i c w
          | None \<Rightarrow>
              (case mcsos_bcache_select_victim c w of
                 (st, Some i, c, w) \<Rightarrow>
                   (let (st, data, w) = mcsos_blk_read dev lba 1 (Some (e_data (bc_entries c ! i))) w in
                    if st \<noteq> MCSOS_BLK_OK
                    then (st, buffer, Some (upd_entry i (\<lambda>e. e\<lparr>e_valid := False\<rparr>) c), w)
                    else deliver i (upd_entry i (\<lambda>e. e\<lparr>e_data := the data, e_dev := dev, e_lba := lba,
                       e_valid := True, e_dirty := False\<rparr>) c) w)
               | (st, None, c, w) \<Rightarrow> (st, buffer, Some c, w)))
   | _ \<Rightarrow> (MCSOS_BLK_EINVAL, buffer, cache, w))"

definition mcsos_bcache_write ::
  "mcsos_bcache option \<Rightarrow> u64 \<Rightarrow> u64 \<Rightarrow> bytes option \<Rightarrow> blk_mem \<Rightarrow>
   mcsos_blk_status \<times> mcsos_bcache option \<times> blk_mem" where
  "mcsos_bcache_write cache dev lba buffer w = (case (cache, buffer) of
     (Some c, Some buf) \<Rightarrow>
       if dev = 0 \<or> bc_block_size c \<noteq> dev_block_size (devs w dev) then (MCSOS_BLK_EINVAL, cache, w)
       else
         let store = (\<lambda>i c w. (MCSOS_BLK_OK, Some (upd_entry i (\<lambda>e. e\<lparr>e_data :=
               mcsos_memcpy_u8_bcache (e_data e) buf (ucast (bc_block_size c)), e_dirty := True\<rparr>) c), w)) in
         (case mcsos_bcache_find c dev lba of
            Some i \<Rightarrow> store i c w
          | None \<Rightarrow>
              (case mcsos_bcache_select_victim c w of
                 (st, Some i, c, w) \<Rightarrow>
                   store i (upd_entry i (\<lambda>e. e\<lparr>e_dev := dev, e_lba := lba, e_valid := True,
                     e_dirty := False\<rparr>) c) w
               | (st, None, c, w) \<Rightarrow> (st, Some c, w)))
   | _ \<Rightarrow> (MCSOS_BLK_EINVAL, cache, w))"

text \<open>The loop of \<^verbatim>\<open>mcsos_bcache_flush_all\<close> over the entries from \<open>i\<close> on.\<close>

fun flush_from :: "nat list \<Rightarrow> mcsos_bcache \<Rightarrow> blk_mem \<Rightarrow> mcsos_blk_status \<times> mcsos_bcache \<times> blk_mem" where
  "flush_from [] cache w = (MCSOS_BLK_OK, cache, w)"
| "flush_from (i # is) cache w =
     (let (st, cache, w) = mcsos_bcache_flush_entry i cache w in
      if st \<noteq> MCSOS_BLK_OK then (st, cache, w) else flush_from is cache w)"

definition mcsos_bcache_flush_all ::
  "mcsos_bcache option \<Rightarrow> blk_mem \<Rightarrow> mcsos_blk_status \<times> mcsos_bcache option \<times> blk_mem" where
  "mcsos_bcache_flush_all cache w = (case cache of
     None \<Rightarrow> (MCSOS_BLK_EINVAL, None, w)
   | Some c \<Rightarrow> (let (st, c, w) = flush_from [0..<unat (bc_entry_count c)] c w in (st, Some c, w)))"

section \<open>The invariant and the view\<close>

text \<open>The blocks the cache can hold: those of RAM disks whose block size is the cache's.\<close>

definition cacheable :: "u32 \<Rightarrow> blk_mem \<Rightarrow> u64 \<times> u64 \<Rightarrow> bool" where
  "cacheable bsize w a \<longleftrightarrow> ram_dev w (fst a) \<and> dev_block_size (devs w (fst a)) = bsize \<and>
     in_range w (fst a) (snd a) 1"

abbreviation entry :: "mcsos_bcache \<Rightarrow> nat \<Rightarrow> mcsos_bcache_entry" where
  "entry c i \<equiv> bc_entries c ! i"

abbreviation key :: "mcsos_bcache_entry \<Rightarrow> u64 \<times> u64" where
  "key e \<equiv> (e_dev e, e_lba e)"

definition entry_wf :: "u32 \<Rightarrow> blk_mem \<Rightarrow> mcsos_bcache_entry \<Rightarrow> bool" where
  "entry_wf bsize w e \<longleftrightarrow> length (e_data e) = unat bsize \<and>
     (e_valid e \<longrightarrow> cacheable bsize w (key e)) \<and>
     (e_valid e \<longrightarrow> \<not> e_dirty e \<longrightarrow> e_data e = disk_block w (e_dev e) (e_lba e))"

definition bcache_wf :: "mcsos_bcache \<Rightarrow> blk_mem \<Rightarrow> bool" where
  "bcache_wf c w \<longleftrightarrow> length (bc_entries c) = unat (bc_entry_count c) \<and> bc_entry_count c \<noteq> 0 \<and>
     (\<forall>d d'. ram_dev w d \<longrightarrow> ram_dev w d' \<longrightarrow>
        dev_driver_data (devs w d) = dev_driver_data (devs w d') \<longrightarrow> d = d') \<and>
     (\<forall>i < length (bc_entries c). entry_wf (bc_block_size c) w (entry c i)) \<and>
     (\<forall>i < length (bc_entries c). \<forall>j < length (bc_entries c). e_valid (entry c i) \<longrightarrow>
        e_valid (entry c j) \<longrightarrow> key (entry c i) = key (entry c j) \<longrightarrow> i = j)"

text \<open>What a client of the cache sees at an address: the cached bytes, else those on disk.\<close>

definition view :: "mcsos_bcache \<Rightarrow> blk_mem \<Rightarrow> u64 \<times> u64 \<Rightarrow> bytes" where
  "view c w a = (case mcsos_bcache_find c (fst a) (snd a) of
     Some i \<Rightarrow> e_data (entry c i) | None \<Rightarrow> disk_block w (fst a) (snd a))"

lemma bcache_wfD:
  assumes "bcache_wf c w"
  shows "length (bc_entries c) = unat (bc_entry_count c)" "bc_entry_count c \<noteq> 0"
    and "i < length (bc_entries c) \<Longrightarrow> entry_wf (bc_block_size c) w (entry c i)"
    and "i < length (bc_entries c) \<Longrightarrow> j < length (bc_entries c) \<Longrightarrow> e_valid (entry c i) \<Longrightarrow>
      e_valid (entry c j) \<Longrightarrow> key (entry c i) = key (entry c j) \<Longrightarrow> i = j"
    and "ram_dev w d \<Longrightarrow> ram_dev w d' \<Longrightarrow>
      dev_driver_data (devs w d) = dev_driver_data (devs w d') \<Longrightarrow> d = d'"
  using assms unfolding bcache_wf_def by blast+

lemma matches_iff:
  "entry_matches c dev lba i \<longleftrightarrow> e_valid (entry c i) \<and> key (entry c i) = (dev, lba)"
  by (auto simp: entry_matches_def Let_def)

lemma find_Some:
  assumes "bcache_wf c w"
  shows "mcsos_bcache_find c dev lba = Some i \<longleftrightarrow>
    i < length (bc_entries c) \<and> e_valid (entry c i) \<and> key (entry c i) = (dev, lba)"
proof
  assume "mcsos_bcache_find c dev lba = Some i"
  then show "i < length (bc_entries c) \<and> e_valid (entry c i) \<and> key (entry c i) = (dev, lba)"
    using bcache_wfD(1) [OF assms] by (simp add: mcsos_bcache_find_def find_upt_Some matches_iff)
next
  assume i: "i < length (bc_entries c) \<and> e_valid (entry c i) \<and> key (entry c i) = (dev, lba)"
  have "\<not> entry_matches c dev lba j" if "j < i" for j
    using bcache_wfD(4) [OF assms, of j i] i that unfolding matches_iff by auto
  then show "mcsos_bcache_find c dev lba = Some i"
    using i bcache_wfD(1) [OF assms] by (auto simp: mcsos_bcache_find_def find_upt_Some matches_iff)
qed

lemma view_cached:
  "bcache_wf c w \<Longrightarrow> i < length (bc_entries c) \<Longrightarrow> e_valid (entry c i) \<Longrightarrow>
     view c w (key (entry c i)) = e_data (entry c i)"
  using find_Some [of c w "e_dev (entry c i)" "e_lba (entry c i)" i] by (simp add: view_def)

lemma view_uncached:
  assumes "bcache_wf c w"
    and "\<And>i. i < length (bc_entries c) \<Longrightarrow> e_valid (entry c i) \<Longrightarrow> key (entry c i) \<noteq> a"
  shows "view c w a = disk_block w (fst a) (snd a)"
proof -
  have "mcsos_bcache_find c (fst a) (snd a) = None"
    using find_Some [OF assms(1), of "fst a" "snd a"] assms(2)
    by (cases "mcsos_bcache_find c (fst a) (snd a)") auto
  then show ?thesis
    by (simp add: view_def)
qed

text \<open>
  The two changes that entries undergo. Replacing a clean or invalid entry by one for a block that
  is not cached, or storing into the entry of the block itself, changes the view of that block only.
\<close>

lemma replace_entry:
  assumes wf: "bcache_wf c w" and i: "i < length (bc_entries c)"
    and clean: "e_valid (entry c i) \<Longrightarrow> e_dirty (entry c i) \<Longrightarrow> key (entry c i) = key e"
    and e: "entry_wf (bc_block_size c) w e" "e_valid e"
    and uncached: "\<And>j. j < length (bc_entries c) \<Longrightarrow> j \<noteq> i \<Longrightarrow> e_valid (entry c j) \<Longrightarrow>
      key (entry c j) \<noteq> key e"
    and c': "c' = c\<lparr>bc_entries := (bc_entries c)[i := e], bc_clock_hand := hand\<rparr>"
  shows "bcache_wf c' w" and "view c' w = (view c w)(key e := e_data e)"
proof -
  have ent: "entry c' j = (if j = i then e else entry c j)" if "j < length (bc_entries c)" for j
    using that c' by simp
  have len: "length (bc_entries c') = length (bc_entries c)" "bc_block_size c' = bc_block_size c"
    "bc_entry_count c' = bc_entry_count c"
    using c' by simp_all
  show wf': "bcache_wf c' w"
    unfolding bcache_wf_def len
  proof (intro conjI allI impI)
    show "entry_wf (bc_block_size c) w (entry c' j)" if "j < length (bc_entries c)" for j
      using ent [OF that] e bcache_wfD(3) [OF wf that] by simp
    show "j = k" if "j < length (bc_entries c)" "k < length (bc_entries c)" "e_valid (entry c' j)"
      "e_valid (entry c' k)" "key (entry c' j) = key (entry c' k)" for j k
      using that uncached [of j] uncached [of k] bcache_wfD(4) [OF wf that(1,2)] ent [OF that(1)] ent [OF that(2)]
      by (cases "j = i"; cases "k = i") auto
  qed (use bcache_wfD [OF wf] in auto)
  show "view c' w = (view c w)(key e := e_data e)"
  proof
    fix a
    consider "a = key e" | j where "a \<noteq> key e" "j < length (bc_entries c)" "j \<noteq> i" "e_valid (entry c j)"
        "a = key (entry c j)"
      | "a \<noteq> key e" "\<And>j. j < length (bc_entries c) \<Longrightarrow> j \<noteq> i \<Longrightarrow> e_valid (entry c j) \<Longrightarrow> a \<noteq> key (entry c j)"
      by blast
    then show "view c' w a = ((view c w)(key e := e_data e)) a"
    proof cases
      case 1
      then show ?thesis
        using view_cached [OF wf', of i] ent [OF i] i e(2) len by simp
    next
      case (2 j)
      then show ?thesis
        using view_cached [OF wf', of j] view_cached [OF wf, of j] ent [OF 2(2)] len by auto
    next
      case 3
      have new: "view c' w a = disk_block w (fst a) (snd a)"
        using 3 ent len by (intro view_uncached [OF wf']) (auto split: if_splits)
      show ?thesis
      proof (cases "e_valid (entry c i) \<and> key (entry c i) = a")
        case True
        then have "e_data (entry c i) = disk_block w (fst a) (snd a)"
          using bcache_wfD(3) [OF wf i] clean 3(1) by (auto simp: entry_wf_def)
        then show ?thesis
          using new view_cached [OF wf i] True 3(1) by simp
      next
        case False
        then have "view c w a = disk_block w (fst a) (snd a)"
          using 3(2) by (intro view_uncached [OF wf]) metis
        then show ?thesis
          using new 3(1) by simp
      qed
    qed
  qed
qed

text \<open>Dropping a clean entry does not change the view.\<close>

lemma drop_entry:
  assumes wf: "bcache_wf c w" and i: "i < length (bc_entries c)"
    and clean: "\<not> (e_valid (entry c i) \<and> e_dirty (entry c i))"
    and c': "c' = upd_entry i (\<lambda>e. e\<lparr>e_valid := False\<rparr>) c"
  shows "bcache_wf c' w" and "view c' w = view c w"
proof -
  have ent: "entry c' j = (if j = i then (entry c i)\<lparr>e_valid := False\<rparr> else entry c j)"
    if "j < length (bc_entries c)" for j
    using that c' by (simp add: upd_entry_def)
  have len: "length (bc_entries c') = length (bc_entries c)" "bc_block_size c' = bc_block_size c"
    "bc_entry_count c' = bc_entry_count c"
    using c' by (simp_all add: upd_entry_def)
  show wf': "bcache_wf c' w"
    unfolding bcache_wf_def len
  proof (intro conjI allI impI)
    show "entry_wf (bc_block_size c) w (entry c' j)" if "j < length (bc_entries c)" for j
      using ent [OF that] bcache_wfD(3) [OF wf that] by (auto simp: entry_wf_def)
    show "j = k" if "j < length (bc_entries c)" "k < length (bc_entries c)" "e_valid (entry c' j)"
      "e_valid (entry c' k)" "key (entry c' j) = key (entry c' k)" for j k
      using that bcache_wfD(4) [OF wf that(1,2)] ent [OF that(1)] ent [OF that(2)] by (auto split: if_splits)
  qed (use bcache_wfD [OF wf] in auto)
  show "view c' w = view c w"
  proof
    fix a
    show "view c' w a = view c w a"
    proof (cases "\<exists>j < length (bc_entries c). j \<noteq> i \<and> e_valid (entry c j) \<and> a = key (entry c j)")
      case True
      then show ?thesis
        using view_cached [OF wf'] view_cached [OF wf] ent len by metis
    next
      case False
      then have new: "view c' w a = disk_block w (fst a) (snd a)"
        using ent len by (intro view_uncached [OF wf']) (auto split: if_splits)
      show ?thesis
      proof (cases "e_valid (entry c i) \<and> a = key (entry c i)")
        case True
        then show ?thesis
          using new view_cached [OF wf i] bcache_wfD(3) [OF wf i] clean by (auto simp: entry_wf_def)
      next
        case False': False
        then have "view c w a = disk_block w (fst a) (snd a)"
          using False by (intro view_uncached [OF wf]) metis
        then show ?thesis
          using new by simp
      qed
    qed
  qed
qed

text \<open>A write of one cacheable block to its disk.\<close>

lemma write_block:
  assumes a: "cacheable bsize w (d, l)" and len: "length data = unat bsize"
    and inj: "\<And>d d'. ram_dev w d \<Longrightarrow> ram_dev w d' \<Longrightarrow>
      dev_driver_data (devs w d) = dev_driver_data (devs w d') \<Longrightarrow> d = d'"
  shows "\<exists>w'. mcsos_blk_write d l 1 (Some data) w = (MCSOS_BLK_OK, Some data, w') \<and>
    devs w' = devs w \<and> (\<forall>x. ram_dev w' x = ram_dev w x) \<and>
    (\<forall>x b. cacheable b w x \<longrightarrow>
      disk_block w' (fst x) (snd x) = (if x = (d, l) then data else disk_block w (fst x) (snd x)))"
proof -
  let ?w = "set_disk w d (copy_loop (disk_of w d) (unat l * block_size_of w d) data 0 (1 * block_size_of w d))"
  have rd: "ram_dev w d" and r: "in_range w d l 1" and bs: "block_size_of w d = unat bsize"
    using a by (auto simp: cacheable_def)
  have "mcsos_blk_write d l 1 (Some data) w = (MCSOS_BLK_OK, Some data, ?w)"
    using blk_write_spec [OF rd, of 1 l data] r by simp
  moreover have "ram_dev ?w x = ram_dev w x" for x
    by (rule ram_dev_set_disk) simp
  moreover have "disk_block ?w (fst x) (snd x) = (if x = (d, l) then data else disk_block w (fst x) (snd x))"
    if "cacheable bsize' w x" for x bsize'
  proof -
    have x: "ram_dev w (fst x)" "in_range w (fst x) (snd x) 1"
      using that by (auto simp: cacheable_def)
    have "unat l \<le> unat (snd x) \<and> unat (snd x) < unat l + 1 \<longleftrightarrow> snd x = l"
      by (auto simp: word_unat_eq_iff)
    moreover have "slice 0 (unat bsize) data = data"
      using len by (simp add: slice_def)
    ultimately show ?thesis
      using disk_block_after_write [OF rd x(1) r _ x(2), of data] inj [OF x(1) rd] len bs
      by (cases x) auto
  qed
  ultimately show ?thesis
    by (intro exI [of _ ?w]) simp
qed

text \<open>
  What every cache operation keeps: the devices, and the view of every cacheable block.
\<close>

definition same_view :: "mcsos_bcache \<Rightarrow> blk_mem \<Rightarrow> mcsos_bcache \<Rightarrow> blk_mem \<Rightarrow> bool" where
  "same_view c w c' w' \<longleftrightarrow> devs w' = devs w \<and> (\<forall>x. ram_dev w' x = ram_dev w x) \<and>
     bc_block_size c' = bc_block_size c \<and> bc_entry_count c' = bc_entry_count c \<and>
     (\<forall>a. cacheable (bc_block_size c) w a \<longrightarrow> view c' w' a = view c w a)"

lemma same_view_refl [simp]: "same_view c w c w"
  by (simp add: same_view_def)

lemma same_view_cacheable: "same_view c w c' w' \<Longrightarrow> cacheable b w' a = cacheable b w a"
  by (simp add: same_view_def cacheable_def in_range_def)

lemma same_view_trans:
  "same_view c w c' w' \<Longrightarrow> same_view c' w' c'' w'' \<Longrightarrow> same_view c w c'' w''"
  using same_view_cacheable [of c w c' w'] by (simp add: same_view_def)

lemma flush_entry_keeps:
  assumes wf: "bcache_wf c w" and i: "i < length (bc_entries c)"
    and res: "mcsos_bcache_flush_entry i c w = (st, c', w')"
  shows "st = MCSOS_BLK_OK" and "bcache_wf c' w'" and "same_view c w c' w'"
    and "c' = c \<or> c' = upd_entry i (\<lambda>e. e\<lparr>e_dirty := False\<rparr>) c"
    and "\<not> (e_valid (entry c' i) \<and> e_dirty (entry c' i))"
proof -
  let ?goal = "st = MCSOS_BLK_OK \<and> bcache_wf c' w' \<and> same_view c w c' w' \<and>
    (c' = c \<or> c' = upd_entry i (\<lambda>e. e\<lparr>e_dirty := False\<rparr>) c) \<and>
    \<not> (e_valid (entry c' i) \<and> e_dirty (entry c' i))"
  have ?goal
  proof (cases "e_valid (entry c i) \<and> e_dirty (entry c i)")
    case False
    then have "st = MCSOS_BLK_OK" "c' = c" "w' = w"
      using res by (auto simp: mcsos_bcache_flush_entry_def Let_def)
    then show ?thesis
      using wf False by simp
  next
    case True
    let ?e = "entry c i"
    have e: "cacheable (bc_block_size c) w (key ?e)" "length (e_data ?e) = unat (bc_block_size c)"
      using bcache_wfD(3) [OF wf i] True by (auto simp: entry_wf_def)
    obtain w1 where w1: "mcsos_blk_write (e_dev ?e) (e_lba ?e) 1 (Some (e_data ?e)) w =
        (MCSOS_BLK_OK, Some (e_data ?e), w1)" "devs w1 = devs w" "\<forall>x. ram_dev w1 x = ram_dev w x"
      and blk': "\<forall>x b. cacheable b w x \<longrightarrow> disk_block w1 (fst x) (snd x) =
        (if x = key ?e then e_data ?e else disk_block w (fst x) (snd x))"
      using write_block [OF e bcache_wfD(5) [OF wf]] by blast
    note blk = blk' [rule_format]
    have r: "st = MCSOS_BLK_OK" "w' = w1" "c' = upd_entry i (\<lambda>e. e\<lparr>e_dirty := False\<rparr>) c"
      using res True w1(1) by (auto simp: mcsos_bcache_flush_entry_def Let_def)
    have ent: "entry c' j = (if j = i then ?e\<lparr>e_dirty := False\<rparr> else entry c j)"
      if "j < length (bc_entries c)" for j
      using that r by (simp add: upd_entry_def)
    have len: "length (bc_entries c') = length (bc_entries c)" "bc_block_size c' = bc_block_size c"
      "bc_entry_count c' = bc_entry_count c"
      using r by (simp_all add: upd_entry_def)
    have same: "e_valid (entry c' j) = e_valid (entry c j)" "key (entry c' j) = key (entry c j)"
      "e_data (entry c' j) = e_data (entry c j)" if "j < length (bc_entries c)" for j
      using ent [OF that] by simp_all
    have cach: "cacheable b w' a = cacheable b w a" for a b
      using w1 r by (simp add: cacheable_def in_range_def)
    have "entry_wf (bc_block_size c) w' (entry c' j)" if j: "j < length (bc_entries c)" for j
    proof -
      have "key (entry c j) = key ?e \<longrightarrow> j = i" if "e_valid (entry c j)"
        using bcache_wfD(4) [OF wf j i that] True by blast
      then show ?thesis
        using bcache_wfD(3) [OF wf j] ent [OF j] blk [of "bc_block_size c" "key (entry c j)"] e r True
        unfolding entry_wf_def cach by auto
    qed
    moreover have "j = k" if "j < length (bc_entries c)" "k < length (bc_entries c)" "e_valid (entry c' j)"
      "e_valid (entry c' k)" "key (entry c' j) = key (entry c' k)" for j k
      using that(3-5) bcache_wfD(4) [OF wf that(1,2)] unfolding same [OF that(1)] same [OF that(2)] by blast
    ultimately have wf': "bcache_wf c' w'"
      using bcache_wfD(1,2,5) [OF wf] w1 r(2) unfolding bcache_wf_def len by metis
    have "view c' w' a = view c w a" if a: "cacheable (bc_block_size c) w a" for a
    proof (cases "\<exists>j < length (bc_entries c). e_valid (entry c j) \<and> a = key (entry c j)")
      case True
      then obtain j where j: "j < length (bc_entries c)" "e_valid (entry c j)" "a = key (entry c j)"
        by blast
      then show ?thesis
        using view_cached [OF wf', of j] view_cached [OF wf, of j] same [OF j(1)] len by simp
    next
      case False
      then have "view c w a = disk_block w (fst a) (snd a)" "view c' w' a = disk_block w' (fst a) (snd a)"
        using same len by (auto intro!: view_uncached [OF wf] view_uncached [OF wf'])
      moreover have "a \<noteq> key ?e"
        using False i True by blast
      ultimately show ?thesis
        using blk [OF a] r(2) by simp
    qed
    then show ?thesis
      using r w1 wf' len ent [OF i] by (simp add: same_view_def)
  qed
  then show "st = MCSOS_BLK_OK" "bcache_wf c' w'" "same_view c w c' w'"
    "c' = c \<or> c' = upd_entry i (\<lambda>e. e\<lparr>e_dirty := False\<rparr>) c"
    "\<not> (e_valid (entry c' i) \<and> e_dirty (entry c' i))"
    by blast+
qed

lemma clock_hand_irrelevant [simp]:
  "entry_matches (c\<lparr>bc_clock_hand := h\<rparr>) = entry_matches c"
  "mcsos_bcache_find (c\<lparr>bc_clock_hand := h\<rparr>) = mcsos_bcache_find c"
  "view (c\<lparr>bc_clock_hand := h\<rparr>) w = view c w"
  "bcache_wf (c\<lparr>bc_clock_hand := h\<rparr>) w = bcache_wf c w"
proof -
  show m: "entry_matches (c\<lparr>bc_clock_hand := h\<rparr>) = entry_matches c"
    by (simp add: fun_eq_iff entry_matches_def)
  show "mcsos_bcache_find (c\<lparr>bc_clock_hand := h\<rparr>) = mcsos_bcache_find c"
    unfolding mcsos_bcache_find_def m by simp
  then show "view (c\<lparr>bc_clock_hand := h\<rparr>) w = view c w"
    unfolding view_def by (simp add: fun_eq_iff split: option.splits)
qed (simp add: bcache_wf_def)

lemma unat_slot: "(n :: u32) \<noteq> 0 \<Longrightarrow> unat (x mod n) < unat n"
  by (simp add: unat_mod unat_gt_0)

lemma unat_start: "(n :: u32) \<noteq> 0 \<Longrightarrow> unat (ucast (x mod ucast n :: u64) :: u32) < unat n"
proof -
  assume "n \<noteq> 0"
  then have lt: "unat (x mod ucast n :: u64) < unat n"
    by (simp add: unat_mod unat_gt_0)
  have "unat (ucast (x mod ucast n :: u64) :: u32) \<le> unat (x mod ucast n :: u64)"
    by (simp add: unsigned_ucast_eq take_bit_nat_less_eq_self)
  with lt show ?thesis
    by linarith
qed

text \<open>Choosing a victim writes it back if it is dirty; the chosen entry can be reused.\<close>

lemma select_victim_keeps:
  assumes wf: "bcache_wf c w"
  shows "\<exists>i c' w'. mcsos_bcache_select_victim c w = (MCSOS_BLK_OK, Some i, c', w') \<and>
    i < length (bc_entries c') \<and> bcache_wf c' w' \<and> same_view c w c' w' \<and>
    \<not> (e_valid (entry c' i) \<and> e_dirty (entry c' i)) \<and>
    (\<forall>dev lba. mcsos_bcache_find c dev lba = None \<longrightarrow> mcsos_bcache_find c' dev lba = None)"
proof -
  let ?n = "bc_entry_count c"
  let ?start = "ucast (bc_clock_hand c mod ucast ?n) :: u32"
  let ?slot = "\<lambda>pass. unat ((?start + of_nat pass) mod ?n)"
  have n: "?n \<noteq> 0" and len: "length (bc_entries c) = unat ?n"
    using bcache_wfD [OF wf] by auto
  show ?thesis
  proof (cases "find (\<lambda>pass. \<not> e_valid (entry c (?slot pass))) [0..<unat ?n]")
    case (Some pass)
    let ?c = "c\<lparr>bc_clock_hand := ucast ((of_nat (?slot pass) :: u32) + 1)\<rparr>"
    have "\<not> e_valid (entry c (?slot pass))"
      using Some by (simp add: find_upt_Some)
    moreover have "?slot pass < length (bc_entries c)"
      using unat_slot [OF n] len by simp
    moreover have "mcsos_bcache_select_victim c w = (MCSOS_BLK_OK, Some (?slot pass), ?c, w)"
      using n Some by (simp add: mcsos_bcache_select_victim_def Let_def)
    ultimately show ?thesis
      using wf by (intro exI [of _ "?slot pass"] exI [of _ ?c] exI [of _ w]) (simp add: same_view_def)
  next
    case None
    let ?c = "c\<lparr>bc_clock_hand := ucast (?start + 1)\<rparr>"
    obtain st c' w' where f: "mcsos_bcache_flush_entry (unat ?start) ?c w = (st, c', w')"
      using prod_cases3 by blast
    have i: "unat ?start < length (bc_entries ?c)"
      using unat_start [OF n, of "bc_clock_hand c"] len by simp
    have wf1: "bcache_wf ?c w"
      using wf by simp
    note k = flush_entry_keeps [OF wf1 i f]
    have "mcsos_bcache_select_victim c w = (MCSOS_BLK_OK, Some (unat ?start), c', w')"
      using n None f k(1) by (simp add: mcsos_bcache_select_victim_def Let_def)
    moreover have "unat ?start < length (bc_entries c')"
      using i k(4) by (auto simp: upd_entry_def)
    moreover have "same_view c w c' w'"
      using k(3) unfolding same_view_def by simp
    moreover have "mcsos_bcache_find c' dev lba = None" if "mcsos_bcache_find c dev lba = None" for dev lba
      using k(4)
    proof
      assume "c' = ?c"
      then show ?thesis
        using that by simp
    next
      assume c': "c' = upd_entry (unat ?start) (\<lambda>e. e\<lparr>e_dirty := False\<rparr>) ?c"
      have "entry_matches c' dev lba j = entry_matches c dev lba j" if "j < unat ?n" for j
        using that len i unfolding c'
        by (cases "j = unat ?start") (simp_all add: entry_matches_def upd_entry_def Let_def)
      moreover have "bc_entry_count c' = ?n"
        by (simp add: c' upd_entry_def)
      ultimately show ?thesis
        using that by (simp add: mcsos_bcache_find_def find_upt_None)
    qed
    ultimately show ?thesis
      using k(2,5) by blast
  qed
qed

section \<open>Reading, writing, flushing\<close>

lemma memcpy_whole:
  "length dst = unat n \<Longrightarrow> length src = unat n \<Longrightarrow>
     mcsos_memcpy_u8_bcache dst src (ucast (n :: u32)) = src"
  by (simp add: mcsos_memcpy_u8_bcache_def copy_loop_eq)

lemma cacheableD:
  assumes "cacheable bsize w (d, l)"
  shows "ram_dev w d" "d \<noteq> 0" "dev_block_size (devs w d) = bsize" "in_range w d l 1"
  using assms ram_devD(1) by (auto simp: cacheable_def)

text \<open>A fresh entry for an uncached block, in the place of a reusable one.\<close>

lemma fill_entry:
  assumes wf: "bcache_wf c w" and i: "i < length (bc_entries c)"
    and clean: "\<not> (e_valid (entry c i) \<and> e_dirty (entry c i))"
    and none: "mcsos_bcache_find c d l = None"
    and e: "entry_wf (bc_block_size c) w e" "e_valid e" "key e = (d, l)"
    and c': "c' = c\<lparr>bc_entries := (bc_entries c)[i := e]\<rparr>"
  shows "bcache_wf c' w" and "view c' w = (view c w)((d, l) := e_data e)"
proof -
  have "key (entry c j) \<noteq> key e" if "j < length (bc_entries c)" "e_valid (entry c j)" for j
    using none find_Some [OF wf, of d l j] that e(3) by auto
  moreover have "c' = c\<lparr>bc_entries := (bc_entries c)[i := e], bc_clock_hand := bc_clock_hand c\<rparr>"
    using c' by simp
  ultimately show "bcache_wf c' w" "view c' w = (view c w)((d, l) := e_data e)"
    using replace_entry [OF wf i _ e(1,2)] clean e(3) by auto
qed

lemma bcache_read_ok:
  assumes wf: "bcache_wf c w" and a: "cacheable (bc_block_size c) w (d, l)"
    and buf: "length buf = unat (bc_block_size c)"
  shows "\<exists>c' w'. mcsos_bcache_read (Some c) d l (Some buf) w =
      (MCSOS_BLK_OK, Some (view c w (d, l)), Some c', w') \<and> bcache_wf c' w' \<and> same_view c w c' w'"
proof (cases "mcsos_bcache_find c d l")
  case (Some i)
  then have "i < length (bc_entries c)"
    using find_Some [OF wf] by blast
  then have "length (e_data (entry c i)) = unat (bc_block_size c)"
    using bcache_wfD(3) [OF wf] by (simp add: entry_wf_def)
  then have "mcsos_bcache_read (Some c) d l (Some buf) w = (MCSOS_BLK_OK, Some (view c w (d, l)), Some c, w)"
    using Some cacheableD [OF a] buf by (simp add: mcsos_bcache_read_def memcpy_whole view_def)
  then show ?thesis
    using wf by auto
next
  case None
  obtain i c1 w1 where v: "mcsos_bcache_select_victim c w = (MCSOS_BLK_OK, Some i, c1, w1)"
    "i < length (bc_entries c1)" "bcache_wf c1 w1" "same_view c w c1 w1"
    "\<not> (e_valid (entry c1 i) \<and> e_dirty (entry c1 i))" "mcsos_bcache_find c1 d l = None"
    using select_victim_keeps [OF wf] None by blast
  have bs: "bc_block_size c1 = bc_block_size c" "devs w1 = devs w"
    using v(4) by (auto simp: same_view_def)
  have a1: "cacheable (bc_block_size c) w1 (d, l)"
    using a same_view_cacheable [OF v(4)] by simp
  let ?blk = "disk_block w1 d l"
  have dlen: "length (e_data (entry c1 i)) = unat (bc_block_size c)"
    using bcache_wfD(3) [OF v(3,2)] bs by (simp add: entry_wf_def)
  have rd: "mcsos_blk_read d l 1 (Some (e_data (entry c1 i))) w1 = (MCSOS_BLK_OK, Some ?blk, w1)"
    using blk_read_spec [OF cacheableD(1) [OF a1], of 1 l "e_data (entry c1 i)"] cacheableD [OF a1] dlen
    by (simp add: disk_block_def)
  have blen: "length ?blk = unat (bc_block_size c)"
    using block_end [OF cacheableD(1,4) [OF a1]] cacheableD(3) [OF a1] by (simp add: disk_block_def)
  define e where "e = (entry c1 i)\<lparr>e_data := ?blk, e_dev := d, e_lba := l, e_valid := True, e_dirty := False\<rparr>"
  define c2 where "c2 = c1\<lparr>bc_entries := (bc_entries c1)[i := e]\<rparr>"
  have e: "entry_wf (bc_block_size c1) w1 e" "e_valid e" "key e = (d, l)" "e_data e = ?blk"
    using a1 blen bs by (simp_all add: entry_wf_def e_def)
  note f = fill_entry [OF v(3,2,5,6) e(1-3) c2_def]
  have "view c1 w1 (d, l) = ?blk"
    using v(6) by (simp add: view_def)
  then have vw: "view c2 w1 = view c1 w1" "?blk = view c w (d, l)"
    using f(2) e(4) v(4) a by (auto simp: same_view_def)
  have "mcsos_bcache_read (Some c) d l (Some buf) w = (MCSOS_BLK_OK, Some ?blk, Some c2, w1)"
    using None v(1) rd cacheableD(2,3) [OF a] buf blen v(2) bs
    by (simp add: mcsos_bcache_read_def Let_def upd_entry_def c2_def e_def memcpy_whole)
  moreover have "same_view c w c2 w1"
    using v(4) vw(1) by (simp add: same_view_def c2_def)
  ultimately show ?thesis
    using f(1) vw(2) by auto
qed

lemma bcache_write_ok:
  assumes wf: "bcache_wf c w" and a: "cacheable (bc_block_size c) w (d, l)"
    and buf: "length buf = unat (bc_block_size c)"
  shows "\<exists>c' w'. mcsos_bcache_write (Some c) d l (Some buf) w = (MCSOS_BLK_OK, Some c', w') \<and>
      bcache_wf c' w' \<and> devs w' = devs w \<and> (\<forall>x. ram_dev w' x = ram_dev w x) \<and>
      bc_block_size c' = bc_block_size c \<and>
      (\<forall>x. cacheable (bc_block_size c) w x \<longrightarrow> view c' w' x = (if x = (d, l) then buf else view c w x))"
proof (cases "mcsos_bcache_find c d l")
  case (Some i)
  then have i: "i < length (bc_entries c)" "e_valid (entry c i)" "key (entry c i) = (d, l)"
    using find_Some [OF wf] by blast+
  then have dlen: "length (e_data (entry c i)) = unat (bc_block_size c)"
    using bcache_wfD(3) [OF wf] by (simp add: entry_wf_def)
  define e where "e = (entry c i)\<lparr>e_data := buf, e_dirty := True\<rparr>"
  define c2 where "c2 = c\<lparr>bc_entries := (bc_entries c)[i := e], bc_clock_hand := bc_clock_hand c\<rparr>"
  have e: "entry_wf (bc_block_size c) w e" "e_valid e" "key e = (d, l)" "e_data e = buf"
    using a buf i by (simp_all add: entry_wf_def e_def)
  have "key (entry c j) \<noteq> key e" if "j < length (bc_entries c)" "j \<noteq> i" "e_valid (entry c j)" for j
    using bcache_wfD(4) [OF wf that(1) i(1) that(3) i(2)] that(2) i(3) e(3) by auto
  then have r: "bcache_wf c2 w" "view c2 w = (view c w)(key e := e_data e)"
    using replace_entry [OF wf i(1) _ e(1,2) _ c2_def] i(3) e(3) by auto
  have "mcsos_bcache_write (Some c) d l (Some buf) w = (MCSOS_BLK_OK, Some c2, w)"
    using Some cacheableD(2,3) [OF a] buf dlen
    by (simp add: mcsos_bcache_write_def Let_def upd_entry_def c2_def e_def memcpy_whole)
  then show ?thesis
    using r e(3,4) by (intro exI [of _ c2] exI [of _ w]) (simp add: c2_def)
next
  case None
  obtain i c1 w1 where v: "mcsos_bcache_select_victim c w = (MCSOS_BLK_OK, Some i, c1, w1)"
    "i < length (bc_entries c1)" "bcache_wf c1 w1" "same_view c w c1 w1"
    "\<not> (e_valid (entry c1 i) \<and> e_dirty (entry c1 i))" "mcsos_bcache_find c1 d l = None"
    using select_victim_keeps [OF wf] None by blast
  have bs: "bc_block_size c1 = bc_block_size c" "devs w1 = devs w"
    using v(4) by (auto simp: same_view_def)
  have a1: "cacheable (bc_block_size c) w1 (d, l)"
    using a same_view_cacheable [OF v(4)] by simp
  have dlen: "length (e_data (entry c1 i)) = unat (bc_block_size c)"
    using bcache_wfD(3) [OF v(3,2)] bs by (simp add: entry_wf_def)
  define e where "e = (entry c1 i)\<lparr>e_dev := d, e_lba := l, e_valid := True, e_data := buf, e_dirty := True\<rparr>"
  define c2 where "c2 = c1\<lparr>bc_entries := (bc_entries c1)[i := e]\<rparr>"
  have e: "entry_wf (bc_block_size c1) w1 e" "e_valid e" "key e = (d, l)" "e_data e = buf"
    using a1 buf bs by (simp_all add: entry_wf_def e_def)
  note f = fill_entry [OF v(3,2,5,6) e(1-3) c2_def]
  have "mcsos_bcache_write (Some c) d l (Some buf) w = (MCSOS_BLK_OK, Some c2, w1)"
    using None v(1,2) cacheableD(2,3) [OF a] buf dlen bs
    by (simp add: mcsos_bcache_write_def Let_def upd_entry_def c2_def e_def memcpy_whole)
  moreover have "view c2 w1 x = (if x = (d, l) then buf else view c w x)" if "cacheable (bc_block_size c) w x" for x
    using f(2) e(4) v(4) that by (cases x) (simp add: same_view_def)
  ultimately show ?thesis
    using f(1) v(4) bs by (intro exI [of _ c2] exI [of _ w1]) (simp add: same_view_def c2_def)
qed

lemma flush_from_keeps:
  assumes "bcache_wf c w" and "\<forall>i \<in> set is. i < length (bc_entries c)"
  shows "\<exists>c' w'. flush_from is c w = (MCSOS_BLK_OK, c', w') \<and> bcache_wf c' w' \<and> same_view c w c' w' \<and>
    length (bc_entries c') = length (bc_entries c) \<and>
    (\<forall>j < length (bc_entries c). j \<in> set is \<or> \<not> (e_valid (entry c j) \<and> e_dirty (entry c j)) \<longrightarrow>
       \<not> (e_valid (entry c' j) \<and> e_dirty (entry c' j)))"
  using assms
proof (induction "is" arbitrary: c w)
  case (Cons i "is")
  obtain st c1 w1 where f: "mcsos_bcache_flush_entry i c w = (st, c1, w1)"
    using prod_cases3 by blast
  have i: "i < length (bc_entries c)"
    using Cons.prems(2) by simp
  note k = flush_entry_keeps [OF Cons.prems(1) i f]
  have len: "length (bc_entries c1) = length (bc_entries c)"
    using k(4) by (auto simp: upd_entry_def)
  have clean: "\<not> (e_valid (entry c1 j) \<and> e_dirty (entry c1 j))"
    if "j = i \<or> \<not> (e_valid (entry c j) \<and> e_dirty (entry c j))" "j < length (bc_entries c)" for j
    using k(4,5) that by (cases "j = i") (auto simp: upd_entry_def)
  obtain c' w' where r: "flush_from is c1 w1 = (MCSOS_BLK_OK, c', w')" "bcache_wf c' w'" "same_view c1 w1 c' w'"
    "length (bc_entries c') = length (bc_entries c1)"
    "\<forall>j < length (bc_entries c1). j \<in> set is \<or> \<not> (e_valid (entry c1 j) \<and> e_dirty (entry c1 j)) \<longrightarrow>
       \<not> (e_valid (entry c' j) \<and> e_dirty (entry c' j))"
    using Cons.IH [OF k(2)] Cons.prems(2) len by auto
  have "\<not> (e_valid (entry c' j) \<and> e_dirty (entry c' j))"
    if "j < length (bc_entries c)" "j \<in> set (i # is) \<or> \<not> (e_valid (entry c j) \<and> e_dirty (entry c j))" for j
    using r(5) clean [of j] that len by auto
  moreover have "flush_from (i # is) c w = (MCSOS_BLK_OK, c', w')"
    using f k(1) r(1) by simp
  ultimately show ?case
    using r(2,4) same_view_trans [OF k(3) r(3)] len by auto
qed auto

end
