(* ===== verification/Block_Correct.thy ===== *)
theory Block_Correct
  imports Bcache
begin

text \<open>
  Correctness of the block layer: the registry, range-checked access to RAM disks, and the block
  cache, which is shown to be invisible to its clients: both the bare disk and the cached disk
  satisfy the contract \<open>block_store\<close>.
\<close>

section \<open>Disks and cached disks as block storage\<close>

definition disks_distinct :: "blk_mem \<Rightarrow> bool" where
  "disks_distinct w \<longleftrightarrow> (\<forall>d d'. ram_dev w d \<longrightarrow> ram_dev w d' \<longrightarrow>
     dev_driver_data (devs w d) = dev_driver_data (devs w d') \<longrightarrow> d = d')"

definition disk_content :: "blk_mem \<Rightarrow> u64 \<times> u64 \<Rightarrow> bytes" where
  "disk_content w a = disk_block w (fst a) (snd a)"

text \<open>Access to one block through the block layer, and through the cache.\<close>

definition disk_rd :: "u32 \<Rightarrow> u64 \<times> u64 \<Rightarrow> blk_mem \<Rightarrow> (mcsos_blk_status \<times> bytes) \<times> blk_mem" where
  "disk_rd bsize a w = (case mcsos_blk_read (fst a) (snd a) 1 (Some (replicate (unat bsize) 0)) w of
     (st, buf, w') \<Rightarrow> ((st, the buf), w'))"

definition disk_wr :: "u64 \<times> u64 \<Rightarrow> bytes \<Rightarrow> blk_mem \<Rightarrow> mcsos_blk_status \<times> blk_mem" where
  "disk_wr a b w = (case mcsos_blk_write (fst a) (snd a) 1 (Some b) w of (st, _, w') \<Rightarrow> (st, w'))"

definition cache_rd ::
  "u32 \<Rightarrow> u64 \<times> u64 \<Rightarrow> mcsos_bcache \<times> blk_mem \<Rightarrow> (mcsos_blk_status \<times> bytes) \<times> (mcsos_bcache \<times> blk_mem)" where
  "cache_rd bsize a s =
    (case mcsos_bcache_read (Some (fst s)) (fst a) (snd a) (Some (replicate (unat bsize) 0)) (snd s) of
       (st, buf, c', w') \<Rightarrow> ((st, the buf), (the c', w')))"

definition cache_wr ::
  "u64 \<times> u64 \<Rightarrow> bytes \<Rightarrow> mcsos_bcache \<times> blk_mem \<Rightarrow> mcsos_blk_status \<times> (mcsos_bcache \<times> blk_mem)" where
  "cache_wr a b s = (case mcsos_bcache_write (Some (fst s)) (fst a) (snd a) (Some b) (snd s) of
     (st, c', w') \<Rightarrow> (st, (the c', w')))"

text \<open>Blocks of a RAM disk with blocks of the given size, in range or not.\<close>

definition on_disk :: "u32 \<Rightarrow> blk_mem \<Rightarrow> u64 \<times> u64 \<Rightarrow> bool" where
  "on_disk bsize w a \<longleftrightarrow> ram_dev w (fst a) \<and> dev_block_size (devs w (fst a)) = bsize"

lemma on_disk_cacheable: "cacheable bsize w a \<longleftrightarrow> on_disk bsize w a \<and> in_range w (fst a) (snd a) 1"
  by (auto simp: cacheable_def on_disk_def)

lemma disk_rd_eq:
  assumes "on_disk bsize w a"
  shows "disk_rd bsize a w =
    (if cacheable bsize w a then (MCSOS_BLK_OK, disk_content w a) else (MCSOS_BLK_ERANGE, replicate (unat bsize) 0), w)"
proof -
  obtain d l where a: "a = (d, l)"
    by fastforce
  have d: "ram_dev w d" "dev_block_size (devs w d) = bsize"
    using assms by (simp_all add: on_disk_def a)
  show ?thesis
  proof (cases "cacheable bsize w a")
    case True
    then show ?thesis
      using blk_read_spec [of w d 1 l "replicate (unat bsize) 0"] cacheableD [OF True [unfolded a]]
      by (simp add: disk_rd_def disk_content_def disk_block_def a)
  next
    case False
    then have "\<not> in_range w d l 1"
      using assms by (simp add: on_disk_cacheable a)
    then show ?thesis
      using False blk_out_of_range(1) [OF d(1), of 1 l] by (simp add: disk_rd_def a)
  qed
qed

lemma disk_wr_eq:
  assumes "disks_distinct w" and "cacheable bsize w a" and "length b = unat bsize"
  obtains w' where "disk_wr a b w = (MCSOS_BLK_OK, w')" "devs w' = devs w" "\<And>x. ram_dev w' x = ram_dev w x"
    "\<And>bsize' a'. cacheable bsize' w a' \<Longrightarrow> disk_content w' a' = (if a' = a then b else disk_content w a')"
proof -
  obtain d l where a: "a = (d, l)"
    by fastforce
  obtain w' where "mcsos_blk_write d l 1 (Some b) w = (MCSOS_BLK_OK, Some b, w')"
    and w': "devs w' = devs w" "\<forall>x. ram_dev w' x = ram_dev w x"
    "\<forall>x c. cacheable c w x \<longrightarrow>
      disk_block w' (fst x) (snd x) = (if x = (d, l) then b else disk_block w (fst x) (snd x))"
    using write_block [of bsize w d l b] assms unfolding a disks_distinct_def by blast
  then have "disk_wr a b w = (MCSOS_BLK_OK, w')"
    by (simp add: disk_wr_def a)
  then show ?thesis
    using that w' unfolding disk_content_def a by metis
qed

lemma same_devices:
  assumes "devs w' = devs w" and "\<And>x. ram_dev w' x = ram_dev w x"
  shows "cacheable bsize w' = cacheable bsize w" "on_disk bsize w' = on_disk bsize w"
  using assms by (simp_all add: fun_eq_iff cacheable_def on_disk_def in_range_def)

interpretation disk: block_store disks_distinct "on_disk bsize" "cacheable bsize" "\<lambda>b. length b = unat bsize"
  "replicate (unat bsize) 0" disk_content "disk_rd bsize" disk_wr for bsize
proof
  fix w a and b :: bytes
  assume w: "disks_distinct w" "cacheable bsize w a" and b: "length b = unat bsize"
  obtain w' where D: "disk_wr a b w = (MCSOS_BLK_OK, w')" "devs w' = devs w" "\<And>x. ram_dev w' x = ram_dev w x"
    "\<And>bsize' a'. cacheable bsize' w a' \<Longrightarrow> disk_content w' a' = (if a' = a then b else disk_content w a')"
    using disk_wr_eq [OF w b] by blast
  show "disks_distinct (snd (disk_wr a b w))"
    using w(1) by (simp add: disks_distinct_def D(1-3))
  show "cacheable bsize (snd (disk_wr a b w)) = cacheable bsize w" "on_disk bsize (snd (disk_wr a b w)) = on_disk bsize w"
    "fst (disk_wr a b w) = MCSOS_BLK_OK"
    using same_devices [OF D(2,3)] by (simp_all add: D(1))
  show "disk_content (snd (disk_wr a b w)) a' = (if a' = a then b else disk_content w a')"
    if "cacheable bsize w a'" for a'
    using D(4) [OF that] by (simp add: D(1))
qed (simp_all add: disk_rd_eq)

definition cache_good :: "u32 \<Rightarrow> mcsos_bcache \<times> blk_mem \<Rightarrow> bool" where
  "cache_good bsize s \<longleftrightarrow> bcache_wf (fst s) (snd s) \<and> bc_block_size (fst s) = bsize"

text \<open>
  A read through the cache of a block that is out of range fails with ERANGE, keeps the
  cache well-formed, and does not change what clients see at any other block, although it evicts an
  entry.
\<close>

lemma bcache_read_out_of_range:
  assumes wf: "bcache_wf c w" and d: "ram_dev w d" "dev_block_size (devs w d) = bc_block_size c"
    and r: "\<not> in_range w d l 1"
  shows "\<exists>c' w'. mcsos_bcache_read (Some c) d l (Some buf) w = (MCSOS_BLK_ERANGE, Some buf, Some c', w') \<and>
    bcache_wf c' w' \<and> same_view c w c' w'"
proof -
  have "\<not> e_valid (entry c i) \<or> key (entry c i) \<noteq> (d, l)" if "i < length (bc_entries c)" for i
    using bcache_wfD(3) [OF wf that] r by (auto simp: entry_wf_def cacheable_def)
  then have None: "mcsos_bcache_find c d l = None"
    using find_Some [OF wf, of d l] by (cases "mcsos_bcache_find c d l") auto
  obtain i c1 w1 where v: "mcsos_bcache_select_victim c w = (MCSOS_BLK_OK, Some i, c1, w1)"
    "i < length (bc_entries c1)" "bcache_wf c1 w1" "same_view c w c1 w1"
    "\<not> (e_valid (entry c1 i) \<and> e_dirty (entry c1 i))"
    using select_victim_keeps [OF wf] by blast
  have w1: "ram_dev w1 d" "\<not> in_range w1 d l 1"
    using v(4) d(1) r by (simp_all add: same_view_def in_range_def)
  let ?c2 = "upd_entry i (\<lambda>e. e\<lparr>e_valid := False\<rparr>) c1"
  have "mcsos_bcache_read (Some c) d l (Some buf) w = (MCSOS_BLK_ERANGE, Some buf, Some ?c2, w1)"
    using None v(1) blk_out_of_range(1) [OF w1(1), of 1 l] w1(2) ram_devD(1) [OF d(1)] d(2)
    by (simp add: mcsos_bcache_read_def Let_def)
  moreover note drop_entry [OF v(3,2,5) refl]
  moreover from this have "same_view c w ?c2 w1"
    using v(4) by (simp add: same_view_def upd_entry_def)
  ultimately show ?thesis
    by blast
qed

lemma cache_rd_eq:
  assumes "cache_good bsize s" and "on_disk bsize (snd s) a"
  obtains c' w' where "cache_rd bsize a s = (if cacheable bsize (snd s) a then (MCSOS_BLK_OK, view (fst s) (snd s) a)
      else (MCSOS_BLK_ERANGE, replicate (unat bsize) 0), (c', w'))"
    "cache_good bsize (c', w')" "same_view (fst s) (snd s) c' w'"
proof -
  have s: "bcache_wf (fst s) (snd s)" "bc_block_size (fst s) = bsize"
    using assms(1) by (simp_all add: cache_good_def)
  have "\<exists>c' w'. mcsos_bcache_read (Some (fst s)) (fst a) (snd a) (Some (replicate (unat bsize) 0)) (snd s) =
      (if cacheable bsize (snd s) a then (MCSOS_BLK_OK, Some (view (fst s) (snd s) a), Some c', w')
       else (MCSOS_BLK_ERANGE, Some (replicate (unat bsize) 0), Some c', w')) \<and>
      bcache_wf c' w' \<and> same_view (fst s) (snd s) c' w'"
  proof (cases "cacheable bsize (snd s) a")
    case True
    then show ?thesis
      using bcache_read_ok [of "fst s" "snd s" "fst a" "snd a"] s by simp
  next
    case False
    then show ?thesis
      using bcache_read_out_of_range [OF s(1), of "fst a" "snd a"] assms(2) s(2)
      by (simp add: on_disk_cacheable on_disk_def)
  qed
  then obtain c' w' where r: "mcsos_bcache_read (Some (fst s)) (fst a) (snd a) (Some (replicate (unat bsize) 0)) (snd s) =
      (if cacheable bsize (snd s) a then (MCSOS_BLK_OK, Some (view (fst s) (snd s) a), Some c', w')
       else (MCSOS_BLK_ERANGE, Some (replicate (unat bsize) 0), Some c', w'))"
      "bcache_wf c' w'" "same_view (fst s) (snd s) c' w'"
    by blast
  moreover from this have "cache_good bsize (c', w')"
    using s(2) by (simp add: cache_good_def same_view_def)
  ultimately show ?thesis
    using that [of c' w'] by (simp add: cache_rd_def split: if_splits)
qed

lemma cache_wr_eq:
  assumes "cache_good bsize s" and "cacheable bsize (snd s) a" and "length b = unat bsize"
  obtains c' w' where "cache_wr a b s = (MCSOS_BLK_OK, (c', w'))" "cache_good bsize (c', w')"
    "devs w' = devs (snd s)" "\<And>x. ram_dev w' x = ram_dev (snd s) x"
    "\<And>a'. cacheable bsize (snd s) a' \<Longrightarrow> view c' w' a' = (if a' = a then b else view (fst s) (snd s) a')"
proof -
  obtain c' w' where "mcsos_bcache_write (Some (fst s)) (fst a) (snd a) (Some b) (snd s) =
      (MCSOS_BLK_OK, Some c', w')"
    and w': "bcache_wf c' w'" "devs w' = devs (snd s)"
      "\<forall>x. ram_dev w' x = ram_dev (snd s) x" "bc_block_size c' = bc_block_size (fst s)"
      "\<forall>x. cacheable (bc_block_size (fst s)) (snd s) x \<longrightarrow>
        view c' w' x = (if x = (fst a, snd a) then b else view (fst s) (snd s) x)"
    using bcache_write_ok [of "fst s" "snd s" "fst a" "snd a" b] assms
    unfolding cache_good_def prod.collapse by blast
  then have "cache_wr a b s = (MCSOS_BLK_OK, (c', w'))"
    by (simp add: cache_wr_def)
  then show ?thesis
    using that [of c' w'] assms(1) w' unfolding cache_good_def prod.collapse by simp
qed

interpretation cached: block_store "cache_good bsize" "\<lambda>s. on_disk bsize (snd s)" "\<lambda>s. cacheable bsize (snd s)"
  "\<lambda>b. length b = unat bsize" "replicate (unat bsize) 0" "\<lambda>s. view (fst s) (snd s)" "cache_rd bsize" cache_wr for bsize
proof
  fix s a
  assume s: "cache_good bsize s" "on_disk bsize (snd s) a"
  obtain c' w' where R: "cache_rd bsize a s = (if cacheable bsize (snd s) a then (MCSOS_BLK_OK, view (fst s) (snd s) a)
      else (MCSOS_BLK_ERANGE, replicate (unat bsize) 0), (c', w'))"
    "cache_good bsize (c', w')" "same_view (fst s) (snd s) c' w'"
    using cache_rd_eq [OF s] by blast
  have "devs w' = devs (snd s)" "\<And>x. ram_dev w' x = ram_dev (snd s) x"
    using R(3) by (simp_all add: same_view_def)
  note same = same_devices [OF this]
  show "cache_good bsize (snd (cache_rd bsize a s))"
    "cacheable bsize (snd (snd (cache_rd bsize a s))) = cacheable bsize (snd s)"
    "on_disk bsize (snd (snd (cache_rd bsize a s))) = on_disk bsize (snd s)"
    "fst (cache_rd bsize a s) = (if cacheable bsize (snd s) a then (MCSOS_BLK_OK, view (fst s) (snd s) a)
      else (MCSOS_BLK_ERANGE, replicate (unat bsize) 0))"
    using R(2) same by (simp_all add: R(1))
  show "view (fst (snd (cache_rd bsize a s))) (snd (snd (cache_rd bsize a s))) a' = view (fst s) (snd s) a'"
    if "cacheable bsize (snd s) a'" for a'
  proof -
    have "view c' w' a' = view (fst s) (snd s) a'"
      using R(3) that s(1) unfolding same_view_def cache_good_def by blast
    then show ?thesis
      by (simp add: R(1))
  qed
next
  fix s a and b :: bytes
  assume s: "cache_good bsize s" "cacheable bsize (snd s) a" and b: "length b = unat bsize"
  obtain c' w' where W: "cache_wr a b s = (MCSOS_BLK_OK, (c', w'))" "cache_good bsize (c', w')"
    "devs w' = devs (snd s)" "\<And>x. ram_dev w' x = ram_dev (snd s) x"
    "\<And>a'. cacheable bsize (snd s) a' \<Longrightarrow> view c' w' a' = (if a' = a then b else view (fst s) (snd s) a')"
    using cache_wr_eq [OF s b] by blast
  show "cache_good bsize (snd (cache_wr a b s))" "cacheable bsize (snd (snd (cache_wr a b s))) = cacheable bsize (snd s)"
    "on_disk bsize (snd (snd (cache_wr a b s))) = on_disk bsize (snd s)" "fst (cache_wr a b s) = MCSOS_BLK_OK"
    using W(2) same_devices [OF W(3,4)] by (simp_all add: W(1))
  show "view (fst (snd (cache_wr a b s))) (snd (snd (cache_wr a b s))) a' = (if a' = a then b else view (fst s) (snd s) a')"
    if "cacheable bsize (snd s) a'" for a'
    using W(5) [OF that] by (simp add: W(1))
qed

section \<open>A concrete disk\<close>

definition no_dev :: mcsos_blk_device where
  "no_dev = \<lparr>dev_name = [], dev_block_size = 0, dev_block_count = 0, dev_flags = 0, dev_ops = None,
     dev_driver_data = 0\<rparr>"

definition no_blk :: blk_mem where
  "no_blk = \<lparr>devs = \<lambda>_. no_dev, rams = \<lambda>_. \<lparr>ram_storage = [], ram_storage_size = 0\<rparr>,
     g_blk_devices = replicate 8 0, g_blk_count = 0\<rparr>"

definition demo_disk :: blk_mem where
  "demo_disk = snd (mcsos_ramblk_init 16 32 (Some ''ram0'') (Some (replicate 2048 0)) 2048 512 no_blk)"

text \<open>\<^verbatim>\<open>mcsos_ramblk_init\<close> on a storage of the given size makes a RAM disk in good order.\<close>

lemma ramblk_init_dev:
  assumes "mcsos_ramblk_init dev ram name (Some bs) sz bsize w = (MCSOS_BLK_OK, w')"
    and "length bs = unat sz"
  shows "ram_dev w' dev" and "dev_block_size (devs w' dev) = bsize"
    and "unat (dev_block_count (devs w' dev)) = unat sz div unat bsize"
    and "disk_of w' dev = bs" and "d \<noteq> dev \<Longrightarrow> devs w' d = devs w d"
proof -
  have ok: "dev \<noteq> 0" "ram \<noteq> 0" "bsize \<noteq> 0" "sz mod ucast bsize = 0"
    and w': "w' = w\<lparr>rams := (rams w)(ram := \<lparr>ram_storage = bs, ram_storage_size = sz\<rparr>),
         devs := (devs w)(dev :=
           \<lparr>dev_name = mcsos_blk_copy_name_for_driver name, dev_block_size = bsize,
            dev_block_count = sz div ucast bsize, dev_flags = 0,
            dev_ops = Some g_ramblk_ops, dev_driver_data = ram\<rparr>)\<rparr>"
    using assms(1) by (auto simp: mcsos_ramblk_init_def mcsos_is_power_of_two_u32_def split: if_splits)
  have "unat sz mod unat bsize = 0"
    using arg_cong [OF ok(4), of unat] by (simp add: unat_mod)
  then have "unat sz = unat (sz div ucast bsize) * unat bsize"
    by (simp add: unat_div mod_0_imp_dvd)
  then show "ram_dev w' dev" "dev_block_size (devs w' dev) = bsize"
    "unat (dev_block_count (devs w' dev)) = unat sz div unat bsize"
    "disk_of w' dev = bs" "d \<noteq> dev \<Longrightarrow> devs w' d = devs w d"
    using ok(1-3) assms(2) by (simp_all add: w' ram_dev_def Let_def unat_div)
qed

lemma demo_disk_init:
  "mcsos_ramblk_init 16 32 (Some ''ram0'') (Some (replicate 2048 0)) 2048 512 no_blk = (MCSOS_BLK_OK, demo_disk)"
  unfolding demo_disk_def
  by (simp add: mcsos_ramblk_init_def MCSOS_BLK_DEFAULT_SECTOR_SIZE_def mcsos_is_power_of_two_u32_def)

lemma demo_disk_dev: "ram_dev demo_disk 16" "dev_block_size (devs demo_disk 16) = 512"
  "unat (dev_block_count (devs demo_disk 16)) = 4"
  using ramblk_init_dev [OF demo_disk_init] by simp_all

lemma demo_disk_distinct: "disks_distinct demo_disk"
proof -
  have "\<not> ram_dev demo_disk d" if "d \<noteq> 16" for d
    using that ramblk_init_dev(5) [OF demo_disk_init, of d]
    by (simp add: ram_dev_def no_blk_def no_dev_def)
  then show ?thesis
    unfolding disks_distinct_def by metis
qed

lemma demo_disk_cacheable: "unat l < 4 \<Longrightarrow> cacheable 512 demo_disk (16, l)"
  using demo_disk_dev by (simp add: cacheable_def in_range_def)

section \<open>Access to disks\<close>

text \<open>
  Property C33. Reading back what was written: after a write of \<open>count\<close> blocks in range, a read of the
  same blocks returns the written bytes, and every block outside the written range and on every
  other disk is unchanged.
\<close>

theorem blk_write_read:
  assumes "ram_dev w dev" and "disks_distinct w" and "count \<noteq> 0" and "in_range w dev lba (unat count)"
    and "length data = unat count * block_size_of w dev"
    and "length buf = unat count * block_size_of w dev"
  shows "\<exists>w'. mcsos_blk_write dev lba count (Some data) w = (MCSOS_BLK_OK, Some data, w') \<and>
    mcsos_blk_read dev lba count (Some buf) w' = (MCSOS_BLK_OK, Some data, w') \<and>
    (\<forall>d l. ram_dev w d \<longrightarrow> in_range w d l 1 \<longrightarrow> d \<noteq> dev \<or> unat l < unat lba \<or> unat lba + unat count \<le> unat l \<longrightarrow>
      disk_block w' d l = disk_block w d l)"
proof -
  let ?k = "block_size_of w dev"
  let ?new = "copy_loop (disk_of w dev) (unat lba * ?k) data 0 (unat count * ?k)"
  let ?w = "set_disk w dev ?new"
  have wr: "mcsos_blk_write dev lba count (Some data) w = (MCSOS_BLK_OK, Some data, ?w)"
    by (rule blk_write_spec [OF assms(1,3,4)])
  have rd: "ram_dev ?w dev" "in_range ?w dev lba (unat count)"
    using assms(1,4) by (simp_all add: ram_dev_set_disk in_range_def)
  have "slice (unat lba * ?k) (unat count * ?k) ?new = data"
    using slice_copy_same [of "unat lba * ?k" "unat count * ?k" "disk_of w dev" 0 data]
      block_end [OF assms(1,4)] assms(5) by (simp add: slice_def)
  then have "mcsos_blk_read dev lba count (Some buf) ?w = (MCSOS_BLK_OK, Some data, ?w)"
    using blk_read_spec [OF rd(1) assms(3) rd(2), of buf] assms(6) by (simp add: disk_of_set_disk)
  moreover have "disk_block ?w d l = disk_block w d l"
    if "ram_dev w d" "in_range w d l 1" "d \<noteq> dev \<or> unat l < unat lba \<or> unat lba + unat count \<le> unat l" for d l
    using disk_block_after_write [OF assms(1) that(1) assms(4) _ that(2), of data] assms(2,5) that(3)
      assms(1) that(1) unfolding disks_distinct_def by auto
  ultimately show ?thesis
    using wr by blast
qed

theorem blk_write_read_witness:
  "\<exists>w'. mcsos_blk_write 16 1 2 (Some (replicate 1024 7)) demo_disk = (MCSOS_BLK_OK, Some (replicate 1024 7), w') \<and>
    mcsos_blk_read 16 1 2 (Some (replicate 1024 0)) w' = (MCSOS_BLK_OK, Some (replicate 1024 7), w')"
  using blk_write_read [OF demo_disk_dev(1) demo_disk_distinct, of 2 1 "replicate 1024 7" "replicate 1024 0"]
    demo_disk_dev by (auto simp: in_range_def)

text \<open>
  Property C34. A request that is not wholly inside the device is refused with ERANGE and neither the
  buffer nor any disk is touched, for every 64-bit block number, those included for which the byte
  offset or the end of the request would wrap around.
\<close>

theorem blk_range_checked:
  assumes "ram_dev w dev" and "count \<noteq> 0"
    and "unat (dev_block_count (devs w dev)) < unat lba + unat count"
  shows "mcsos_blk_read dev lba count (Some buf) w = (MCSOS_BLK_ERANGE, Some buf, w) \<and>
    mcsos_blk_write dev lba count (Some buf) w = (MCSOS_BLK_ERANGE, Some buf, w)"
  using blk_out_of_range [OF assms(1,2), of lba buf] assms(3) by (simp add: in_range_def)

theorem blk_range_checked_witness:
  "mcsos_blk_read 16 0xFFFFFFFFFFFFFFFF 2 (Some []) demo_disk = (MCSOS_BLK_ERANGE, Some [], demo_disk)"
  using blk_range_checked [OF demo_disk_dev(1), of 2 "0xFFFFFFFFFFFFFFFF" "[]"] demo_disk_dev by simp

section \<open>The cache\<close>

lemma flush_all_ok:
  assumes wf: "bcache_wf c w"
  shows "\<exists>c' w'. mcsos_bcache_flush_all (Some c) w = (MCSOS_BLK_OK, Some c', w') \<and> bcache_wf c' w' \<and>
    (\<forall>a. cacheable (bc_block_size c) w a \<longrightarrow> disk_content w' a = view c w a)"
proof -
  have len: "length (bc_entries c) = unat (bc_entry_count c)"
    using bcache_wfD(1) [OF wf] .
  obtain c' w' where r: "flush_from [0..<unat (bc_entry_count c)] c w = (MCSOS_BLK_OK, c', w')"
      "bcache_wf c' w'" "same_view c w c' w'" "length (bc_entries c') = length (bc_entries c)"
      "\<forall>j < length (bc_entries c). \<not> (e_valid (entry c' j) \<and> e_dirty (entry c' j))"
    using flush_from_keeps [OF wf, of "[0..<unat (bc_entry_count c)]"] len by auto
  have "view c' w' a = disk_content w' a" for a
  proof (cases "\<exists>j < length (bc_entries c'). e_valid (entry c' j) \<and> a = key (entry c' j)")
    case True
    then obtain j where j: "j < length (bc_entries c')" "e_valid (entry c' j)" "a = key (entry c' j)"
      by blast
    then show ?thesis
      using view_cached [OF r(2) j(1,2)] bcache_wfD(3) [OF r(2) j(1)] r(4,5)
      by (simp add: entry_wf_def disk_content_def)
  next
    case False
    then show ?thesis
      using view_uncached [OF r(2), of a] by (auto simp: disk_content_def)
  qed
  then have "disk_content w' a = view c w a" if "cacheable (bc_block_size c) w a" for a
    using r(3) that unfolding same_view_def by metis
  then show ?thesis
    using r(1,2) by (auto simp: mcsos_bcache_flush_all_def)
qed

lemma init_wf:
  assumes "mcsos_bcache_init (Some c0) (Some es) n (Some pool) bsize = (MCSOS_BLK_OK, Some c)"
    and "unat n * unat bsize \<le> length pool" and "disks_distinct w"
  shows "bcache_wf c w" and "bc_block_size c = bsize" and "view c w a = disk_content w a"
proof -
  have c: "n \<noteq> 0" "c = c0\<lparr>bc_entries := map (\<lambda>i.
      \<lparr>e_data = slice (i * unat bsize) (unat bsize) pool, e_capacity = bsize,
       e_lba = 0, e_valid = False, e_dirty = False, e_dev = 0\<rparr>) [0..<unat n],
     bc_entry_count := n, bc_block_size := bsize, bc_clock_hand := 0\<rparr>"
    using assms(1) by (auto simp: mcsos_bcache_init_def split: if_splits)
  have inv: "\<not> e_valid (entry c i)" "length (e_data (entry c i)) = unat bsize" if "i < unat n" for i
  proof -
    have "i * unat bsize + unat bsize \<le> unat n * unat bsize"
      using mult_le_mono1 [of "Suc i" "unat n" "unat bsize"] that by (simp add: add.commute)
    then show "\<not> e_valid (entry c i)" "length (e_data (entry c i)) = unat bsize"
      using that assms(2) by (simp_all add: c(2))
  qed
  show wf: "bcache_wf c w"
    using assms(3) inv c(1) by (simp add: bcache_wf_def entry_wf_def disks_distinct_def c(2))
  show "bc_block_size c = bsize"
    by (simp add: c(2))
  show "view c w a = disk_content w a"
    using view_uncached [OF wf, of a] inv by (simp add: disk_content_def c(2))
qed

text \<open>
  Property C4. The cache is invisible. Take a freshly initialised cache and any sequence of reads of
  blocks of RAM disks with the cache's block size, in range or not, and of writes of whole blocks in range:
  through the cache every operation returns the status, and every read the buffer, that it returns on the
  bare disks, and a final \<^verbatim>\<open>mcsos_bcache_flush_all\<close> returns OK and leaves on the disks exactly the blocks that
  the same sequence without the cache leaves, whatever was evicted in between. Writes out of range
  are not covered: there the cache differs from the disk.
\<close>

theorem bcache_transparent:
  assumes "mcsos_bcache_init (Some c0) (Some es) n (Some pool) bsize = (MCSOS_BLK_OK, Some c)"
    and "unat n * unat bsize \<le> length pool" and "disks_distinct w"
    and "\<forall>p \<in> set ps. op_ok (on_disk bsize w) (cacheable bsize w) (\<lambda>b. length b = unat bsize) p"
  shows "\<exists>out c' w' w'' c2 w2. blk_run (cache_rd bsize) cache_wr ps (c, w) = (out, (c', w')) \<and>
    blk_run (disk_rd bsize) disk_wr ps w = (out, w'') \<and>
    mcsos_bcache_flush_all (Some c') w' = (MCSOS_BLK_OK, Some c2, w2) \<and>
    (\<forall>d l. cacheable bsize w (d, l) \<longrightarrow> disk_block w2 d l = disk_block w'' d l)"
proof -
  let ?f = "disk_content w" and ?rd = "map_rd (cacheable bsize w) (replicate (unat bsize) 0)"
  note I = init_wf [OF assms(1-3)]
  obtain out c' w' where r: "blk_run (cache_rd bsize) cache_wr ps (c, w) = (out, (c', w'))"
    by (metis prod.exhaust)
  obtain out' w'' where r': "blk_run (disk_rd bsize) disk_wr ps w = (out', w'')"
    by fastforce
  have "cache_good bsize (c, w)"
    using I by (simp add: cache_good_def)
  then have C: "out = fst (blk_run ?rd map_wr ps ?f)" "cache_good bsize (c', w')" "cacheable bsize w' = cacheable bsize w"
    "\<forall>a. cacheable bsize w a \<longrightarrow> view c' w' a = snd (blk_run ?rd map_wr ps ?f) a"
    using cached.run_refines [where s = "(c, w)" and bsize = bsize and ps = ps and f = ?f] I(3) assms(4) by (auto simp: r)
  have D: "out' = fst (blk_run ?rd map_wr ps ?f)"
    "\<forall>a. cacheable bsize w a \<longrightarrow> disk_content w'' a = snd (blk_run ?rd map_wr ps ?f) a"
    using disk.run_refines [where s = w and bsize = bsize and ps = ps and f = ?f] assms(3,4) by (auto simp: r')
  have wf': "bcache_wf c' w'" and bs: "bc_block_size c' = bsize"
    using C(2) unfolding cache_good_def by auto
  obtain c2 w2 where f: "mcsos_bcache_flush_all (Some c') w' = (MCSOS_BLK_OK, Some c2, w2)"
    "\<forall>a. cacheable bsize w' a \<longrightarrow> disk_content w2 a = view c' w' a"
    using flush_all_ok [OF wf'] bs by auto
  have "disk_content w2 (d, l) = disk_content w'' (d, l)" if "cacheable bsize w (d, l)" for d l
    using f(2) C(3,4) D(2) that by simp
  then have "disk_block w2 d l = disk_block w'' d l" if "cacheable bsize w (d, l)" for d l
    using that by (simp add: disk_content_def)
  then show ?thesis
    using r r' f(1) C(1) D(1) by auto
qed

definition demo_cache :: mcsos_bcache where
  "demo_cache = \<lparr>bc_entries = [], bc_entry_count = 0, bc_block_size = 0, bc_clock_hand = 0\<rparr>"

definition demo_ops :: "(u64 \<times> u64, bytes) blk_op list" where
  "demo_ops = [Blk_write (16, 0) (replicate 512 1), Blk_write (16, 1) (replicate 512 2),
     Blk_write (16, 2) (replicate 512 3), Blk_read (16, 9), Blk_read (16, 0)]"

theorem bcache_transparent_witness:
  "\<exists>c out c' w' w'' c2 w2.
    mcsos_bcache_init (Some demo_cache) (Some []) 2 (Some (replicate 1024 0)) 512 = (MCSOS_BLK_OK, Some c) \<and>
    blk_run (cache_rd 512) cache_wr demo_ops (c, demo_disk) = (out, (c', w')) \<and>
    blk_run (disk_rd 512) disk_wr demo_ops demo_disk = (out, w'') \<and>
    mcsos_bcache_flush_all (Some c') w' = (MCSOS_BLK_OK, Some c2, w2) \<and>
    disk_block w2 16 0 = disk_block w'' 16 0"
proof -
  obtain c where c: "mcsos_bcache_init (Some demo_cache) (Some []) 2 (Some (replicate 1024 0)) 512 =
      (MCSOS_BLK_OK, Some c)"
    by (simp add: mcsos_bcache_init_def)
  have ok: "\<forall>p \<in> set demo_ops. op_ok (on_disk 512 demo_disk) (cacheable 512 demo_disk) (\<lambda>b. length b = unat (512 :: u32)) p"
    using demo_disk_dev by (simp add: demo_ops_def op_ok_def demo_disk_cacheable on_disk_def)
  have "cacheable 512 demo_disk (16, 0)"
    by (simp add: demo_disk_cacheable)
  then show ?thesis
    using bcache_transparent [OF c _ demo_disk_distinct ok] c by fastforce
qed

section \<open>Writing beyond the end of a device\<close>

text \<open>
  An entry that can never be written back. No later call of the cache or of the block layer frees it: as a
  victim it is not given up, and a flush that fails on it keeps it dirty.
\<close>

definition stuck_entry :: "blk_mem \<Rightarrow> mcsos_bcache_entry \<Rightarrow> bool" where
  "stuck_entry w e \<longleftrightarrow> e_valid e \<and> e_dirty e \<and> dev_block_count (devs w (e_dev e)) \<le> e_lba e"

definition stuck :: "mcsos_bcache \<Rightarrow> blk_mem \<Rightarrow> bool" where
  "stuck c w \<longleftrightarrow> length (bc_entries c) = unat (bc_entry_count c) \<and>
     (\<exists>i < length (bc_entries c). stuck_entry w (entry c i))"

text \<open>Calls with any arguments: of the cache, and of the block layer below it.\<close>

inductive blk_later :: "mcsos_bcache \<times> blk_mem \<Rightarrow> mcsos_bcache \<times> blk_mem \<Rightarrow> bool" where
  later_read: "mcsos_bcache_read (Some c) d l buf w = (st, buf', Some c', w') \<Longrightarrow> blk_later (c, w) (c', w')"
| later_write: "mcsos_bcache_write (Some c) d l buf w = (st, Some c', w') \<Longrightarrow> blk_later (c, w) (c', w')"
| later_flush: "mcsos_bcache_flush_all (Some c) w = (st, Some c', w') \<Longrightarrow> blk_later (c, w) (c', w')"
| later_blk_read: "mcsos_blk_read d l n buf w = (st, buf', w') \<Longrightarrow> blk_later (c, w) (c, w')"
| later_blk_write: "mcsos_blk_write d l n buf w = (st, buf', w') \<Longrightarrow> blk_later (c, w) (c, w')"

lemma blk_call_devs: "devs (snd (snd (blk_call f d l n b w))) = devs w"
  by (cases f) (auto simp: mcsos_ramblk_read_def mcsos_ramblk_write_def mcsos_ramblk_flush_def
      mcsos_ramblk_rw_def Let_def split: option.splits)

lemma blk_devs:
  "devs (snd (snd (mcsos_blk_write d l n b w))) = devs w" "devs (snd (snd (mcsos_blk_read d l n b w))) = devs w"
  using blk_call_devs by (auto simp: mcsos_blk_write_def mcsos_blk_read_def Let_def split: option.splits)

lemma blk_write_beyond:
  "dev_block_count (devs w d) \<le> l \<Longrightarrow> fst (mcsos_blk_write d l n b w) \<noteq> MCSOS_BLK_OK"
  by (auto simp: mcsos_blk_write_def mcsos_blk_validate_range_def Let_def)

lemma flush_entry_stuck:
  assumes f: "mcsos_bcache_flush_entry j c w = (st, c', w')"
  shows "devs w' = devs w" "bc_entry_count c' = bc_entry_count c" "length (bc_entries c') = length (bc_entries c)"
    "stuck_entry w (entry c i) \<Longrightarrow> entry c' i = entry c i" "stuck_entry w (entry c j) \<Longrightarrow> st \<noteq> MCSOS_BLK_OK"
proof -
  obtain st1 b w1 where wr: "mcsos_blk_write (e_dev (entry c j)) (e_lba (entry c j)) 1 (Some (e_data (entry c j))) w =
      (st1, b, w1)"
    using prod_cases3 by blast
  have "devs w1 = devs w"
    using blk_devs(1) [of "e_dev (entry c j)" "e_lba (entry c j)" 1 "Some (e_data (entry c j))" w] wr by simp
  then show "devs w' = devs w" "bc_entry_count c' = bc_entry_count c" "length (bc_entries c') = length (bc_entries c)"
    using f wr by (auto simp: mcsos_bcache_flush_entry_def upd_entry_def Let_def split: if_splits)
  show bad: "st \<noteq> MCSOS_BLK_OK" if "stuck_entry w (entry c j)"
    using f wr that blk_write_beyond [of w "e_dev (entry c j)" "e_lba (entry c j)" 1 "Some (e_data (entry c j))"]
    by (auto simp: mcsos_bcache_flush_entry_def stuck_entry_def Let_def split: if_splits)
  show "entry c' i = entry c i" if "stuck_entry w (entry c i)"
  proof (cases "i = j")
    case True
    then show ?thesis
      using f wr bad that by (auto simp: mcsos_bcache_flush_entry_def Let_def split: if_splits)
  next
    case False
    then show ?thesis
      using f wr by (auto simp: mcsos_bcache_flush_entry_def upd_entry_def Let_def split: if_splits)
  qed
qed

lemma stuck_kept:
  assumes "stuck c w" and "devs w' = devs w" and "bc_entry_count c' = bc_entry_count c"
    and "length (bc_entries c') = length (bc_entries c)"
    and "\<And>i. i < length (bc_entries c) \<Longrightarrow> stuck_entry w (entry c i) \<Longrightarrow> stuck_entry w (entry c' i)"
  shows "stuck c' w'"
  using assms unfolding stuck_def stuck_entry_def by metis

lemma flush_from_stuck:
  assumes "flush_from is c w = (st, c', w')" and "stuck c w"
  shows "stuck c' w'" and "i \<in> set is \<Longrightarrow> stuck_entry w (entry c i) \<Longrightarrow> st \<noteq> MCSOS_BLK_OK"
  using assms
proof (induction "is" arbitrary: c w)
  case (Cons j "is")
  have step: "\<exists>st1 c1 w1. mcsos_bcache_flush_entry j c w = (st1, c1, w1) \<and> stuck c1 w1 \<and> devs w1 = devs w \<and>
      (\<forall>i. stuck_entry w (entry c i) \<longrightarrow> stuck_entry w1 (entry c1 i)) \<and> (stuck_entry w (entry c j) \<longrightarrow> st1 \<noteq> MCSOS_BLK_OK)"
    if "stuck c w" for c w
  proof -
    obtain st1 c1 w1 where f: "mcsos_bcache_flush_entry j c w = (st1, c1, w1)"
      using prod_cases3 by blast
    note F = flush_entry_stuck [OF f]
    have "stuck c1 w1"
      by (rule stuck_kept [OF that F(1-3)]) (simp add: F(4))
    moreover have "stuck_entry w1 (entry c1 i)" if "stuck_entry w (entry c i)" for i
      using F(1) F(4) [OF that] that by (simp add: stuck_entry_def)
    ultimately show ?thesis
      using f F(1,5) by blast
  qed
  {
    case 1
    obtain st1 c1 w1 where f: "mcsos_bcache_flush_entry j c w = (st1, c1, w1)" "stuck c1 w1"
      using step [OF 1(2)] by blast
    then show ?case
      using 1(1) Cons.IH(1) [of c1 w1] by (auto split: if_splits)
  next
    case 2
    obtain st1 c1 w1 where f: "mcsos_bcache_flush_entry j c w = (st1, c1, w1)" "stuck c1 w1"
      "stuck_entry w (entry c i) \<longrightarrow> stuck_entry w1 (entry c1 i)" "stuck_entry w (entry c j) \<longrightarrow> st1 \<noteq> MCSOS_BLK_OK"
      using step [OF 2(4)] by blast
    show ?case
    proof (cases "st1 = MCSOS_BLK_OK")
      case True
      then have "i \<noteq> j"
        using f(4) 2(2) by auto
      then show ?thesis
        using Cons.IH(2) [of w1 c1] 2(1-3) f True by simp
    qed (use f 2(3) in auto)
  }
qed simp_all

lemma select_victim_stuck:
  assumes v: "mcsos_bcache_select_victim c w = (st, v, c', w')" and s: "stuck c w"
  shows "stuck c' w' \<and> devs w' = devs w \<and> (\<forall>i. v = Some i \<longrightarrow> \<not> stuck_entry w' (entry c' i))"
proof (cases "\<exists>h i. v = Some i \<and> c' = c\<lparr>bc_clock_hand := h\<rparr> \<and> w' = w \<and> \<not> e_valid (entry c i)")
  case True
  then obtain h i where "v = Some i" "c' = c\<lparr>bc_clock_hand := h\<rparr>" "w' = w" "\<not> e_valid (entry c i)"
    by blast
  then show ?thesis
    using s by (auto simp: stuck_def stuck_entry_def)
next
  case False
  have "bc_entry_count c \<noteq> 0"
    using s by (auto simp: stuck_def)
  then obtain h j where f: "(let (st, c, w) = mcsos_bcache_flush_entry j (c\<lparr>bc_clock_hand := h\<rparr>) w in
      if st \<noteq> MCSOS_BLK_OK then (st, None, c, w) else (MCSOS_BLK_OK, Some j, c, w)) = (st, v, c', w')"
    using v False by (auto simp: mcsos_bcache_select_victim_def Let_def find_upt_Some split: option.splits)
  let ?c = "c\<lparr>bc_clock_hand := h\<rparr>"
  obtain st1 c1 w1 where fe: "mcsos_bcache_flush_entry j ?c w = (st1, c1, w1)"
    using prod_cases3 by blast
  then have r: "c' = c1" "w' = w1" "v = Some i \<Longrightarrow> i = j \<and> st1 = MCSOS_BLK_OK" for i
    using f by (auto split: if_splits)
  note F = flush_entry_stuck [OF fe]
  have "stuck ?c w"
    using s by (auto simp: stuck_def)
  then have "stuck c1 w1"
    by (rule stuck_kept [OF _ F(1-3)]) (simp add: F(4))
  moreover have "\<not> stuck_entry w1 (entry c1 j)" if "st1 = MCSOS_BLK_OK"
    using fe that F(1,5)
    by (cases "j < length (bc_entries c)")
      (auto simp: mcsos_bcache_flush_entry_def stuck_entry_def upd_entry_def list_update_beyond not_less Let_def split: if_splits prod.splits)
  ultimately show ?thesis
    using r F(1) by auto
qed

lemma upd_entry_stuck:
  assumes "stuck c w" and "stuck_entry w (entry c i) \<Longrightarrow> stuck_entry w (f (entry c i))"
  shows "stuck (upd_entry i f c) w"
proof (rule stuck_kept [OF assms(1)])
  show "stuck_entry w (entry (upd_entry i f c) j)" if "j < length (bc_entries c)" "stuck_entry w (entry c j)" for j
    using that assms(2) by (cases "i = j") (simp_all add: upd_entry_def)
qed (simp_all add: upd_entry_def)

lemma read_stuck:
  assumes r: "mcsos_bcache_read (Some c) d l buf w = (st, buf', Some c', w')" and s: "stuck c w"
  shows "stuck c' w'"
proof (cases "mcsos_bcache_find c d l")
  case (Some i)
  then show ?thesis
    using r s by (auto simp: mcsos_bcache_read_def Let_def split: option.splits if_splits)
next
  case None
  obtain st1 v c1 w1 where v: "mcsos_bcache_select_victim c w = (st1, v, c1, w1)"
    using prod_cases4 by blast
  note V = select_victim_stuck [OF v s]
  show ?thesis
  proof (cases v)
    case None': None
    then show ?thesis
      using r s V None v by (auto simp: mcsos_bcache_read_def Let_def split: option.splits if_splits)
  next
    case (Some i)
    obtain st2 b w2 where rd: "mcsos_blk_read d l 1 (Some (e_data (entry c1 i))) w1 = (st2, b, w2)"
      using prod_cases3 by blast
    have "stuck (upd_entry i f c1) w2" for f
    proof (rule stuck_kept)
      show "stuck (upd_entry i f c1) w1"
        using V Some by (intro upd_entry_stuck) auto
      show "devs w2 = devs w1"
        using blk_devs(2) [of d l 1 "Some (e_data (entry c1 i))" w1] rd by simp
    qed simp_all
    then show ?thesis
      using r s None v Some rd by (auto simp: mcsos_bcache_read_def Let_def split: option.splits if_splits)
  qed
qed

lemma write_stuck:
  assumes r: "mcsos_bcache_write (Some c) d l buf w = (st, Some c', w')" and s: "stuck c w"
  shows "stuck c' w'"
proof -
  have store: "stuck (upd_entry i (\<lambda>e. e\<lparr>e_data := g e, e_dirty := True\<rparr>) c1) w1" if "stuck c1 w1" for i g c1 w1
    using that by (rule upd_entry_stuck) (simp add: stuck_entry_def)
  obtain st1 v c1 w1 where v: "mcsos_bcache_select_victim c w = (st1, v, c1, w1)"
    using prod_cases4 by blast
  note V = select_victim_stuck [OF v s]
  have claim: "stuck (upd_entry i f c1) w1" if "v = Some i" for i f
    using V that by (intro upd_entry_stuck) auto
  show ?thesis
    using r s store claim V v
    by (auto simp: mcsos_bcache_write_def Let_def split: option.splits if_splits)
qed

lemma later_stuck: "blk_later x y \<Longrightarrow> stuck (fst x) (snd x) \<Longrightarrow> stuck (fst y) (snd y)"
proof (induction rule: blk_later.induct)
  case (later_flush c w st c' w')
  then show ?case
    using flush_from_stuck(1) [of "[0..<unat (bc_entry_count c)]" c w]
    by (auto simp: mcsos_bcache_flush_all_def split: prod.splits)
next
  case (later_blk_read d l n buf w st buf' w' c)
  then show ?case
    using blk_devs(2) [of d l n buf w] by (auto simp: stuck_def stuck_entry_def)
next
  case (later_blk_write d l n buf w st buf' w' c)
  then show ?case
    using blk_devs(1) [of d l n buf w] by (auto simp: stuck_def stuck_entry_def)
qed (use read_stuck write_stuck in auto)

interpretation stuck_cache: step_invariant "\<lambda>x. stuck (fst x) (snd x)" blk_later "\<lambda>x. stuck (fst x) (snd x)"
  by unfold_locales (use later_stuck in auto)

text \<open>
  Property C35. \<^verbatim>\<open>mcsos_bcache_write\<close> does not check the block number: a write to a block beyond the end
  of the device returns OK, and from then on \<^verbatim>\<open>mcsos_bcache_flush_all\<close> fails, whatever calls of the cache and of
  \<^verbatim>\<open>mcsos_blk_read\<close> and \<^verbatim>\<open>mcsos_blk_write\<close>, with whatever arguments, come in between.
\<close>

theorem bcache_write_beyond_end:
  assumes wf: "bcache_wf c w" and d: "ram_dev w d" "dev_block_size (devs w d) = bc_block_size c"
    and r: "dev_block_count (devs w d) \<le> l"
  shows "\<exists>c' w'. mcsos_bcache_write (Some c) d l (Some buf) w = (MCSOS_BLK_OK, Some c', w') \<and>
    (\<forall>c2 w2. blk_later\<^sup>*\<^sup>* (c', w') (c2, w2) \<longrightarrow> fst (mcsos_bcache_flush_all (Some c2) w2) \<noteq> MCSOS_BLK_OK)"
proof -
  have "\<not> in_range w d l 1"
    using r by (simp add: in_range_def word_le_nat_alt)
  then have "\<not> e_valid (entry c i) \<or> key (entry c i) \<noteq> (d, l)" if "i < length (bc_entries c)" for i
    using bcache_wfD(3) [OF wf that] by (auto simp: entry_wf_def cacheable_def)
  then have None: "mcsos_bcache_find c d l = None"
    using find_Some [OF wf, of d l] by (cases "mcsos_bcache_find c d l") auto
  obtain i c1 w1 where v: "mcsos_bcache_select_victim c w = (MCSOS_BLK_OK, Some i, c1, w1)"
    "i < length (bc_entries c1)" "bcache_wf c1 w1" "same_view c w c1 w1"
    using select_victim_keeps [OF wf] by blast
  define c' where "c' = the (fst (snd (mcsos_bcache_write (Some c) d l (Some buf) w)))"
  have res: "mcsos_bcache_write (Some c) d l (Some buf) w = (MCSOS_BLK_OK, Some c', w1)"
    and si: "stuck_entry w1 (entry c' i)" and n: "bc_entry_count c' = bc_entry_count c1"
    and len: "length (bc_entries c') = length (bc_entries c1)"
    using None v(1,2,4) ram_devD(1) [OF d(1)] d(2) r
    by (simp_all add: c'_def mcsos_bcache_write_def Let_def upd_entry_def stuck_entry_def same_view_def)
  have stuck: "stuck c' w1"
    using v(2) bcache_wfD(1) [OF v(3)] n len si by (auto simp: stuck_def)
  have "fst (mcsos_bcache_flush_all (Some c2) w2) \<noteq> MCSOS_BLK_OK" if "blk_later\<^sup>*\<^sup>* (c', w1) (c2, w2)" for c2 w2
  proof -
    have s2: "stuck c2 w2"
      using stuck_cache.steps_inv [OF that] stuck by simp
    then obtain j where "j \<in> set [0..<unat (bc_entry_count c2)]" "stuck_entry w2 (entry c2 j)"
      by (auto simp: stuck_def)
    then show ?thesis
      using flush_from_stuck(2) [OF _ s2, of "[0..<unat (bc_entry_count c2)]"]
      by (auto simp: mcsos_bcache_flush_all_def split: prod.splits)
  qed
  then show ?thesis
    using res by blast
qed

theorem bcache_write_beyond_end_witness:
  "\<exists>c c' w' st c2 w2. mcsos_bcache_init (Some demo_cache) (Some []) 2 (Some (replicate 1024 0)) 512 = (MCSOS_BLK_OK, Some c) \<and>
    mcsos_bcache_write (Some c) 16 9 (Some (replicate 512 1)) demo_disk = (MCSOS_BLK_OK, Some c', w') \<and>
    mcsos_bcache_flush_all (Some c') w' = (st, Some c2, w2) \<and> st \<noteq> MCSOS_BLK_OK \<and>
    fst (mcsos_bcache_flush_all (Some c2) w2) \<noteq> MCSOS_BLK_OK"
proof -
  obtain c where c: "mcsos_bcache_init (Some demo_cache) (Some []) 2 (Some (replicate 1024 0)) 512 =
      (MCSOS_BLK_OK, Some c)"
    by (simp add: mcsos_bcache_init_def)
  have wf: "bcache_wf c demo_disk" "bc_block_size c = 512"
    using init_wf [OF c _ demo_disk_distinct] by simp_all
  have "dev_block_count (devs demo_disk 16) \<le> 9"
    using demo_disk_dev(3) by (simp add: word_le_nat_alt)
  then obtain c' w' where w: "mcsos_bcache_write (Some c) 16 9 (Some (replicate 512 1)) demo_disk = (MCSOS_BLK_OK, Some c', w')"
    "\<forall>c2 w2. blk_later\<^sup>*\<^sup>* (c', w') (c2, w2) \<longrightarrow> fst (mcsos_bcache_flush_all (Some c2) w2) \<noteq> MCSOS_BLK_OK"
    using bcache_write_beyond_end [OF wf(1) demo_disk_dev(1), of 9 "replicate 512 1"] demo_disk_dev(2) wf(2) by auto
  obtain st c2 w2 where f: "mcsos_bcache_flush_all (Some c') w' = (st, Some c2, w2)"
    by (cases "flush_from [0..<unat (bc_entry_count c')] c' w'") (simp add: mcsos_bcache_flush_all_def)
  have "blk_later\<^sup>*\<^sup>* (c', w') (c2, w2)"
    using later_flush [OF f] by (rule r_into_rtranclp)
  then show ?thesis
    using c w f by fastforce
qed

section \<open>The registry\<close>

definition registrable :: "blk_mem \<Rightarrow> u64 \<Rightarrow> bool" where
  "registrable w dev \<longleftrightarrow> (let d = devs w dev in dev \<noteq> 0 \<and>
     (\<exists>ops. dev_ops d = Some ops \<and> ops_read ops \<noteq> None \<and> ops_write ops \<noteq> None) \<and>
     dev_name d \<noteq> [] \<and> dev_block_count d \<noteq> 0 \<and> 512 \<le> dev_block_size d \<and>
     mcsos_is_power_of_two_u32 (dev_block_size d))"

definition registered :: "blk_mem \<Rightarrow> u64 list" where
  "registered w = take (unat (g_blk_count w)) (g_blk_devices w)"

text \<open>
  The registry is a list of at most eight devices: registering a proper device appends it
  while there is room, is refused with EFULL afterwards, anything else is refused with EINVAL, and
  \<^verbatim>\<open>mcsos_blk_get\<close> returns the device at an index or NULL past the end.
\<close>

theorem blk_registry:
  assumes "length (g_blk_devices w) = 8" and "unat (g_blk_count w) \<le> 8"
  shows "(if \<not> registrable w dev then mcsos_blk_register dev w = (MCSOS_BLK_EINVAL, w)
      else if length (registered w) = 8 then mcsos_blk_register dev w = (MCSOS_BLK_EFULL, w)
      else \<exists>w'. mcsos_blk_register dev w = (MCSOS_BLK_OK, w') \<and> registered w' = registered w @ [dev] \<and>
        length (g_blk_devices w') = 8 \<and> unat (g_blk_count w') \<le> 8 \<and> devs w' = devs w) \<and>
    mcsos_blk_get index w = (if unat index < length (registered w) then registered w ! unat index else 0)"
proof -
  let ?n = "unat (g_blk_count w)"
  have len: "length (registered w) = ?n"
    using assms by (simp add: registered_def)
  have get: "mcsos_blk_get index w = (if unat index < ?n then registered w ! unat index else 0)"
    by (simp add: mcsos_blk_get_def registered_def word_le_nat_alt)
  show ?thesis
  proof (cases "registrable w dev \<and> ?n < 8")
    case True
    let ?w = "w\<lparr>g_blk_devices := (g_blk_devices w)[?n := dev], g_blk_count := g_blk_count w + 1\<rparr>"
    have "mcsos_blk_register dev w = (MCSOS_BLK_OK, ?w)"
      using True by (auto simp: mcsos_blk_register_def registrable_def Let_def mcsos_name_is_nonempty_def
          MCSOS_BLK_DEFAULT_SECTOR_SIZE_def MCSOS_BLK_MAX_DEVICES_def not_le [symmetric])
    moreover have "unat (g_blk_count w + 1) = ?n + 1"
      using True by (simp add: unat_add_nowrap)
    ultimately show ?thesis
      using True len get assms by (simp add: registered_def take_Suc_conv_app_nth)
  next
    case False
    then show ?thesis
      using len get assms
      by (auto simp: mcsos_blk_register_def registrable_def Let_def mcsos_name_is_nonempty_def
          MCSOS_BLK_DEFAULT_SECTOR_SIZE_def MCSOS_BLK_MAX_DEVICES_def not_le [symmetric]
          split: option.splits)
  qed
qed

theorem blk_registry_witness:
  "\<exists>w'. mcsos_blk_register 16 demo_disk = (MCSOS_BLK_OK, w') \<and> registered w' = [16]"
proof -
  have d: "demo_disk = no_blk\<lparr>rams := (rams no_blk)(32 := \<lparr>ram_storage = replicate 2048 0, ram_storage_size = 2048\<rparr>),
      devs := (devs no_blk)(16 := \<lparr>dev_name = ''ram0'', dev_block_size = 512, dev_block_count = 4,
        dev_flags = 0, dev_ops = Some g_ramblk_ops, dev_driver_data = 32\<rparr>)\<rparr>"
    by (simp add: demo_disk_def mcsos_ramblk_init_def MCSOS_BLK_DEFAULT_SECTOR_SIZE_def
        mcsos_is_power_of_two_u32_def mcsos_blk_copy_name_for_driver_def mcsos_copy_name_def MCSOS_BLK_NAME_MAX_def)
  have "registrable demo_disk 16"
    by (simp add: d registrable_def mcsos_is_power_of_two_u32_def g_ramblk_ops_def)
  moreover have "registered demo_disk = []" "length (g_blk_devices demo_disk) = 8" "unat (g_blk_count demo_disk) \<le> 8"
    by (simp_all add: d registered_def no_blk_def)
  ultimately show ?thesis
    using blk_registry [of demo_disk 16] by auto
qed

end
