(* ===== verification/Prog.thy ===== *)
theory Prog
  imports Prelude
begin

text \<open>
  C functions that return a status code and update an object: a program is a function from the
  object to an error code or a result, and the object afterwards. An error stops the program and
  keeps the changes made so far, as the early \<^verbatim>\<open>return rc\<close> of the sources does. The journalling file
  system and the virtual memory manager are written in this form.
\<close>

section \<open>Programs\<close>

type_synonym ('s, 'e, 'a) prog = "'s \<Rightarrow> ('e + 'a) \<times> 's"

definition prog_return :: "'a \<Rightarrow> ('s, 'e, 'a) prog" where
  "prog_return x = (\<lambda>s. (Inr x, s))"

definition prog_fail :: "'e \<Rightarrow> ('s, 'e, 'a) prog" where
  "prog_fail e = (\<lambda>s. (Inl e, s))"

definition prog_bind :: "('s, 'e, 'a) prog \<Rightarrow> ('a \<Rightarrow> ('s, 'e, 'b) prog) \<Rightarrow> ('s, 'e, 'b) prog" where
  "prog_bind p q = (\<lambda>s. case p s of (Inl e, s') \<Rightarrow> (Inl e, s') | (Inr x, s') \<Rightarrow> q x s')"

text \<open>\<^verbatim>\<open>if (cond) return e;\<close>\<close>

definition prog_fail_if :: "bool \<Rightarrow> 'e \<Rightarrow> ('s, 'e, unit) prog" where
  "prog_fail_if c e = (if c then prog_fail e else prog_return ())"

text \<open>The current object.\<close>

definition prog_get :: "('s, 'e, 's) prog" where
  "prog_get = (\<lambda>s. (Inr s, s))"

definition prog_modify :: "('s \<Rightarrow> 's) \<Rightarrow> ('s, 'e, unit) prog" where
  "prog_modify f = (\<lambda>s. (Inr (), f s))"

text \<open>The result of a function that does not touch the object.\<close>

definition prog_lift :: "'e + 'a \<Rightarrow> ('s, 'e, 'a) prog" where
  "prog_lift r = (\<lambda>s. (r, s))"

text \<open>A loop whose body may return early.\<close>

fun prog_for :: "'i list \<Rightarrow> ('i \<Rightarrow> ('s, 'e, unit) prog) \<Rightarrow> ('s, 'e, unit) prog" where
  "prog_for [] body = prog_return ()"
| "prog_for (i # is) body = prog_bind (body i) (\<lambda>_. prog_for is body)"

section \<open>Evaluation\<close>

named_theorems prog_run \<open>how the program constructors run\<close>

lemma prog_return_run [prog_run]: "prog_return x s = (Inr x, s)"
  by (simp add: prog_return_def)

lemma prog_fail_run [prog_run]: "prog_fail e s = (Inl e, s)"
  by (simp add: prog_fail_def)

lemma prog_fail_if_run [prog_run]: "prog_fail_if c e s = (if c then Inl e else Inr (), s)"
  by (simp add: prog_fail_if_def prog_run)

lemma prog_get_run [prog_run]: "prog_get s = (Inr s, s)"
  by (simp add: prog_get_def)

lemma prog_modify_run [prog_run]: "prog_modify f s = (Inr (), f s)"
  by (simp add: prog_modify_def)

lemma prog_lift_run [prog_run]: "prog_lift r s = (r, s)"
  by (simp add: prog_lift_def)

lemma prog_lift_Inr [simp]: "prog_lift (Inr x) = prog_return x"
  by (rule ext) (simp add: prog_run)

lemma prog_lift_Inl [simp]: "prog_lift (Inl e) = prog_fail e"
  by (rule ext) (simp add: prog_run)

lemma prog_bind_fail [simp]: "prog_bind (prog_fail e) q = prog_fail e"
  by (rule ext) (simp add: prog_bind_def prog_run)

lemma prog_bind_Inr: "p s = (Inr x, s') \<Longrightarrow> prog_bind p q s = q x s'"
  by (simp add: prog_bind_def)

lemma prog_bind_Inl: "p s = (Inl e, s') \<Longrightarrow> prog_bind p q s = (Inl e, s')"
  by (simp add: prog_bind_def)

lemma prog_bind_first: "p s = p' s \<Longrightarrow> prog_bind p q s = prog_bind p' q s"
  by (simp add: prog_bind_def)

lemma prog_bind_return [simp]: "prog_bind (prog_return x) q = q x"
  by (rule ext) (simp add: prog_bind_def prog_run)

lemma prog_bind_return_right [simp]: "prog_bind p prog_return = p"
  by (rule ext) (auto simp: prog_bind_def prog_run split: prod.splits sum.splits)

lemma prog_bind_unit_right [simp]: "prog_bind p (\<lambda>_. prog_return ()) = p"
  by (rule ext) (auto simp: prog_bind_def prog_run split: prod.splits sum.splits)

lemma prog_bind_assoc: "prog_bind (prog_bind p q) r = prog_bind p (\<lambda>x. prog_bind (q x) r)"
  by (rule ext) (auto simp: prog_bind_def split: prod.splits sum.splits)

lemma prog_for_append: "prog_for (is @ js) body = prog_bind (prog_for is body) (\<lambda>_. prog_for js body)"
  by (induction "is") (simp_all add: prog_bind_assoc)

lemma prog_for_single [simp]: "prog_for [i] body = body i"
  by simp

lemma prog_for_map: "prog_for (map f is) body = prog_for is (\<lambda>i. body (f i))"
  by (induction "is") simp_all

lemma prog_for_concat: "prog_for (concat (map f is)) body = prog_for is (\<lambda>i. prog_for (f i) body)"
  by (induction "is") (simp_all add: prog_for_append)

text \<open>Two loops agree when their bodies do in every state the second one reaches.\<close>

lemma prog_for_cong_inv:
  assumes "P s" and "\<And>i s. i \<in> set is \<Longrightarrow> P s \<Longrightarrow> f i s = g i s \<and> P (snd (g i s))"
  shows "prog_for is f s = prog_for is g s"
  using assms
proof (induction "is" arbitrary: s)
  case (Cons i "is")
  have fg: "f i s = g i s" "P (snd (g i s))"
    using Cons.prems by auto
  show ?case
  proof (cases "g i s")
    case (Pair r s')
    with fg Cons.IH [of s'] Cons.prems show ?thesis
      by (cases r) (simp_all add: prog_bind_def)
  qed
qed simp

text \<open>A loop whose body only tests: it fails at the first index whose test fails.\<close>

lemma prog_for_tests:
  assumes "\<And>i. i \<in> set is \<Longrightarrow> body i s = (case err i of None \<Rightarrow> Inr () | Some e \<Rightarrow> Inl e, s)"
  shows "prog_for is body s =
    (case find (\<lambda>i. err i \<noteq> None) is of None \<Rightarrow> Inr () | Some i \<Rightarrow> Inl (the (err i)), s)"
  using assms by (induction "is") (auto simp: prog_bind_def prog_run)

lemma prog_for_ok:
  assumes "\<And>i. i \<in> set is \<Longrightarrow> body i s = (Inr (), s)"
  shows "prog_for is body s = (Inr (), s)"
  using assms by (induction "is") (simp_all add: prog_bind_Inr prog_run)

end
