(* ===== verification/Layout.thy ===== *)
theory Layout
  imports Prelude
begin

text \<open>
  Structures in memory and on disk. The sources read and write blocks by casting byte buffers to
  packed structures; here are the little-endian fields such structures are made of, arrays of
  structures inside a byte buffer, and the contract between a structure and its bytes. Each on-disk
  structure of the file systems interprets the contract.
\<close>

section \<open>Little-endian fields\<close>

definition le16 :: "u16 \<Rightarrow> bytes" where
  "le16 w = [ucast w, ucast (drop_bit 8 w)]"

definition le32 :: "u32 \<Rightarrow> bytes" where
  "le32 w = [ucast w, ucast (drop_bit 8 w), ucast (drop_bit 16 w), ucast (drop_bit 24 w)]"

definition le64 :: "u64 \<Rightarrow> bytes" where
  "le64 w = le32 (ucast w) @ le32 (ucast (drop_bit 32 w))"

definition le32s :: "u32 list \<Rightarrow> bytes" where
  "le32s ws = concat (map le32 ws)"

definition rd16 :: "bytes \<Rightarrow> nat \<Rightarrow> u16" where
  "rd16 b off = ucast (b ! off) OR push_bit 8 (ucast (b ! (off + 1)))"

definition rd32 :: "bytes \<Rightarrow> nat \<Rightarrow> u32" where
  "rd32 b off = ucast (b ! off) OR push_bit 8 (ucast (b ! (off + 1))) OR
     push_bit 16 (ucast (b ! (off + 2))) OR push_bit 24 (ucast (b ! (off + 3)))"

definition rd64 :: "bytes \<Rightarrow> nat \<Rightarrow> u64" where
  "rd64 b off = ucast (rd32 b off) OR push_bit 32 (ucast (rd32 b (off + 4)))"

definition rd32s :: "bytes \<Rightarrow> nat \<Rightarrow> nat \<Rightarrow> u32 list" where
  "rd32s b off n = map (\<lambda>i. rd32 b (off + 4 * i)) [0..<n]"

definition rd8s :: "bytes \<Rightarrow> nat \<Rightarrow> nat \<Rightarrow> bytes" where
  "rd8s b off n = map (\<lambda>i. b ! (off + i)) [0..<n]"

named_theorems layout \<open>fields of encoded structures\<close>

lemma length_le [layout]:
  "length (le16 v) = 2" "length (le32 w) = 4" "length (le64 x) = 8" "length (le32s ws) = 4 * length ws"
  by (simp_all add: le16_def le32_def le64_def le32s_def length_concat comp_def sum_list_triv)

lemma length_rd32s [layout]: "length (rd32s b off n) = n"
  by (simp add: rd32s_def)

lemma rd16_le16 [layout]: "rd16 (le16 w @ r) 0 = w"
proof (rule bit_word_eqI)
  fix n assume n: "n < LENGTH(16)"
  then consider "n < 8" | "8 \<le> n"
    by linarith
  then show "bit (rd16 (le16 w @ r) 0) n = bit w n"
    by cases (use n in \<open>simp_all add: rd16_def le16_def bit_simps less_diff_conv2\<close>)
qed

lemma rd32_le32 [layout]: "rd32 (le32 w @ r) 0 = w"
proof (rule bit_word_eqI)
  fix n assume n: "n < LENGTH(32)"
  then consider "n < 8" | "8 \<le> n" "n < 16" | "16 \<le> n" "n < 24" | "24 \<le> n"
    by linarith
  then show "bit (rd32 (le32 w @ r) 0) n = bit w n"
    by cases (use n in \<open>simp_all add: rd32_def le32_def bit_simps less_diff_conv2\<close>)
qed

lemma rd32_append [layout]: "length a \<le> off \<Longrightarrow> rd32 (a @ b) off = rd32 b (off - length a)"
  by (simp add: rd32_def nth_append Suc_diff_le)

lemma rd16_append [layout]: "length a \<le> off \<Longrightarrow> rd16 (a @ b) off = rd16 b (off - length a)"
  by (simp add: rd16_def nth_append Suc_diff_le)

lemma rd64_append [layout]: "length a \<le> off \<Longrightarrow> rd64 (a @ b) off = rd64 b (off - length a)"
  by (simp add: rd64_def rd32_append)

lemma rd64_le64 [layout]: "rd64 (le64 w @ r) 0 = w"
proof -
  have "rd32 (le64 w @ r) 0 = ucast w" "rd32 (le64 w @ r) 4 = ucast (drop_bit 32 w)"
    by (simp_all add: le64_def layout)
  then have rd: "rd64 (le64 w @ r) 0 = ucast (ucast w :: u32) OR push_bit 32 (ucast (ucast (drop_bit 32 w) :: u32))"
    by (simp add: rd64_def)
  show ?thesis
  proof (rule bit_word_eqI)
    fix n assume n: "n < LENGTH(64)"
    then consider "n < 32" | "32 \<le> n"
      by linarith
    then show "bit (rd64 (le64 w @ r) 0) n = bit w n"
      by cases (use n in \<open>simp_all add: rd bit_simps less_diff_conv2\<close>)
  qed
qed

lemma rd32s_append [layout]: "length a \<le> off \<Longrightarrow> rd32s (a @ b) off n = rd32s b (off - length a) n"
  by (simp add: rd32s_def rd32_append)

lemma rd32s_le32s: "rd32s (le32s ws @ r) 0 (length ws) = ws"
proof (rule nth_equalityI)
  have "rd32 (le32s ws @ r) (4 * i) = ws ! i" if "i < length ws" for i
    using that
  proof (induction ws arbitrary: i)
    case (Cons w ws)
    then show ?case
      by (cases i) (simp_all add: le32s_def layout)
  qed simp
  then show "rd32s (le32s ws @ r) 0 (length ws) ! i = ws ! i" if "i < length (rd32s (le32s ws @ r) 0 (length ws))" for i
    using that by (simp add: rd32s_def)
qed (simp add: layout)

lemma rd32s_le32s_eq [layout]: "length ws = n \<Longrightarrow> rd32s (le32s ws @ r) 0 n = ws"
  using rd32s_le32s by blast

lemma length_rd8s [layout]: "length (rd8s b off n) = n"
  by (simp add: rd8s_def)

lemma rd8s_append [layout]: "length a \<le> off \<Longrightarrow> rd8s (a @ b) off n = rd8s b (off - length a) n"
  by (simp add: rd8s_def nth_append)

lemma rd8s_all [layout]: "length b = n \<Longrightarrow> rd8s b 0 n = b"
  by (auto simp: rd8s_def intro: nth_equalityI)

lemma rd_le_end [layout]:
  "rd16 (le16 v) 0 = v" "rd32 (le32 w) 0 = w" "rd64 (le64 x) 0 = x"
  "length ws = n \<Longrightarrow> rd32s (le32s ws) 0 n = ws"
  using rd16_le16 [of v "[]"] rd32_le32 [of w "[]"] rd64_le64 [of x "[]"] rd32s_le32s_eq [of ws n "[]"]
  by simp_all

lemma rd_zeros [layout]:
  "off + 2 \<le> n \<Longrightarrow> rd16 (replicate n 0) off = 0"
  "off + 4 \<le> n \<Longrightarrow> rd32 (replicate n 0) off = 0"
  "off + 8 \<le> n \<Longrightarrow> rd64 (replicate n 0) off = 0"
  by (simp_all add: rd16_def rd32_def rd64_def)

section \<open>Arrays of structures in a buffer\<close>

text \<open>Reading and writing the \<open>i\<close>-th structure of size \<open>sz\<close> of a buffer.\<close>

definition struct_at :: "nat \<Rightarrow> (bytes \<Rightarrow> 'a) \<Rightarrow> bytes \<Rightarrow> nat \<Rightarrow> 'a" where
  "struct_at sz decode b i = decode (slice (sz * i) sz b)"

definition struct_put :: "nat \<Rightarrow> ('a \<Rightarrow> bytes) \<Rightarrow> bytes \<Rightarrow> nat \<Rightarrow> 'a \<Rightarrow> bytes" where
  "struct_put sz encode b i x = copy_loop b (sz * i) (encode x) 0 sz"

lemma length_struct_put [simp]: "length (struct_put sz encode b i x) = length b"
  by (simp add: struct_put_def)

locale struct_layout =
  fixes sz :: nat
    and encode :: "'a \<Rightarrow> bytes"
    and decode :: "bytes \<Rightarrow> 'a"
    and ok :: "'a \<Rightarrow> bool"
  assumes length_encode: "ok x \<Longrightarrow> length (encode x) = sz"
    and decode_encode: "ok x \<Longrightarrow> decode (encode x) = x"
    and decode_ok: "ok (decode b)"
begin

lemma at_put_same:
  assumes "sz * i + sz \<le> length b" and "ok x"
  shows "struct_at sz decode (struct_put sz encode b i x) i = x"
  using assms by (simp add: struct_at_def struct_put_def slice_copy_same length_encode)
    (simp add: slice_def length_encode decode_encode)

lemma at_put_other:
  assumes "sz * i + sz \<le> length b" and "sz * j + sz \<le> length b" and "i \<noteq> j" and "ok x"
  shows "struct_at sz decode (struct_put sz encode b i x) j = struct_at sz decode b j"
proof -
  have "sz * j + sz \<le> sz * i \<or> sz * i + sz \<le> sz * j"
  proof (cases "i < j")
    case True
    then have "sz * Suc i \<le> sz * j"
      by (intro mult_le_mono2) simp
    then show ?thesis
      by simp
  next
    case False
    then have "sz * Suc j \<le> sz * i"
      using \<open>i \<noteq> j\<close> by (intro mult_le_mono2) simp
    then show ?thesis
      by simp
  qed
  then show ?thesis
    using assms by (simp add: struct_at_def struct_put_def slice_copy_other length_encode)
qed

lemma at_put:
  assumes "sz * i + sz \<le> length b" and "sz * j + sz \<le> length b" and "ok x"
  shows "struct_at sz decode (struct_put sz encode b i x) j = (if i = j then x else struct_at sz decode b j)"
  using assms at_put_same at_put_other by auto

lemma at_ok: "ok (struct_at sz decode b i)"
  by (simp add: struct_at_def decode_ok)

end

section \<open>C strings\<close>

text \<open>
  The bytes of a NUL-terminated string, given without its terminator, and the scan of the sources
  for the terminator within the first \<open>m\<close> bytes.
\<close>

definition char_at :: "bytes \<Rightarrow> nat \<Rightarrow> u8" where
  "char_at s i = (if i < length s then s ! i else 0)"

definition strlen_bounded :: "bytes \<Rightarrow> nat \<Rightarrow> nat" where
  "strlen_bounded s m = (case find (\<lambda>n. char_at s n = 0) [0..<m] of None \<Rightarrow> m | Some n \<Rightarrow> n)"

lemma strlen_bounded_le: "strlen_bounded s m \<le> m"
  by (auto simp: strlen_bounded_def find_upt_Some split: option.splits)

lemma char_before_strlen: "i < strlen_bounded s m \<Longrightarrow> char_at s i \<noteq> 0"
  by (auto simp: strlen_bounded_def find_upt_Some find_upt_None split: option.splits)

lemma char_at_strlen: "strlen_bounded s m < m \<Longrightarrow> char_at s (strlen_bounded s m) = 0"
proof (cases "find (\<lambda>n. char_at s n = 0) [0..<m]")
  case (Some n)
  then show ?thesis
    using find_upt_Some [of "\<lambda>n. char_at s n = 0" 0 m n] by (simp add: strlen_bounded_def)
qed (simp add: strlen_bounded_def)

lemma strlen_bounded_le_length: "strlen_bounded s m \<le> length s"
proof (rule ccontr)
  assume "\<not> strlen_bounded s m \<le> length s"
  then have "length s < strlen_bounded s m"
    by simp
  from char_before_strlen [OF this] show False
    by (simp add: char_at_def)
qed

lemma strlen_bounded_length:
  assumes "0 \<notin> set s"
  shows "strlen_bounded s m = min (length s) m"
proof -
  have nz: "s ! i \<noteq> 0" if "i < length s" for i
    using assms nth_mem [OF that] by metis
  show ?thesis
  proof (cases "length s < m")
    case True
    then have "find (\<lambda>n. char_at s n = 0) [0..<m] = Some (length s)"
      unfolding find_upt_Some by (simp add: char_at_def nz)
    with True show ?thesis
      by (simp add: strlen_bounded_def)
  next
    case False
    then have "find (\<lambda>n. char_at s n = 0) [0..<m] = None"
      unfolding find_upt_None by (simp add: char_at_def nz)
    with False show ?thesis
      by (simp add: strlen_bounded_def)
  qed
qed

end
