(* ===== verification/Journal.thy ===== *)
theory Journal
  imports Prog Layout Bitmap
begin

text \<open>
  The journalling file system MCSFS1J, \<^verbatim>\<open>src/kernel/fs/mcsfs1j/m16_mcsfs_journal.c\<close>: the block
  device with its injected power failure, the on-disk structures, the journal (commit and recovery),
  and the operations format, mount, write, read and fsck.

  A function that returns a status and changes the device is a program over the device. Static
  functions get the addresses of their callers' local variables, so they have no NULL arguments
  here; the pointers that callers pass to the exported functions are \<open>None\<close> for NULL. Each exported
  function is its NULL tests followed by a body.
\<close>

section \<open>Constants\<close>

definition M16_BLOCK_SIZE :: nat where "M16_BLOCK_SIZE = 512"
definition M16_MAX_BLOCKS :: u32 where "M16_MAX_BLOCKS = 128"
definition M16_MAX_INODES :: u32 where "M16_MAX_INODES = 16"
definition M16_DIRECT_BLOCKS :: nat where "M16_DIRECT_BLOCKS = 4"
definition M16_MAX_NAME :: nat where "M16_MAX_NAME = 32"
definition M16_MAGIC :: u64 where "M16_MAGIC = 0x4d43534631564a31"
definition M16_JMAGIC :: u64 where "M16_JMAGIC = 0x4d43534a524e4c31"
definition M16_VERSION :: u32 where "M16_VERSION = 1"
definition M16_J_EMPTY :: u32 where "M16_J_EMPTY = 0"
definition M16_J_COMMITTED :: u32 where "M16_J_COMMITTED = 2"
definition M16_JOURNAL_MAX_RECORDS :: u32 where "M16_JOURNAL_MAX_RECORDS = 8"
definition M16_JOURNAL_START :: u32 where "M16_JOURNAL_START = 1"
definition M16_JOURNAL_BLOCKS :: u32 where "M16_JOURNAL_BLOCKS = 1 + 2 * M16_JOURNAL_MAX_RECORDS"
definition M16_INODE_BITMAP_LBA :: u32 where "M16_INODE_BITMAP_LBA = M16_JOURNAL_START + M16_JOURNAL_BLOCKS"
definition M16_BLOCK_BITMAP_LBA :: u32 where "M16_BLOCK_BITMAP_LBA = M16_INODE_BITMAP_LBA + 1"
definition M16_INODE_TABLE_LBA :: u32 where "M16_INODE_TABLE_LBA = M16_BLOCK_BITMAP_LBA + 1"
definition M16_INODE_TABLE_BLOCKS :: u32 where "M16_INODE_TABLE_BLOCKS = 4"
definition M16_ROOT_DIR_LBA :: u32 where "M16_ROOT_DIR_LBA = M16_INODE_TABLE_LBA + M16_INODE_TABLE_BLOCKS"
definition M16_DATA_START_LBA :: u32 where "M16_DATA_START_LBA = M16_ROOT_DIR_LBA + 1"

lemma m16_layout:
  "M16_INODE_BITMAP_LBA = 18" "M16_BLOCK_BITMAP_LBA = 19" "M16_INODE_TABLE_LBA = 20"
  "M16_ROOT_DIR_LBA = 24" "M16_DATA_START_LBA = 25"
  by (simp_all add: M16_INODE_BITMAP_LBA_def M16_BLOCK_BITMAP_LBA_def M16_INODE_TABLE_LBA_def
    M16_ROOT_DIR_LBA_def M16_DATA_START_LBA_def M16_JOURNAL_START_def M16_JOURNAL_BLOCKS_def
    M16_JOURNAL_MAX_RECORDS_def M16_INODE_TABLE_BLOCKS_def)

lemmas m16_consts = m16_layout M16_BLOCK_SIZE_def M16_MAX_BLOCKS_def M16_MAX_INODES_def
  M16_JOURNAL_START_def M16_JOURNAL_MAX_RECORDS_def M16_INODE_TABLE_BLOCKS_def

text \<open>
  The status codes. \<open>M16_UNDEFINED\<close> is not a code of the source: it marks a run that accesses
  memory outside an object.
\<close>

datatype m16_status =
    M16_E_OK | M16_E_INVAL | M16_E_IO | M16_E_NOSPC | M16_E_EXISTS | M16_E_NOENT
  | M16_E_CORRUPT | M16_E_TOOLONG | M16_UNDEFINED

section \<open>Structures\<close>

record m16_blockdev =
  m16_blocks :: "bytes list"
  m16_total_blocks :: u32
  m16_writes :: u64
  m16_fail_after :: int

record m16_super =
  sb_magic :: u64
  sb_version :: u32
  sb_block_size :: u32
  sb_total_blocks :: u32
  sb_journal_start :: u32
  sb_journal_blocks :: u32
  sb_inode_bitmap_lba :: u32
  sb_block_bitmap_lba :: u32
  sb_inode_table_lba :: u32
  sb_inode_table_blocks :: u32
  sb_root_dir_lba :: u32
  sb_data_start_lba :: u32
  sb_clean_generation :: u32
  sb_reserved :: "u32 list"

record m16_inode =
  ino_used :: u32
  ino_kind :: u32
  ino_size :: u32
  ino_direct :: "u32 list"
  ino_reserved :: "u32 list"

record m16_dirent =
  de_used :: u32
  de_ino :: u32
  de_name :: bytes

record m16_journal_header =
  jh_magic :: u64
  jh_version :: u32
  jh_state :: u32
  jh_seq :: u32
  jh_count :: u32
  jh_header_checksum :: u32
  jh_reserved :: "u32 list"

record m16_journal_desc =
  jd_magic :: u64
  jd_target_lba :: u32
  jd_payload_checksum :: u32
  jd_reserved :: "u32 list"

record m16_jrec =
  rec_target_lba :: u32
  rec_payload :: bytes

record m16_tx =
  tx_count :: u32
  tx_rec :: "m16_jrec list"

subsection \<open>Their bytes\<close>

definition m16_super_bytes :: "m16_super \<Rightarrow> bytes" where
  "m16_super_bytes s = le64 (sb_magic s) @ le32 (sb_version s) @ le32 (sb_block_size s) @
     le32 (sb_total_blocks s) @ le32 (sb_journal_start s) @ le32 (sb_journal_blocks s) @
     le32 (sb_inode_bitmap_lba s) @ le32 (sb_block_bitmap_lba s) @ le32 (sb_inode_table_lba s) @
     le32 (sb_inode_table_blocks s) @ le32 (sb_root_dir_lba s) @ le32 (sb_data_start_lba s) @
     le32 (sb_clean_generation s) @ le32s (sb_reserved s)"

definition m16_super_of :: "bytes \<Rightarrow> m16_super" where
  "m16_super_of b = \<lparr>sb_magic = rd64 b 0, sb_version = rd32 b 8, sb_block_size = rd32 b 12,
     sb_total_blocks = rd32 b 16, sb_journal_start = rd32 b 20, sb_journal_blocks = rd32 b 24,
     sb_inode_bitmap_lba = rd32 b 28, sb_block_bitmap_lba = rd32 b 32, sb_inode_table_lba = rd32 b 36,
     sb_inode_table_blocks = rd32 b 40, sb_root_dir_lba = rd32 b 44, sb_data_start_lba = rd32 b 48,
     sb_clean_generation = rd32 b 52, sb_reserved = rd32s b 56 114\<rparr>"

definition m16_inode_bytes :: "m16_inode \<Rightarrow> bytes" where
  "m16_inode_bytes n = le32 (ino_used n) @ le32 (ino_kind n) @ le32 (ino_size n) @
     le32s (ino_direct n) @ le32s (ino_reserved n)"

definition m16_inode_of :: "bytes \<Rightarrow> m16_inode" where
  "m16_inode_of b = \<lparr>ino_used = rd32 b 0, ino_kind = rd32 b 4, ino_size = rd32 b 8,
     ino_direct = rd32s b 12 4, ino_reserved = rd32s b 28 25\<rparr>"

definition m16_dirent_bytes :: "m16_dirent \<Rightarrow> bytes" where
  "m16_dirent_bytes d = le32 (de_used d) @ le32 (de_ino d) @ de_name d"

definition m16_dirent_of :: "bytes \<Rightarrow> m16_dirent" where
  "m16_dirent_of b = \<lparr>de_used = rd32 b 0, de_ino = rd32 b 4, de_name = rd8s b 8 32\<rparr>"

definition m16_journal_header_bytes :: "m16_journal_header \<Rightarrow> bytes" where
  "m16_journal_header_bytes h = le64 (jh_magic h) @ le32 (jh_version h) @ le32 (jh_state h) @
     le32 (jh_seq h) @ le32 (jh_count h) @ le32 (jh_header_checksum h) @ le32s (jh_reserved h)"

definition m16_journal_header_of :: "bytes \<Rightarrow> m16_journal_header" where
  "m16_journal_header_of b = \<lparr>jh_magic = rd64 b 0, jh_version = rd32 b 8, jh_state = rd32 b 12,
     jh_seq = rd32 b 16, jh_count = rd32 b 20, jh_header_checksum = rd32 b 24,
     jh_reserved = rd32s b 28 121\<rparr>"

definition m16_journal_desc_bytes :: "m16_journal_desc \<Rightarrow> bytes" where
  "m16_journal_desc_bytes d = le64 (jd_magic d) @ le32 (jd_target_lba d) @
     le32 (jd_payload_checksum d) @ le32s (jd_reserved d)"

definition m16_journal_desc_of :: "bytes \<Rightarrow> m16_journal_desc" where
  "m16_journal_desc_of b = \<lparr>jd_magic = rd64 b 0, jd_target_lba = rd32 b 8,
     jd_payload_checksum = rd32 b 12, jd_reserved = rd32s b 16 124\<rparr>"

interpretation super_bytes: struct_layout 512 m16_super_bytes m16_super_of "\<lambda>s. length (sb_reserved s) = 114"
  by unfold_locales (auto simp: m16_super_bytes_def m16_super_of_def layout)

interpretation inode_bytes: struct_layout 128 m16_inode_bytes m16_inode_of
  "\<lambda>n. length (ino_direct n) = 4 \<and> length (ino_reserved n) = 25"
  by unfold_locales (auto simp: m16_inode_bytes_def m16_inode_of_def layout)

interpretation dirent_bytes: struct_layout 40 m16_dirent_bytes m16_dirent_of "\<lambda>d. length (de_name d) = 32"
  by unfold_locales (auto simp: m16_dirent_bytes_def m16_dirent_of_def layout)

interpretation header_bytes: struct_layout 512 m16_journal_header_bytes m16_journal_header_of
  "\<lambda>h. length (jh_reserved h) = 121"
  by unfold_locales (auto simp: m16_journal_header_bytes_def m16_journal_header_of_def layout)

interpretation desc_bytes: struct_layout 512 m16_journal_desc_bytes m16_journal_desc_of
  "\<lambda>d. length (jd_reserved d) = 124"
  by unfold_locales (auto simp: m16_journal_desc_bytes_def m16_journal_desc_of_def layout)

text \<open>The inode array over the 2048 bytes of the inode table, the directory over one block.\<close>

abbreviation m16_inode_at :: "bytes \<Rightarrow> nat \<Rightarrow> m16_inode" where
  "m16_inode_at \<equiv> struct_at 128 m16_inode_of"

abbreviation m16_inode_put :: "bytes \<Rightarrow> nat \<Rightarrow> m16_inode \<Rightarrow> bytes" where
  "m16_inode_put \<equiv> struct_put 128 m16_inode_bytes"

abbreviation m16_dirent_at :: "bytes \<Rightarrow> nat \<Rightarrow> m16_dirent" where
  "m16_dirent_at \<equiv> struct_at 40 m16_dirent_of"

abbreviation m16_dirent_put :: "bytes \<Rightarrow> nat \<Rightarrow> m16_dirent \<Rightarrow> bytes" where
  "m16_dirent_put \<equiv> struct_put 40 m16_dirent_bytes"

section \<open>Byte helpers and checksums\<close>

definition m16_zero :: "nat \<Rightarrow> bytes" where
  "m16_zero n = replicate n 0"

definition m16_copy :: "bytes \<Rightarrow> nat \<Rightarrow> bytes \<Rightarrow> nat \<Rightarrow> nat \<Rightarrow> bytes" where
  "m16_copy dst doff src soff n = copy_loop dst doff src soff n"

definition m16_strlen_bounded :: "bytes \<Rightarrow> nat \<Rightarrow> nat" where
  "m16_strlen_bounded s m = strlen_bounded s m"

text \<open>The comparison stops at the first difference or at a NUL in \<open>a\<close>.\<close>

definition m16_streq :: "bytes \<Rightarrow> bytes \<Rightarrow> bool" where
  "m16_streq a b \<longleftrightarrow>
    (case find (\<lambda>i. char_at a i \<noteq> char_at b i \<or> char_at a i = 0) [0..<M16_MAX_NAME] of
       None \<Rightarrow> True
     | Some i \<Rightarrow> char_at a i = char_at b i)"

definition m16_checksum :: "bytes \<Rightarrow> u32" where
  "m16_checksum p = fold (\<lambda>b h. (h XOR ucast b) * 16777619) p 2166136261"

section \<open>The block device\<close>

type_synonym 'a m16_prog = "(m16_blockdev, m16_status, 'a) prog"

definition m16_valid_lba :: "m16_blockdev \<Rightarrow> u32 \<Rightarrow> bool" where
  "m16_valid_lba dev lba \<longleftrightarrow> lba < m16_total_blocks dev \<and> lba < M16_MAX_BLOCKS"

definition m16_read_block :: "u32 \<Rightarrow> bytes m16_prog" where
  "m16_read_block lba dev =
    (if \<not> m16_valid_lba dev lba then (Inl M16_E_INVAL, dev)
     else (Inr (m16_blocks dev ! unat lba), dev))"

text \<open>
  A device with \<open>fail_after = n \<ge> 0\<close> accepts \<open>n\<close> more writes and then refuses all writes, as if the
  power were gone.
\<close>

definition m16_write_block :: "u32 \<Rightarrow> bytes \<Rightarrow> unit m16_prog" where
  "m16_write_block lba data dev =
    (if \<not> m16_valid_lba dev lba then (Inl M16_E_INVAL, dev)
     else if m16_fail_after dev = 0 then (Inl M16_E_IO, dev)
     else
       let dev = (if m16_fail_after dev > 0
                  then dev\<lparr>m16_fail_after := m16_fail_after dev - 1\<rparr> else dev)
       in (Inr (), dev\<lparr>m16_blocks := (m16_blocks dev)[unat lba :=
                         m16_copy (m16_blocks dev ! unat lba) 0 data 0 M16_BLOCK_SIZE],
                       m16_writes := m16_writes dev + 1\<rparr>))"

definition m16_dev_init :: "m16_blockdev option \<Rightarrow> m16_blockdev option" where
  "m16_dev_init dev = map_option (\<lambda>_.
     \<lparr>m16_blocks = replicate (unat M16_MAX_BLOCKS) (m16_zero M16_BLOCK_SIZE),
      m16_total_blocks = M16_MAX_BLOCKS, m16_writes = 0, m16_fail_after = -1\<rparr>) dev"

definition m16_bitmap_set :: "bytes \<Rightarrow> u32 \<Rightarrow> bytes" where
  "m16_bitmap_set bm ix =
    bm[unat (ix div 8) := bm ! unat (ix div 8) OR bit_byte (unat (ix mod 8))]"

definition m16_bitmap_get :: "bytes \<Rightarrow> u32 \<Rightarrow> bool" where
  "m16_bitmap_get bm ix \<longleftrightarrow> bm ! unat (ix div 8) AND bit_byte (unat (ix mod 8)) \<noteq> 0"

interpretation m16_bits: bitmap_ops unat m16_bitmap_set m16_bitmap_get
  by unfold_locales
    (simp_all add: m16_bitmap_set_def m16_bitmap_get_def unat_div unat_mod bits_set_byte bits_test_byte)

definition m16_load_inode_table :: "bytes m16_prog" where
  "m16_load_inode_table =
    prog_bind (m16_read_block M16_INODE_TABLE_LBA) (\<lambda>b0.
    prog_bind (m16_read_block (M16_INODE_TABLE_LBA + 1)) (\<lambda>b1.
    prog_bind (m16_read_block (M16_INODE_TABLE_LBA + 2)) (\<lambda>b2.
    prog_bind (m16_read_block (M16_INODE_TABLE_LBA + 3)) (\<lambda>b3.
    prog_return (b0 @ b1 @ b2 @ b3)))))"

section \<open>Transactions\<close>

definition m16_tx_zero :: m16_tx where
  "m16_tx_zero = \<lparr>tx_count = 0, tx_rec = replicate (unat M16_JOURNAL_MAX_RECORDS)
     \<lparr>rec_target_lba = 0, rec_payload = m16_zero M16_BLOCK_SIZE\<rparr>\<rparr>"

text \<open>Filling the next record with the 512 bytes at \<open>off\<close> of a buffer.\<close>

definition m16_tx_push :: "u32 \<Rightarrow> bytes \<Rightarrow> nat \<Rightarrow> m16_tx \<Rightarrow> m16_tx" where
  "m16_tx_push lba payload off tx =
    (let n = unat (tx_count tx) in
     tx\<lparr>tx_count := tx_count tx + 1,
        tx_rec := (tx_rec tx)[n := \<lparr>rec_target_lba = lba,
          rec_payload = m16_copy (rec_payload (tx_rec tx ! n)) 0 payload off M16_BLOCK_SIZE\<rparr>]\<rparr>)"

definition m16_store_inode_table :: "m16_tx \<Rightarrow> bytes \<Rightarrow> m16_status + m16_tx" where
  "m16_store_inode_table tx raw =
    (if tx_count tx + M16_INODE_TABLE_BLOCKS > M16_JOURNAL_MAX_RECORDS then Inl M16_E_NOSPC
     else Inr (fold (\<lambda>i. m16_tx_push (M16_INODE_TABLE_LBA + of_nat i) raw (i * M16_BLOCK_SIZE))
                 [0..<unat M16_INODE_TABLE_BLOCKS] tx))"

definition m16_tx_add :: "m16_tx \<Rightarrow> u32 \<Rightarrow> bytes \<Rightarrow> m16_status + m16_tx" where
  "m16_tx_add tx lba payload =
    (if tx_count tx \<ge> M16_JOURNAL_MAX_RECORDS then Inl M16_E_NOSPC
     else Inr (m16_tx_push lba payload 0 tx))"

section \<open>The journal\<close>

definition m16_header_checksum :: "m16_journal_header \<Rightarrow> u32" where
  "m16_header_checksum h = m16_checksum (m16_journal_header_bytes (h\<lparr>jh_header_checksum := 0\<rparr>))"

definition m16_journal_clear :: "unit m16_prog" where
  "m16_journal_clear = m16_write_block M16_JOURNAL_START (m16_zero M16_BLOCK_SIZE)"

definition m16_desc_lba :: "nat \<Rightarrow> u32" where
  "m16_desc_lba i = M16_JOURNAL_START + 1 + of_nat i * 2"

definition m16_make_desc :: "m16_jrec \<Rightarrow> m16_journal_desc" where
  "m16_make_desc r = \<lparr>jd_magic = M16_JMAGIC, jd_target_lba = rec_target_lba r,
     jd_payload_checksum = m16_checksum (take M16_BLOCK_SIZE (rec_payload r)),
     jd_reserved = replicate 124 0\<rparr>"

definition m16_make_header :: "u32 \<Rightarrow> u32 \<Rightarrow> m16_journal_header" where
  "m16_make_header seq count =
    (let h = \<lparr>jh_magic = M16_JMAGIC, jh_version = M16_VERSION, jh_state = M16_J_COMMITTED,
              jh_seq = seq, jh_count = count, jh_header_checksum = 0, jh_reserved = replicate 121 0\<rparr>
     in h\<lparr>jh_header_checksum := m16_header_checksum h\<rparr>)"

definition m16_journal_commit :: "m16_tx \<Rightarrow> u32 \<Rightarrow> bool \<Rightarrow> unit m16_prog" where
  "m16_journal_commit tx seq stop_after_commit_record =
    prog_bind (prog_fail_if (tx_count tx > M16_JOURNAL_MAX_RECORDS) M16_E_INVAL) (\<lambda>_.
    prog_bind m16_journal_clear (\<lambda>_.
    prog_bind (prog_for [0..<unat (tx_count tx)] (\<lambda>i.
      prog_bind (m16_write_block (m16_desc_lba i)
                   (m16_journal_desc_bytes (m16_make_desc (tx_rec tx ! i)))) (\<lambda>_.
      m16_write_block (m16_desc_lba i + 1) (rec_payload (tx_rec tx ! i))))) (\<lambda>_.
    prog_bind (m16_write_block M16_JOURNAL_START
                 (m16_journal_header_bytes (m16_make_header seq (tx_count tx)))) (\<lambda>_.
    if stop_after_commit_record then prog_return ()
    else
      prog_bind (prog_for [0..<unat (tx_count tx)] (\<lambda>i.
        m16_write_block (rec_target_lba (tx_rec tx ! i)) (rec_payload (tx_rec tx ! i)))) (\<lambda>_.
      m16_journal_clear)))))"

definition m16_replay_record :: "nat \<Rightarrow> unit m16_prog" where
  "m16_replay_record i =
    prog_bind (m16_read_block (m16_desc_lba i)) (\<lambda>b.
    let d = m16_journal_desc_of b in
    prog_bind prog_get (\<lambda>dev.
    prog_bind (prog_fail_if (jd_magic d \<noteq> M16_JMAGIC \<or> \<not> m16_valid_lba dev (jd_target_lba d))
                 M16_E_CORRUPT) (\<lambda>_.
    prog_bind (m16_read_block (m16_desc_lba i + 1)) (\<lambda>payload.
    prog_bind (prog_fail_if (m16_checksum payload \<noteq> jd_payload_checksum d) M16_E_CORRUPT) (\<lambda>_.
    m16_write_block (jd_target_lba d) payload)))))"

definition m16_recover_body :: "unit m16_prog" where
  "m16_recover_body =
    prog_bind (m16_read_block M16_JOURNAL_START) (\<lambda>b.
    let h = m16_journal_header_of b in
    if jh_magic h = 0 \<and> jh_state h = M16_J_EMPTY then prog_return ()
    else
      prog_bind (prog_fail_if (jh_magic h \<noteq> M16_JMAGIC \<or> jh_version h \<noteq> M16_VERSION \<or>
                   jh_state h \<noteq> M16_J_COMMITTED \<or> jh_count h > M16_JOURNAL_MAX_RECORDS)
                   M16_E_CORRUPT) (\<lambda>_.
      prog_bind (prog_fail_if (m16_header_checksum h \<noteq> jh_header_checksum h) M16_E_CORRUPT) (\<lambda>_.
      prog_bind (prog_for [0..<unat (jh_count h)] m16_replay_record) (\<lambda>_.
      m16_journal_clear))))"

text \<open>An exported function: the test of \<^verbatim>\<open>dev\<close>, then the body; the status is the function's result.\<close>

definition m16_entry :: "unit m16_prog \<Rightarrow> m16_blockdev option \<Rightarrow> m16_status \<times> m16_blockdev option" where
  "m16_entry body dev = (case dev of None \<Rightarrow> (M16_E_INVAL, None) | Some d \<Rightarrow>
     (case body d of (Inl e, d') \<Rightarrow> (e, Some d') | (Inr _, d') \<Rightarrow> (M16_E_OK, Some d')))"

definition m16_journal_recover :: "m16_blockdev option \<Rightarrow> m16_status \<times> m16_blockdev option" where
  "m16_journal_recover dev = m16_entry m16_recover_body dev"

section \<open>Format and mount\<close>

definition m16_format_super :: "m16_blockdev \<Rightarrow> m16_super" where
  "m16_format_super dev = \<lparr>sb_magic = M16_MAGIC, sb_version = M16_VERSION,
     sb_block_size = of_nat M16_BLOCK_SIZE, sb_total_blocks = m16_total_blocks dev,
     sb_journal_start = M16_JOURNAL_START, sb_journal_blocks = M16_JOURNAL_BLOCKS,
     sb_inode_bitmap_lba = M16_INODE_BITMAP_LBA, sb_block_bitmap_lba = M16_BLOCK_BITMAP_LBA,
     sb_inode_table_lba = M16_INODE_TABLE_LBA, sb_inode_table_blocks = M16_INODE_TABLE_BLOCKS,
     sb_root_dir_lba = M16_ROOT_DIR_LBA, sb_data_start_lba = M16_DATA_START_LBA,
     sb_clean_generation = 1, sb_reserved = replicate 114 0\<rparr>"

definition m16_format_inodes :: bytes where
  "m16_format_inodes =
    (let raw = m16_zero 2048; root = m16_inode_at raw 0 in
     m16_inode_put raw 0 (root\<lparr>ino_used := 1, ino_kind := 2, ino_size := 0,
       ino_direct := (ino_direct root)[0 := M16_ROOT_DIR_LBA]\<rparr>))"

definition m16_format_body :: "unit m16_prog" where
  "m16_format_body =
    prog_bind (prog_modify (\<lambda>dev. dev\<lparr>m16_blocks :=
      replicate (unat M16_MAX_BLOCKS) (m16_zero M16_BLOCK_SIZE)\<rparr>)) (\<lambda>_.
    prog_bind prog_get (\<lambda>dev.
    prog_bind (m16_write_block 0 (m16_super_bytes (m16_format_super dev))) (\<lambda>_.
    let ib = m16_bitmap_set (m16_zero M16_BLOCK_SIZE) 0;
        bb = fold (\<lambda>i bm. m16_bitmap_set bm (of_nat i)) [0..<unat M16_DATA_START_LBA]
               (m16_zero M16_BLOCK_SIZE) in
    prog_bind (m16_write_block M16_INODE_BITMAP_LBA ib) (\<lambda>_.
    prog_bind (m16_write_block M16_BLOCK_BITMAP_LBA bb) (\<lambda>_.
    prog_bind (prog_for [0..<unat M16_INODE_TABLE_BLOCKS] (\<lambda>i.
      m16_write_block (M16_INODE_TABLE_LBA + of_nat i)
        (drop (i * M16_BLOCK_SIZE) m16_format_inodes))) (\<lambda>_.
    prog_bind (m16_write_block M16_ROOT_DIR_LBA (m16_zero M16_BLOCK_SIZE)) (\<lambda>_.
    m16_journal_clear)))))))"

definition m16_format :: "m16_blockdev option \<Rightarrow> m16_status \<times> m16_blockdev option" where
  "m16_format dev = m16_entry m16_format_body dev"

definition m16_mount_body :: "m16_super m16_prog" where
  "m16_mount_body =
    prog_bind m16_recover_body (\<lambda>_.
    prog_bind (m16_read_block 0) (\<lambda>b.
    let sb = m16_super_of b in
    prog_bind (prog_fail_if (sb_magic sb \<noteq> M16_MAGIC \<or> sb_version sb \<noteq> M16_VERSION \<or>
                 sb_block_size sb \<noteq> of_nat M16_BLOCK_SIZE) M16_E_CORRUPT) (\<lambda>_.
    prog_bind (prog_fail_if (sb_data_start_lba sb \<noteq> M16_DATA_START_LBA \<or>
                 sb_root_dir_lba sb \<noteq> M16_ROOT_DIR_LBA) M16_E_CORRUPT) (\<lambda>_.
    prog_return sb))))"

text \<open>\<open>sb\<close> is false for a NULL superblock pointer; the superblock read is the second result.\<close>

definition m16_mount ::
  "m16_blockdev option \<Rightarrow> bool \<Rightarrow> m16_status \<times> m16_super option \<times> m16_blockdev option" where
  "m16_mount dev sb = (case dev of None \<Rightarrow> (M16_E_INVAL, None, None) | Some d \<Rightarrow>
     if \<not> sb then (M16_E_INVAL, None, Some d)
     else case m16_mount_body d of (Inl e, d') \<Rightarrow> (e, None, Some d')
        | (Inr s, d') \<Rightarrow> (M16_E_OK, Some s, Some d'))"

section \<open>Files\<close>

definition m16_find_free_inode :: "bytes \<Rightarrow> m16_status + nat" where
  "m16_find_free_inode ib =
    (case find (\<lambda>i. \<not> m16_bitmap_get ib (of_nat i)) [1..<unat M16_MAX_INODES] of
       None \<Rightarrow> Inl M16_E_NOSPC | Some i \<Rightarrow> Inr i)"

definition m16_find_free_block :: "bytes \<Rightarrow> m16_status + nat" where
  "m16_find_free_block bb =
    (case find (\<lambda>i. \<not> m16_bitmap_get bb (of_nat i)) [unat M16_DATA_START_LBA..<unat M16_MAX_BLOCKS] of
       None \<Rightarrow> Inl M16_E_NOSPC | Some i \<Rightarrow> Inr i)"

text \<open>The number of directory entries in a block.\<close>

definition m16_dir_count :: nat where
  "m16_dir_count = M16_BLOCK_SIZE div 40"

definition m16_find_dirent :: "bytes \<Rightarrow> bytes \<Rightarrow> m16_status + nat" where
  "m16_find_dirent dir name =
    (case find (\<lambda>i. de_used (m16_dirent_at dir i) \<noteq> 0 \<and> m16_streq (de_name (m16_dirent_at dir i)) name)
       [0..<m16_dir_count] of
       None \<Rightarrow> Inl M16_E_NOENT | Some i \<Rightarrow> Inr i)"

definition m16_find_free_dirent :: "bytes \<Rightarrow> m16_status + nat" where
  "m16_find_free_dirent dir =
    (case find (\<lambda>i. de_used (m16_dirent_at dir i) = 0) [0..<m16_dir_count] of
       None \<Rightarrow> Inl M16_E_NOSPC | Some i \<Rightarrow> Inr i)"

text \<open>The new contents of inode table, directory and data block.\<close>

definition m16_new_inodes :: "bytes \<Rightarrow> nat \<Rightarrow> u32 \<Rightarrow> nat \<Rightarrow> bytes" where
  "m16_new_inodes inodes ino sz data_block =
    (let n = m16_inode_at inodes ino in
     m16_inode_put inodes ino (n\<lparr>ino_used := 1, ino_kind := 1, ino_size := sz,
       ino_direct := (ino_direct n)[0 := of_nat data_block]\<rparr>))"

definition m16_new_dir :: "bytes \<Rightarrow> nat \<Rightarrow> nat \<Rightarrow> bytes \<Rightarrow> nat \<Rightarrow> bytes" where
  "m16_new_dir dir slot ino name name_len =
    m16_dirent_put dir slot \<lparr>de_used = 1, de_ino = of_nat ino,
      de_name = m16_copy (m16_zero M16_MAX_NAME) 0 name 0 name_len\<rparr>"

definition m16_write_body :: "bytes \<Rightarrow> bytes \<Rightarrow> u32 \<Rightarrow> bool \<Rightarrow> unit m16_prog" where
  "m16_write_body name data sz stop_after_commit_record =
    (let name_len = m16_strlen_bounded name M16_MAX_NAME in
    prog_bind (prog_fail_if (name_len = 0 \<or> name_len \<ge> M16_MAX_NAME) M16_E_TOOLONG) (\<lambda>_.
    prog_bind (prog_fail_if (unat sz > M16_BLOCK_SIZE) M16_E_INVAL) (\<lambda>_.
    prog_bind m16_mount_body (\<lambda>sb.
    prog_bind (m16_read_block M16_INODE_BITMAP_LBA) (\<lambda>ib.
    prog_bind (m16_read_block M16_BLOCK_BITMAP_LBA) (\<lambda>bb.
    prog_bind m16_load_inode_table (\<lambda>inodes.
    prog_bind (m16_read_block M16_ROOT_DIR_LBA) (\<lambda>dir.
    prog_bind (case m16_find_dirent dir name of Inr _ \<Rightarrow> prog_fail M16_E_EXISTS | Inl _ \<Rightarrow> prog_return ()) (\<lambda>_.
    prog_bind (prog_lift (m16_find_free_inode ib)) (\<lambda>ino.
    prog_bind (prog_lift (m16_find_free_block bb)) (\<lambda>data_block.
    prog_bind (prog_lift (m16_find_free_dirent dir)) (\<lambda>slot.
    let data_blk = m16_copy (m16_zero M16_BLOCK_SIZE) 0 data 0 (unat sz);
        ib = m16_bitmap_set ib (of_nat ino);
        bb = m16_bitmap_set bb (of_nat data_block);
        inodes = m16_new_inodes inodes ino sz data_block;
        dir = m16_new_dir dir slot ino name name_len in
    prog_bind (prog_lift (m16_tx_add m16_tx_zero M16_INODE_BITMAP_LBA ib)) (\<lambda>tx.
    prog_bind (prog_lift (m16_tx_add tx M16_BLOCK_BITMAP_LBA bb)) (\<lambda>tx.
    prog_bind (prog_lift (m16_store_inode_table tx inodes)) (\<lambda>tx.
    prog_bind (m16_journal_commit tx (sb_clean_generation sb + 1) False) (\<lambda>_.
    prog_bind (prog_lift (m16_tx_add m16_tx_zero M16_ROOT_DIR_LBA dir)) (\<lambda>tx.
    prog_bind (prog_lift (m16_tx_add tx (of_nat data_block) data_blk)) (\<lambda>tx.
    m16_journal_commit tx (sb_clean_generation sb + 2) stop_after_commit_record))))))))))))))))))"

definition m16_write_file_ex ::
  "m16_blockdev option \<Rightarrow> bytes option \<Rightarrow> bytes option \<Rightarrow> u32 \<Rightarrow> bool \<Rightarrow> m16_status \<times> m16_blockdev option" where
  "m16_write_file_ex dev name data sz stop_after_commit_record =
    (case (name, data) of
       (Some n, Some d) \<Rightarrow> m16_entry (m16_write_body n d sz stop_after_commit_record) dev
     | _ \<Rightarrow> (M16_E_INVAL, dev))"

definition m16_write_file ::
  "m16_blockdev option \<Rightarrow> bytes option \<Rightarrow> bytes option \<Rightarrow> u32 \<Rightarrow> m16_status \<times> m16_blockdev option" where
  "m16_write_file dev name data sz = m16_write_file_ex dev name data sz False"

text \<open>
  Reading returns the caller's buffer and the size. The last copy reads \<^verbatim>\<open>size\<close> bytes from a block of 512
  bytes: for a larger size the run is undefined.
\<close>

definition m16_read_body :: "bytes \<Rightarrow> bytes \<Rightarrow> u32 \<Rightarrow> (bytes \<times> u32) m16_prog" where
  "m16_read_body name out out_cap =
    prog_bind m16_mount_body (\<lambda>_.
    prog_bind m16_load_inode_table (\<lambda>inodes.
    prog_bind (m16_read_block M16_ROOT_DIR_LBA) (\<lambda>dir.
    prog_bind (prog_lift (m16_find_dirent dir name)) (\<lambda>slot.
    let ino = de_ino (m16_dirent_at dir slot); n = m16_inode_at inodes (unat ino) in
    prog_bind (prog_fail_if (ino \<ge> M16_MAX_INODES \<or> ino_used n = 0 \<or> ino_kind n \<noteq> 1) M16_E_CORRUPT) (\<lambda>_.
    prog_bind prog_get (\<lambda>dev.
    prog_bind (prog_fail_if (ino_size n > out_cap \<or> ino_direct n ! 0 \<ge> m16_total_blocks dev)
                 M16_E_INVAL) (\<lambda>_.
    prog_bind (m16_read_block (ino_direct n ! 0)) (\<lambda>blk.
    prog_bind (prog_fail_if (unat (ino_size n) > M16_BLOCK_SIZE) M16_UNDEFINED) (\<lambda>_.
    prog_return (m16_copy out 0 blk 0 (unat (ino_size n)), ino_size n))))))))))"

definition m16_read_file ::
  "m16_blockdev option \<Rightarrow> bytes option \<Rightarrow> bytes option \<Rightarrow> u32 \<Rightarrow> bool \<Rightarrow>
   m16_status \<times> (bytes \<times> u32) option \<times> m16_blockdev option" where
  "m16_read_file dev name out out_cap out_size = (case (dev, name, out) of
     (Some d, Some n, Some buf) \<Rightarrow>
       if \<not> out_size then (M16_E_INVAL, None, dev)
       else (case m16_read_body n buf out_cap d of (Inl e, d') \<Rightarrow> (e, None, Some d')
          | (Inr r, d') \<Rightarrow> (M16_E_OK, Some r, Some d'))
   | _ \<Rightarrow> (M16_E_INVAL, None, dev))"

text \<open>The test of one directory entry.\<close>

definition m16_fsck_entry :: "m16_blockdev \<Rightarrow> bytes \<Rightarrow> bytes \<Rightarrow> bytes \<Rightarrow> m16_dirent \<Rightarrow> bool" where
  "m16_fsck_entry dev ib bb inodes de \<longleftrightarrow> de_used de = 0 \<or>
    (let n = m16_inode_at inodes (unat (de_ino de)) in
     \<not> (de_ino de \<ge> M16_MAX_INODES \<or> \<not> m16_bitmap_get ib (de_ino de)) \<and>
     \<not> (ino_used n = 0 \<or> ino_kind n \<noteq> 1 \<or> unat (ino_size n) > M16_BLOCK_SIZE) \<and>
     \<not> (ino_direct n ! 0 < M16_DATA_START_LBA \<or> ino_direct n ! 0 \<ge> m16_total_blocks dev \<or>
        \<not> m16_bitmap_get bb (ino_direct n ! 0)))"

definition m16_fsck_body :: "unit m16_prog" where
  "m16_fsck_body =
    prog_bind m16_mount_body (\<lambda>_.
    prog_bind (m16_read_block M16_INODE_BITMAP_LBA) (\<lambda>ib.
    prog_bind (m16_read_block M16_BLOCK_BITMAP_LBA) (\<lambda>bb.
    prog_bind m16_load_inode_table (\<lambda>inodes.
    prog_bind (m16_read_block M16_ROOT_DIR_LBA) (\<lambda>dir.
    let root = m16_inode_at inodes 0 in
    prog_bind (prog_fail_if (\<not> m16_bitmap_get ib 0 \<or> ino_used root \<noteq> 1 \<or> ino_kind root \<noteq> 2 \<or>
                 ino_direct root ! 0 \<noteq> M16_ROOT_DIR_LBA) M16_E_CORRUPT) (\<lambda>_.
    prog_bind (prog_for [0..<unat M16_DATA_START_LBA] (\<lambda>b.
      prog_fail_if (\<not> m16_bitmap_get bb (of_nat b)) M16_E_CORRUPT)) (\<lambda>_.
    prog_bind prog_get (\<lambda>dev.
    prog_for [0..<m16_dir_count] (\<lambda>i.
      prog_fail_if (\<not> m16_fsck_entry dev ib bb inodes (m16_dirent_at dir i)) M16_E_CORRUPT)))))))))"

definition m16_fsck :: "m16_blockdev option \<Rightarrow> m16_status \<times> m16_blockdev option" where
  "m16_fsck dev = m16_entry m16_fsck_body dev"

end
