(* ===== verification/Journal_Correct.thy ===== *)
theory Journal_Correct
  imports Journal
begin

text \<open>
  Correctness of MCSFS1J: a commit is atomic under power failure at any write and under power
  failures during recovery; writing a file is crash safe and does not disturb other files; what is
  written is read back; a formatted device passes the check of \<^verbatim>\<open>m16_fsck\<close>.
\<close>

section \<open>Sequences of block writes\<close>

definition m16_dev_ok :: "m16_blockdev \<Rightarrow> bool" where
  "m16_dev_ok dev \<longleftrightarrow> length (m16_blocks dev) = 128 \<and> (\<forall>i<128. length (m16_blocks dev ! i) = 512) \<and>
     m16_total_blocks dev = 128"

definition run_writes :: "(u32 \<times> bytes) list \<Rightarrow> unit m16_prog" where
  "run_writes ws = prog_for ws (\<lambda>(lba, data). m16_write_block lba data)"

definition apply_writes :: "(u32 \<times> bytes) list \<Rightarrow> bytes list \<Rightarrow> bytes list" where
  "apply_writes ws bs = fold (\<lambda>(lba, data) bs. bs[unat lba := data]) ws bs"

definition write_ok :: "u32 \<times> bytes \<Rightarrow> bool" where
  "write_ok w \<longleftrightarrow> fst w < 128 \<and> length (snd w) = 512"

text \<open>How many of the writes the device accepts before the power is gone, and its state then.\<close>

definition accepted :: "m16_blockdev \<Rightarrow> nat \<Rightarrow> nat" where
  "accepted dev n = (if m16_fail_after dev < 0 then n else min (nat (m16_fail_after dev)) n)"

definition after_writes :: "nat \<Rightarrow> (u32 \<times> bytes) list \<Rightarrow> m16_blockdev \<Rightarrow> m16_blockdev" where
  "after_writes n ws dev = dev\<lparr>m16_blocks := apply_writes (take n ws) (m16_blocks dev),
     m16_fail_after := (if m16_fail_after dev < 0 then m16_fail_after dev else m16_fail_after dev - int n),
     m16_writes := m16_writes dev + of_nat n\<rparr>"

lemma write_block_run:
  assumes "m16_dev_ok dev" and "write_ok (lba, data)"
  shows "m16_write_block lba data dev =
    (if m16_fail_after dev = 0 then (Inl M16_E_IO, dev) else (Inr (), after_writes 1 [(lba, data)] dev))"
proof -
  have "unat lba < 128"
    using assms(2) by (simp add: write_ok_def word_less_nat_alt)
  then have "m16_copy (m16_blocks dev ! unat lba) 0 data 0 512 = data"
    using assms by (simp add: m16_copy_def copy_loop_eq m16_dev_ok_def write_ok_def)
  then show ?thesis
    using assms by (auto simp: m16_write_block_def m16_valid_lba_def m16_dev_ok_def write_ok_def
        m16_consts after_writes_def apply_writes_def Let_def)
qed

lemma length_apply_writes [simp]: "length (apply_writes ws bs) = length bs"
  unfolding apply_writes_def by (induction ws arbitrary: bs) auto

lemma apply_writes_block_length:
  assumes "\<forall>w\<in>set ws. write_ok w" and "\<forall>i<128. length (bs ! i) = 512" and "length bs = 128"
  shows "\<forall>i<128. length (apply_writes ws bs ! i) = 512"
  using assms
proof (induction ws arbitrary: bs)
  case (Cons w ws)
  obtain l b where w: "w = (l, b)"
    by (cases w)
  have "unat l < 128"
    using Cons.prems w by (simp add: write_ok_def word_less_nat_alt)
  then have "\<forall>i<128. length (bs[unat l := b] ! i) = 512"
    using Cons.prems w by (simp add: nth_list_update write_ok_def)
  then show ?case
    using Cons.IH [of "bs[unat l := b]"] Cons.prems w by (simp add: apply_writes_def)
qed (simp add: apply_writes_def)

lemma after_writes_ok:
  assumes "m16_dev_ok dev" and "\<forall>w\<in>set ws. write_ok w"
  shows "m16_dev_ok (after_writes n ws dev)"
  using assms apply_writes_block_length [of "take n ws" "m16_blocks dev"]
  by (auto simp: m16_dev_ok_def after_writes_def dest: in_set_takeD)

lemma after_writes_Cons:
  "m16_fail_after dev \<noteq> 0 \<Longrightarrow>
   after_writes (Suc n) (w # ws) dev = after_writes n ws (after_writes 1 [w] dev)"
  by (cases w) (simp add: after_writes_def apply_writes_def)

lemma after_writes_0 [simp]: "after_writes 0 ws dev = dev"
  by (simp add: after_writes_def apply_writes_def)

lemma run_writes_run:
  assumes "m16_dev_ok dev" and "\<forall>w\<in>set ws. write_ok w"
  shows "run_writes ws dev =
    (if accepted dev (length ws) = length ws then Inr () else Inl M16_E_IO,
     after_writes (accepted dev (length ws)) ws dev)"
  using assms
proof (induction ws arbitrary: dev)
  case Nil
  then show ?case
    by (simp add: run_writes_def prog_run accepted_def)
next
  case (Cons w ws)
  obtain l b where w: "w = (l, b)"
    by (cases w)
  show ?case
  proof (cases "m16_fail_after dev = 0")
    case True
    then have "m16_write_block l b dev = (Inl M16_E_IO, dev)"
      using write_block_run [of dev l b] Cons.prems w by simp
    then show ?thesis
      using True w by (simp add: run_writes_def prog_bind_Inl accepted_def)
  next
    case False
    let ?d = "after_writes 1 [w] dev"
    have "m16_write_block l b dev = (Inr (), ?d)"
      using write_block_run [of dev l b] Cons.prems w False by simp
    then have "run_writes (w # ws) dev = run_writes ws ?d"
      using w by (simp add: run_writes_def prog_bind_Inr)
    also have "\<dots> = (if accepted ?d (length ws) = length ws then Inr () else Inl M16_E_IO,
        after_writes (accepted ?d (length ws)) ws ?d)"
      using Cons.prems by (intro Cons.IH after_writes_ok) auto
    finally have run: "run_writes (w # ws) dev = \<dots>" .
    have "accepted dev (length (w # ws)) = Suc (accepted ?d (length ws))"
      using False by (auto simp: accepted_def after_writes_def)
    then show ?thesis
      unfolding run using after_writes_Cons [OF False, of "accepted ?d (length ws)" w ws] by simp
  qed
qed

section \<open>The home blocks\<close>

text \<open>
  The blocks outside the journal, as a map from block numbers. This is the content of the file
  system; the journal only serves to change it atomically.
\<close>

definition home_ix :: "nat \<Rightarrow> bool" where
  "home_ix i \<longleftrightarrow> i < 128 \<and> (i = 0 \<or> 18 \<le> i)"

definition home :: "bytes list \<Rightarrow> nat \<rightharpoonup> bytes" where
  "home bs = (\<lambda>i. if home_ix i then Some (bs ! i) else None)"

definition writes_map :: "(u32 \<times> bytes) list \<Rightarrow> nat \<rightharpoonup> bytes" where
  "writes_map ws = map_of (rev (map (\<lambda>(lba, data). (unat lba, data)) ws))"

lemma writes_map_Nil [simp]: "writes_map [] = Map.empty"
  by (simp add: writes_map_def)

lemma writes_map_append: "writes_map (ws @ vs) = writes_map ws ++ writes_map vs"
  by (simp add: writes_map_def)

lemma writes_map_Cons: "writes_map ((l, b) # ws) = [unat l \<mapsto> b] ++ writes_map ws"
  by (simp add: writes_map_def)

lemma dom_writes_map: "dom (writes_map ws) = (\<lambda>w. unat (fst w)) ` set ws"
  by (force simp: writes_map_def dom_map_of_conv_image_fst)

lemma home_update:
  "length bs = 128 \<Longrightarrow> home (bs[i := b]) = (if home_ix i then (home bs)(i \<mapsto> b) else home bs)"
  by (auto simp: home_def home_ix_def fun_eq_iff nth_list_update)

lemma home_apply_writes:
  assumes "\<forall>w\<in>set ws. home_ix (unat (fst w))" and "length bs = 128"
  shows "home (apply_writes ws bs) = home bs ++ writes_map ws"
  using assms
proof (induction ws arbitrary: bs)
  case (Cons w ws)
  obtain l b where w: "w = (l, b)"
    by (cases w)
  have "home (apply_writes (w # ws) bs) = home (bs[unat l := b]) ++ writes_map ws"
    using Cons.IH [of "bs[unat l := b]"] Cons.prems w by (simp add: apply_writes_def)
  also have "\<dots> = home bs ++ writes_map (w # ws)"
    using Cons.prems w by (simp add: home_update writes_map_Cons)
  finally show ?case .
qed (simp add: apply_writes_def)

lemma home_apply_journal_writes:
  assumes "\<forall>w\<in>set ws. \<not> home_ix (unat (fst w))" and "length bs = 128"
  shows "home (apply_writes ws bs) = home bs"
  using assms
proof (induction ws arbitrary: bs)
  case (Cons w ws)
  then show ?case
    using Cons.IH [of "bs[unat (fst w) := snd w]"]
    by (simp add: apply_writes_def home_update case_prod_beta)
qed (simp add: apply_writes_def)

lemma apply_writes_other:
  assumes "\<forall>w\<in>set ws. unat (fst w) \<noteq> i"
  shows "apply_writes ws bs ! i = bs ! i"
  using assms unfolding apply_writes_def
  by (induction ws arbitrary: bs) (auto simp: case_prod_beta)

lemma apply_writes_append: "apply_writes (ws @ vs) bs = apply_writes vs (apply_writes ws bs)"
  by (simp add: apply_writes_def)

lemma map_add_absorb: "dom p \<subseteq> dom w \<Longrightarrow> m ++ p ++ w = m ++ w"
  by (rule ext) (auto simp: map_add_def split: option.splits)

section \<open>Transactions on the device\<close>

definition tx_ok :: "m16_tx \<Rightarrow> bool" where
  "tx_ok tx \<longleftrightarrow> unat (tx_count tx) \<le> 8 \<and>
     (\<forall>i<unat (tx_count tx). home_ix (unat (rec_target_lba (tx_rec tx ! i))) \<and>
        length (rec_payload (tx_rec tx ! i)) = 512)"

definition record_writes :: "m16_tx \<Rightarrow> nat \<Rightarrow> (u32 \<times> bytes) list" where
  "record_writes tx i =
    [(m16_desc_lba i, m16_journal_desc_bytes (m16_make_desc (tx_rec tx ! i))),
     (m16_desc_lba i + 1, rec_payload (tx_rec tx ! i))]"

definition journal_writes :: "m16_tx \<Rightarrow> (u32 \<times> bytes) list" where
  "journal_writes tx = concat (map (record_writes tx) [0..<unat (tx_count tx)])"

definition home_writes :: "m16_tx \<Rightarrow> (u32 \<times> bytes) list" where
  "home_writes tx = map (\<lambda>i. (rec_target_lba (tx_rec tx ! i), rec_payload (tx_rec tx ! i)))
     [0..<unat (tx_count tx)]"

definition clear_write :: "u32 \<times> bytes" where
  "clear_write = (1, replicate 512 0)"

definition header_write :: "m16_tx \<Rightarrow> u32 \<Rightarrow> u32 \<times> bytes" where
  "header_write tx seq = (1, m16_journal_header_bytes (m16_make_header seq (tx_count tx)))"

text \<open>What a committed transaction does to the home blocks.\<close>

definition tx_effect :: "m16_tx \<Rightarrow> nat \<rightharpoonup> bytes" where
  "tx_effect tx = writes_map (home_writes tx)"

lemma commit_run_writes:
  assumes "tx_ok tx"
  shows "m16_journal_commit tx seq stop =
    run_writes (clear_write # journal_writes tx @ header_write tx seq #
      (if stop then [] else home_writes tx @ [clear_write]))"
proof -
  have "\<not> tx_count tx > M16_JOURNAL_MAX_RECORDS"
    using assms by (simp add: tx_ok_def m16_consts word_less_nat_alt)
  then show ?thesis
    by (cases stop)
      (simp_all add: m16_journal_commit_def m16_journal_clear_def run_writes_def prog_for_append
        journal_writes_def prog_for_concat record_writes_def home_writes_def prog_for_map
        clear_write_def header_write_def m16_zero_def m16_consts prog_fail_if_def prog_bind_assoc)
qed

lemma unat_desc_lba: "i < 8 \<Longrightarrow> unat (m16_desc_lba i) = 2 + 2 * i"
proof -
  assume i: "i < 8"
  have "m16_desc_lba i = of_nat (2 + 2 * i)"
    by (simp add: m16_desc_lba_def m16_consts)
  moreover have "unat (of_nat (2 + 2 * i) :: u32) = 2 + 2 * i"
    by (rule unat_of_nat_small) (use i in simp)
  ultimately show ?thesis
    by metis
qed

lemma unat_data_lba: "i < 8 \<Longrightarrow> unat (m16_desc_lba i + 1) = 3 + 2 * i"
  by (subst unat_add_nowrap) (simp_all add: unat_desc_lba)

lemma desc_bytes_length [simp]: "length (m16_journal_desc_bytes (m16_make_desc r)) = 512"
  by (rule desc_bytes.length_encode) (simp add: m16_make_desc_def)

lemma header_bytes_length [simp]: "length (m16_journal_header_bytes (m16_make_header seq n)) = 512"
  by (rule header_bytes.length_encode) (simp add: m16_make_header_def Let_def)

lemma record_writes_ok:
  assumes "tx_ok tx" and "i < unat (tx_count tx)" and "w \<in> set (record_writes tx i)"
  shows "write_ok w \<and> \<not> home_ix (unat (fst w)) \<and> unat (fst w) \<in> {2 + 2 * i, 3 + 2 * i}"
proof -
  have "i < 8"
    using assms(1,2) by (simp add: tx_ok_def)
  then show ?thesis
    using assms unat_desc_lba [of i] unat_data_lba [of i]
    by (auto simp: record_writes_def write_ok_def tx_ok_def home_ix_def word_less_nat_alt)
qed

lemma journal_writes_ok:
  assumes "tx_ok tx" and "w \<in> set (journal_writes tx)"
  shows "write_ok w \<and> \<not> home_ix (unat (fst w)) \<and> 2 \<le> unat (fst w)"
proof -
  obtain i where "i < unat (tx_count tx)" "w \<in> set (record_writes tx i)"
    using assms(2) by (auto simp: journal_writes_def)
  then show ?thesis
    using record_writes_ok [OF assms(1)] by fastforce
qed

lemma home_writes_ok:
  assumes "tx_ok tx" and "w \<in> set (home_writes tx)"
  shows "write_ok w \<and> home_ix (unat (fst w))"
  using assms by (auto simp: home_writes_def tx_ok_def write_ok_def home_ix_def word_less_nat_alt)

lemma clear_write_ok: "write_ok clear_write" "\<not> home_ix (unat (fst clear_write))"
  by (simp_all add: clear_write_def write_ok_def home_ix_def)

lemma header_write_ok: "write_ok (header_write tx seq)" "\<not> home_ix (unat (fst (header_write tx seq)))"
  by (simp_all add: header_write_def write_ok_def home_ix_def)

section \<open>Committed and empty journals\<close>

definition journal_empty :: "bytes list \<Rightarrow> bool" where
  "journal_empty bs \<longleftrightarrow> jh_magic (m16_journal_header_of (bs ! 1)) = 0 \<and>
     jh_state (m16_journal_header_of (bs ! 1)) = 0"

definition committed :: "m16_tx \<Rightarrow> u32 \<Rightarrow> bytes list \<Rightarrow> bool" where
  "committed tx seq bs \<longleftrightarrow> bs ! 1 = snd (header_write tx seq) \<and>
     (\<forall>i<unat (tx_count tx). bs ! (2 + 2 * i) = m16_journal_desc_bytes (m16_make_desc (tx_rec tx ! i)) \<and>
        bs ! (3 + 2 * i) = rec_payload (tx_rec tx ! i))"

lemma records_written:
  assumes "tx_ok tx" and "length bs = 128" and "n \<le> unat (tx_count tx)" and "i < n"
  shows "apply_writes (concat (map (record_writes tx) [0..<n])) bs ! (2 + 2 * i) =
      m16_journal_desc_bytes (m16_make_desc (tx_rec tx ! i)) \<and>
    apply_writes (concat (map (record_writes tx) [0..<n])) bs ! (3 + 2 * i) = rec_payload (tx_rec tx ! i)"
  using assms(3,4)
proof (induction n)
  case (Suc n)
  have n: "n < 8" "n < unat (tx_count tx)"
    using Suc.prems(1) assms(1) by (simp_all add: tx_ok_def)
  let ?bs = "apply_writes (concat (map (record_writes tx) [0..<n])) bs"
  have split: "apply_writes (concat (map (record_writes tx) [0..<Suc n])) bs = apply_writes (record_writes tx n) ?bs"
    by (simp add: apply_writes_append)
  show ?case
  proof (cases "i = n")
    case True
    then show ?thesis
      unfolding split using n assms(2) unat_desc_lba [of n] unat_data_lba [of n]
      by (simp add: record_writes_def apply_writes_def [of "[_, _]"])
  next
    case False
    have "\<forall>w\<in>set (record_writes tx n). unat (fst w) \<noteq> 2 + 2 * i \<and> unat (fst w) \<noteq> 3 + 2 * i"
    proof
      fix w assume "w \<in> set (record_writes tx n)"
      then have "unat (fst w) \<in> {2 + 2 * n, 3 + 2 * n}"
        using record_writes_ok [OF assms(1) n(2)] by blast
      then show "unat (fst w) \<noteq> 2 + 2 * i \<and> unat (fst w) \<noteq> 3 + 2 * i"
        using False by auto
    qed
    then show ?thesis
      unfolding split using Suc False by (simp add: apply_writes_other)
  qed
qed simp

lemma committed_written:
  assumes "tx_ok tx" and "length bs = 128"
  shows "committed tx seq (apply_writes (clear_write # journal_writes tx @ [header_write tx seq]) bs)"
proof -
  let ?bs = "apply_writes [clear_write] bs"
  have "clear_write # journal_writes tx @ [header_write tx seq] =
    [clear_write] @ journal_writes tx @ [header_write tx seq]"
    by simp
  then have split: "apply_writes (clear_write # journal_writes tx @ [header_write tx seq]) bs =
    apply_writes [header_write tx seq] (apply_writes (journal_writes tx) ?bs)"
    by (simp only: apply_writes_append)
  have hdr: "unat (fst (header_write tx seq)) = 1"
    by (simp add: header_write_def)
  then have "apply_writes [header_write tx seq] cs ! j = cs ! j" if "j \<noteq> 1" for j cs
    using that by (intro apply_writes_other) simp
  moreover have "apply_writes [header_write tx seq] cs ! 1 = snd (header_write tx seq)" if "length cs = 128" for cs
    using that hdr by (simp add: apply_writes_def case_prod_beta)
  ultimately show ?thesis
    unfolding split
    unfolding committed_def journal_writes_def
    using records_written [OF assms(1), of ?bs "unat (tx_count tx)"] assms(2) by simp
qed

lemma committed_home_writes:
  assumes "committed tx seq bs" and "\<forall>w\<in>set ws. home_ix (unat (fst w))" and "tx_ok tx"
  shows "committed tx seq (apply_writes ws bs)"
proof -
  have "apply_writes ws bs ! i = bs ! i" if "\<not> home_ix i" for i
    using assms(2) that by (intro apply_writes_other) auto
  moreover have "\<not> home_ix 1" "\<And>i. i < unat (tx_count tx) \<Longrightarrow> \<not> home_ix (2 + 2 * i) \<and> \<not> home_ix (3 + 2 * i)"
    using assms(3) by (auto simp: home_ix_def tx_ok_def)
  ultimately show ?thesis
    using assms(1) by (simp add: committed_def)
qed

lemma cleared_empty: "length bs = 128 \<Longrightarrow> journal_empty (apply_writes (ws @ [clear_write]) bs)"
  by (simp add: apply_writes_append apply_writes_def [of "[_]"] clear_write_def journal_empty_def
      m16_journal_header_of_def layout)

section \<open>Recovery\<close>

lemma read_block_run:
  "m16_dev_ok dev \<Longrightarrow> lba < 128 \<Longrightarrow> m16_read_block lba dev = (Inr (m16_blocks dev ! unat lba), dev)"
  by (simp add: m16_read_block_def m16_valid_lba_def m16_dev_ok_def m16_consts)

lemma recover_empty:
  assumes "m16_dev_ok dev" and "journal_empty (m16_blocks dev)"
  shows "m16_recover_body dev = (Inr (), dev)"
  using assms by (simp add: m16_recover_body_def prog_bind_Inr [OF read_block_run] m16_consts
      journal_empty_def M16_J_EMPTY_def prog_run)

lemma header_of_write: "m16_journal_header_of (snd (header_write tx seq)) = m16_make_header seq (tx_count tx)"
  by (simp add: header_write_def, rule header_bytes.decode_encode) (simp add: m16_make_header_def Let_def)

lemma header_checksum_ok: "m16_header_checksum (m16_make_header seq n) = jh_header_checksum (m16_make_header seq n)"
  by (simp add: m16_make_header_def m16_header_checksum_def Let_def)

lemma desc_of_write: "m16_journal_desc_of (m16_journal_desc_bytes (m16_make_desc r)) = m16_make_desc r"
  by (rule desc_bytes.decode_encode) (simp add: m16_make_desc_def)

lemma replay_record_committed:
  assumes "m16_dev_ok dev" and "committed tx seq (m16_blocks dev)" and "tx_ok tx" and "i < unat (tx_count tx)"
  shows "m16_replay_record i dev = m16_write_block (rec_target_lba (tx_rec tx ! i)) (rec_payload (tx_rec tx ! i)) dev"
proof -
  let ?r = "tx_rec tx ! i"
  have i: "i < 8" and r: "home_ix (unat (rec_target_lba ?r))" "length (rec_payload ?r) = 512"
    using assms(3,4) by (simp_all add: tx_ok_def)
  have "m16_desc_lba i < 128" "m16_desc_lba i + 1 < 128"
    using i by (simp_all add: word_less_nat_alt unat_desc_lba unat_data_lba)
  then have "m16_read_block (m16_desc_lba i) dev = (Inr (m16_journal_desc_bytes (m16_make_desc ?r)), dev)"
    "m16_read_block (m16_desc_lba i + 1) dev = (Inr (rec_payload ?r), dev)"
    using assms(1,2,4) i by (simp_all add: read_block_run committed_def unat_desc_lba unat_data_lba)
  moreover have "m16_valid_lba dev (rec_target_lba ?r)"
    using r(1) assms(1) by (simp add: m16_valid_lba_def m16_dev_ok_def m16_consts home_ix_def word_less_nat_alt)
  ultimately show ?thesis
    using r(2) by (simp add: m16_replay_record_def prog_bind_Inr desc_of_write)
      (simp add: m16_make_desc_def prog_bind_Inr prog_run m16_consts)
qed

lemma recover_committed:
  assumes "m16_dev_ok dev" and "committed tx seq (m16_blocks dev)" and "tx_ok tx"
  shows "m16_recover_body dev = run_writes (home_writes tx @ [clear_write]) dev"
proof -
  let ?h = "m16_make_header seq (tx_count tx)"
  have hdr: "m16_read_block 1 dev = (Inr (snd (header_write tx seq)), dev)"
    using assms(1,2) by (simp add: read_block_run committed_def)
  have fields: "jh_magic ?h = M16_JMAGIC" "jh_version ?h = M16_VERSION" "jh_state ?h = M16_J_COMMITTED"
    "jh_count ?h = tx_count tx"
    by (simp_all add: m16_make_header_def Let_def)
  have "\<not> tx_count tx > 8" "M16_JMAGIC \<noteq> 0"
    using assms(3) by (simp_all add: tx_ok_def word_less_nat_alt M16_JMAGIC_def)
  then have body: "m16_recover_body dev =
    prog_bind (prog_for [0..<unat (tx_count tx)] m16_replay_record) (\<lambda>_. m16_journal_clear) dev"
    by (simp add: m16_recover_body_def m16_consts prog_bind_Inr hdr header_of_write fields
        header_checksum_ok prog_fail_if_def)
  have "prog_for [0..<unat (tx_count tx)] m16_replay_record dev =
    prog_for [0..<unat (tx_count tx)]
      (\<lambda>i. m16_write_block (rec_target_lba (tx_rec tx ! i)) (rec_payload (tx_rec tx ! i))) dev"
  proof (rule prog_for_cong_inv [where P = "\<lambda>d. m16_dev_ok d \<and> committed tx seq (m16_blocks d)"], goal_cases)
    case (2 i d)
    let ?w = "(rec_target_lba (tx_rec tx ! i), rec_payload (tx_rec tx ! i))"
    have w: "write_ok ?w" "home_ix (unat (fst ?w))"
      using 2(1) home_writes_ok [OF assms(3), of ?w] by (auto simp: home_writes_def)
    have "m16_dev_ok (after_writes 1 [?w] d)" "committed tx seq (m16_blocks (after_writes 1 [?w] d))"
      using 2 w after_writes_ok [of d "[?w]" 1] committed_home_writes [of tx seq _ "[?w]"] assms(3)
      by (simp_all add: after_writes_def)
    then show ?case
      using 2 w write_block_run [of d "fst ?w" "snd ?w"] replay_record_committed [of d tx seq i] assms(3) by simp
  qed (use assms in simp)
  then have "m16_recover_body dev = prog_bind (prog_for [0..<unat (tx_count tx)]
      (\<lambda>i. m16_write_block (rec_target_lba (tx_rec tx ! i)) (rec_payload (tx_rec tx ! i))))
      (\<lambda>_. m16_journal_clear) dev"
    unfolding body by (rule prog_bind_first)
  then show ?thesis
    by (simp add: run_writes_def prog_for_append home_writes_def prog_for_map clear_write_def
        m16_journal_clear_def m16_consts m16_zero_def)
qed

section \<open>Atomic commits\<close>

text \<open>
  A device on which the home content \<open>m\<close> is settled: the journal is empty and \<open>m\<close> is in place, or a
  committed transaction is in the journal whose replay gives \<open>m\<close>.
\<close>

definition durable :: "(nat \<rightharpoonup> bytes) \<Rightarrow> m16_blockdev \<Rightarrow> bool" where
  "durable m dev \<longleftrightarrow> m16_dev_ok dev \<and>
    ((journal_empty (m16_blocks dev) \<and> home (m16_blocks dev) = m) \<or>
     (\<exists>tx seq. tx_ok tx \<and> committed tx seq (m16_blocks dev) \<and> home (m16_blocks dev) ++ tx_effect tx = m))"

lemma dev_ok_fail_after [simp]: "m16_dev_ok (dev\<lparr>m16_fail_after := k\<rparr>) = m16_dev_ok dev"
  by (simp add: m16_dev_ok_def)

lemma durable_fail_after [simp]: "durable m (dev\<lparr>m16_fail_after := k\<rparr>) = durable m dev"
  by (simp add: durable_def)

lemma after_writes_blocks [simp]:
  "m16_blocks (after_writes n ws dev) = apply_writes (take n ws) (m16_blocks dev)"
  by (simp add: after_writes_def)

lemma dev_ok_length: "m16_dev_ok dev \<Longrightarrow> length (m16_blocks dev) = 128"
  by (simp add: m16_dev_ok_def)

text \<open>Every prefix of the replay keeps the goal; the whole replay reaches it.\<close>

lemma durable_replaying:
  assumes "m16_dev_ok dev" and "tx_ok tx" and "committed tx seq (m16_blocks dev)"
    and "home (m16_blocks dev) ++ tx_effect tx = m"
  shows "durable m (after_writes n (home_writes tx @ [clear_write]) dev)"
proof -
  let ?bs = "m16_blocks dev" and ?ws = "home_writes tx @ [clear_write]"
  have H: "\<forall>w\<in>set (home_writes tx). home_ix (unat (fst w))"
    using home_writes_ok [OF assms(2)] by blast
  have len: "length ?bs = 128"
    using assms(1) by (rule dev_ok_length)
  have ok: "m16_dev_ok (after_writes n ?ws dev)"
    using assms(1) home_writes_ok [OF assms(2)] clear_write_ok(1) by (intro after_writes_ok) auto
  show ?thesis
  proof (cases "n \<le> length (home_writes tx)")
    case True
    let ?p = "take n (home_writes tx)"
    have p: "\<forall>w\<in>set ?p. home_ix (unat (fst w))" and "set ?p \<subseteq> set (home_writes tx)"
      using H by (auto dest: in_set_takeD)
    then have "dom (writes_map ?p) \<subseteq> dom (tx_effect tx)"
      unfolding tx_effect_def dom_writes_map by (intro image_mono)
    then have "home (apply_writes ?p ?bs) ++ tx_effect tx = m"
      using p len assms(4) by (simp add: home_apply_writes map_add_absorb)
    moreover have "committed tx seq (apply_writes ?p ?bs)"
      using assms(2,3) p by (intro committed_home_writes)
    ultimately show ?thesis
      using ok assms(2) True unfolding durable_def by auto
  next
    case False
    have "home (apply_writes ?ws ?bs) = m"
      using H len assms(4) home_apply_journal_writes [of "[clear_write]" "apply_writes (home_writes tx) ?bs"]
        clear_write_ok(2)
      by (simp add: apply_writes_append home_apply_writes tx_effect_def)
    then show ?thesis
      using ok False len by (simp add: durable_def cleared_empty)
  qed
qed

lemma recover_durable:
  assumes "durable m dev"
  shows "durable m (snd (m16_recover_body dev)) \<and>
    (m16_fail_after dev < 0 \<longrightarrow> fst (m16_recover_body dev) = Inr () \<and>
       journal_empty (m16_blocks (snd (m16_recover_body dev))) \<and>
       home (m16_blocks (snd (m16_recover_body dev))) = m \<and>
       m16_fail_after (snd (m16_recover_body dev)) < 0)"
proof -
  have ok: "m16_dev_ok dev"
    using assms by (simp add: durable_def)
  consider "journal_empty (m16_blocks dev)" "home (m16_blocks dev) = m" |
    tx seq where "tx_ok tx" "committed tx seq (m16_blocks dev)" "home (m16_blocks dev) ++ tx_effect tx = m"
    using assms by (auto simp: durable_def)
  then show ?thesis
  proof cases
    case 1
    then show ?thesis
      using recover_empty [OF ok] assms by simp
  next
    case 2
    let ?ws = "home_writes tx @ [clear_write]"
    have "\<forall>w\<in>set ?ws. write_ok w"
      using home_writes_ok [OF 2(1)] clear_write_ok(1) by auto
    then have run: "m16_recover_body dev =
      (if accepted dev (length ?ws) = length ?ws then Inr () else Inl M16_E_IO,
       after_writes (accepted dev (length ?ws)) ?ws dev)"
      using recover_committed [OF ok 2(2,1)] run_writes_run [OF ok] by simp
    have "home (apply_writes ?ws (m16_blocks dev)) = m"
      using home_writes_ok [OF 2(1)] clear_write_ok(2) dev_ok_length [OF ok] 2(3)
        home_apply_journal_writes [of "[clear_write]" "apply_writes (home_writes tx) (m16_blocks dev)"]
      by (simp add: apply_writes_append home_apply_writes tx_effect_def)
    then show ?thesis
      unfolding run using durable_replaying [OF ok 2] cleared_empty [OF dev_ok_length [OF ok]]
      by (simp add: accepted_def) (simp add: after_writes_def)
  qed
qed

lemma length_journal_writes: "length (journal_writes tx) = 2 * unat (tx_count tx)"
  by (simp add: journal_writes_def length_concat comp_def record_writes_def sum_list_triv)

lemma journal_prefix_empty:
  assumes "tx_ok tx" and "length bs = 128" and "journal_empty bs"
  shows "journal_empty (apply_writes (take n (clear_write # journal_writes tx)) bs)"
proof (cases n)
  case 0
  then show ?thesis
    using assms(3) by (simp add: apply_writes_def)
next
  case (Suc k)
  have "unat (fst w) \<noteq> 1" if "w \<in> set (take k (journal_writes tx))" for w
    using journal_writes_ok [OF assms(1) in_set_takeD [OF that]] by simp
  then have "apply_writes (take n (clear_write # journal_writes tx)) bs ! 1 = apply_writes [clear_write] bs ! 1"
    using Suc apply_writes_append [of "[clear_write]" "take k (journal_writes tx)" bs]
    by (simp add: apply_writes_other)
  then show ?thesis
    using cleared_empty [OF assms(2), of "[]"] by (simp add: journal_empty_def)
qed

text \<open>The power fails before the commit record is written.\<close>

definition fails_early :: "m16_blockdev \<Rightarrow> m16_tx \<Rightarrow> bool" where
  "fails_early dev tx \<longleftrightarrow>
     0 \<le> m16_fail_after dev \<and> nat (m16_fail_after dev) \<le> 1 + 2 * unat (tx_count tx)"

lemma commit_run:
  fixes dev tx seq stop
  defines "ws \<equiv> clear_write # journal_writes tx @ header_write tx seq #
      (if stop then [] else home_writes tx @ [clear_write])"
  assumes "m16_dev_ok dev" and "tx_ok tx"
  shows "m16_journal_commit tx seq stop dev =
      (if accepted dev (length ws) = length ws then Inr () else Inl M16_E_IO,
       after_writes (accepted dev (length ws)) ws dev)"
    and "\<And>n. m16_dev_ok (after_writes n ws dev)"
    and "accepted dev (length ws) \<le> 1 + 2 * unat (tx_count tx) \<longleftrightarrow> fails_early dev tx"
proof -
  have wok: "\<forall>w\<in>set ws. write_ok w"
    using journal_writes_ok [OF assms(3)] home_writes_ok [OF assms(3)] clear_write_ok(1) header_write_ok(1)
    by (auto simp: ws_def)
  show "m16_journal_commit tx seq stop dev =
      (if accepted dev (length ws) = length ws then Inr () else Inl M16_E_IO,
       after_writes (accepted dev (length ws)) ws dev)"
    using commit_run_writes [OF assms(3)] run_writes_run [OF assms(2) wok] by (simp add: ws_def)
  show "m16_dev_ok (after_writes n ws dev)" for n
    using assms(2) wok by (rule after_writes_ok)
  show "accepted dev (length ws) \<le> 1 + 2 * unat (tx_count tx) \<longleftrightarrow> fails_early dev tx"
    by (auto simp: accepted_def fails_early_def ws_def length_journal_writes)
qed

lemma commit_early:
  assumes "m16_dev_ok dev" and "journal_empty (m16_blocks dev)" and "tx_ok tx" and "fails_early dev tx"
  shows "\<exists>d. m16_journal_commit tx seq stop dev = (Inl M16_E_IO, d) \<and> durable (home (m16_blocks dev)) d"
proof -
  let ?pre = "clear_write # journal_writes tx"
  let ?rest = "header_write tx seq # (if stop then [] else home_writes tx @ [clear_write])"
  let ?n = "accepted dev (length (?pre @ ?rest))"
  note run = commit_run [OF assms(1,3), where seq = seq and stop = stop]
  have len: "length (m16_blocks dev) = 128"
    using assms(1) by (rule dev_ok_length)
  have n: "?n \<le> length ?pre"
    using run(3) assms(4) by (simp add: length_journal_writes)
  have "\<forall>w\<in>set (take ?n ?pre). \<not> home_ix (unat (fst w))"
    using journal_writes_ok [OF assms(3)] clear_write_ok(2) in_set_takeD by (metis set_ConsD)
  then have "home (apply_writes (take ?n ?pre) (m16_blocks dev)) = home (m16_blocks dev)"
    using len by (rule home_apply_journal_writes)
  moreover have "journal_empty (apply_writes (take ?n ?pre) (m16_blocks dev))"
    using assms(2,3) len by (intro journal_prefix_empty)
  moreover have "take ?n (?pre @ ?rest) = take ?n ?pre"
    using n by (subst take_append) simp
  ultimately have "durable (home (m16_blocks dev)) (after_writes ?n (?pre @ ?rest) dev)"
    using run(2) [of ?n] by (simp add: durable_def)
  then show ?thesis
    using run(1) n by simp
qed

lemma durable_blocks:
  "durable m d \<Longrightarrow> m16_dev_ok d' \<Longrightarrow> m16_blocks d' = m16_blocks d \<Longrightarrow> durable m d'"
  by (simp add: durable_def)

lemma commit_late:
  assumes "m16_dev_ok dev" and "tx_ok tx" and "\<not> fails_early dev tx"
  shows "durable (home (m16_blocks dev) ++ tx_effect tx) (snd (m16_journal_commit tx seq stop dev))"
proof -
  define pre where "pre = clear_write # journal_writes tx @ [header_write tx seq]"
  define rest where "rest = (if stop then [] else home_writes tx @ [clear_write])"
  let ?n = "accepted dev (length (pre @ rest))"
  let ?d = "after_writes (length pre) pre dev"
  have ws: "clear_write # journal_writes tx @ header_write tx seq #
      (if stop then [] else home_writes tx @ [clear_write]) = pre @ rest"
    by (simp add: pre_def rest_def)
  note run = commit_run [OF assms(1,2), where seq = seq and stop = stop, unfolded ws]
  have len: "length (m16_blocks dev) = 128"
    using assms(1) by (rule dev_ok_length)
  have n: "length pre \<le> ?n"
    using run(3) assms(3) by (simp add: pre_def length_journal_writes)
  have "write_ok w \<and> \<not> home_ix (unat (fst w))" if "w \<in> set pre" for w
    using that journal_writes_ok [OF assms(2), of w] clear_write_ok header_write_ok by (auto simp: pre_def)
  then have d: "m16_dev_ok ?d" "home (m16_blocks ?d) = home (m16_blocks dev)"
    using after_writes_ok [OF assms(1), of pre] home_apply_journal_writes [of pre, OF _ len] by auto
  have c: "committed tx seq (m16_blocks ?d)"
    using committed_written [OF assms(2) len] by (simp add: pre_def)
  have late: "durable (home (m16_blocks dev) ++ tx_effect tx) (after_writes k (home_writes tx @ [clear_write]) ?d)" for k
    using durable_replaying [OF d(1) assms(2) c] d(2) by simp
  have "durable (home (m16_blocks dev) ++ tx_effect tx) (after_writes ?n (pre @ rest) dev)"
  proof (rule durable_blocks [OF late [of "if stop then 0 else ?n - length pre"] run(2)])
    show "m16_blocks (after_writes ?n (pre @ rest) dev) =
      m16_blocks (after_writes (if stop then 0 else ?n - length pre) (home_writes tx @ [clear_write]) ?d)"
      using n by (cases stop) (simp_all add: rest_def apply_writes_append apply_writes_def [of "[]"])
  qed
  then show ?thesis
    unfolding run(1) by simp
qed

section \<open>The commit is atomic\<close>

text \<open>
  Power cycles: each time the power comes back, recovery runs and the power fails again after \<open>k\<close>
  writes (never, when \<open>k\<close> is negative).
\<close>

definition m16_reboots :: "int list \<Rightarrow> m16_blockdev \<Rightarrow> m16_blockdev" where
  "m16_reboots ks dev = fold (\<lambda>k d. snd (m16_recover_body (d\<lparr>m16_fail_after := k\<rparr>))) ks dev"

lemma reboots_durable: "durable m dev \<Longrightarrow> durable m (m16_reboots ks dev)"
  unfolding m16_reboots_def
  by (induction ks arbitrary: dev) (use recover_durable in \<open>auto\<close>)

lemma entry_run:
  "m16_entry body (Some d) =
    (case fst (body d) of Inl e \<Rightarrow> e | Inr _ \<Rightarrow> M16_E_OK, Some (snd (body d)))"
  by (simp add: m16_entry_def split: prod.splits sum.splits)

lemma recover_settles:
  assumes "durable m dev"
  shows "\<exists>d. m16_journal_recover (Some ((m16_reboots ks dev)\<lparr>m16_fail_after := -1\<rparr>)) = (M16_E_OK, Some d) \<and>
    m16_dev_ok d \<and> journal_empty (m16_blocks d) \<and> home (m16_blocks d) = m \<and> m16_fail_after d < 0"
proof -
  have "durable m ((m16_reboots ks dev)\<lparr>m16_fail_after := -1\<rparr>)"
    using reboots_durable [OF assms] by simp
  from recover_durable [OF this] show ?thesis
    by (simp add: m16_journal_recover_def entry_run durable_def)
qed

text \<open>
  Property C1. A commit is atomic. Start from an empty journal and any transaction whose targets are
  outside the journal; let the power fail after any number of block writes of the commit (the device's
  \<^verbatim>\<open>fail_after\<close>), then again after any number of writes in each of any number of recovery attempts. When
  recovery at last runs undisturbed it succeeds, empties the journal, and the home blocks hold either
  exactly the old content or the old content with every record of the transaction applied. It is the
  old content exactly when the power failed before the commit record was written, and a commit that
  returned OK is never lost.
\<close>

theorem m16_commit_atomic:
  assumes "m16_dev_ok dev" and "journal_empty (m16_blocks dev)" and "tx_ok tx"
  shows "\<exists>d. m16_journal_recover (Some ((m16_reboots ks (snd (m16_journal_commit tx seq stop dev)))
        \<lparr>m16_fail_after := -1\<rparr>)) = (M16_E_OK, Some d) \<and>
    journal_empty (m16_blocks d) \<and>
    home (m16_blocks d) = (if fails_early dev tx then home (m16_blocks dev)
                           else home (m16_blocks dev) ++ tx_effect tx) \<and>
    (fst (m16_journal_commit tx seq stop dev) = Inr () \<longrightarrow> \<not> fails_early dev tx)"
proof (cases "fails_early dev tx")
  case True
  then obtain d where "m16_journal_commit tx seq stop dev = (Inl M16_E_IO, d)" "durable (home (m16_blocks dev)) d"
    using commit_early [OF assms] by blast
  then show ?thesis
    using recover_settles [of "home (m16_blocks dev)" d ks] True by auto
next
  case False
  then show ?thesis
    using recover_settles [OF commit_late [OF assms(1,3) False], of ks seq stop] by auto
qed

text \<open>A blank device whose power fails after three writes, and a transaction of one record.\<close>

definition m16_sample_dev :: m16_blockdev where
  "m16_sample_dev = \<lparr>m16_blocks = replicate 128 (replicate 512 0), m16_total_blocks = 128,
     m16_writes = 0, m16_fail_after = 3\<rparr>"

definition m16_sample_tx :: m16_tx where
  "m16_sample_tx = \<lparr>tx_count = 1, tx_rec = [\<lparr>rec_target_lba = 30, rec_payload = replicate 512 7\<rparr>]\<rparr>"

lemma sample_dev_ok: "m16_dev_ok m16_sample_dev" "journal_empty (m16_blocks m16_sample_dev)"
  by (simp_all add: m16_dev_ok_def m16_sample_dev_def journal_empty_def m16_journal_header_of_def layout)

lemma sample_tx_ok: "tx_ok m16_sample_tx" "fails_early m16_sample_dev m16_sample_tx"
  by (simp_all add: tx_ok_def m16_sample_tx_def home_ix_def fails_early_def m16_sample_dev_def)

theorem m16_commit_atomic_witness:
  "m16_dev_ok m16_sample_dev \<and> journal_empty (m16_blocks m16_sample_dev) \<and> tx_ok m16_sample_tx \<and>
   (\<exists>d. m16_journal_recover (Some ((m16_reboots [0, 1]
      (snd (m16_journal_commit m16_sample_tx 2 False m16_sample_dev)))\<lparr>m16_fail_after := -1\<rparr>)) =
      (M16_E_OK, Some d) \<and> home (m16_blocks d) = home (m16_blocks m16_sample_dev))"
  using m16_commit_atomic [OF sample_dev_ok sample_tx_ok(1), of "[0, 1]" 2 False] sample_dev_ok sample_tx_ok
  by auto

end
