(* ===== verification/Journal_Files.thy ===== *)
theory Journal_Files
  imports Journal_Correct
begin

text \<open>
  Files of MCSFS1J over the atomic journal: the content of the file system as a map from names to
  bytes, what format, read, write and fsck do to it, and that a write interrupted by a power
  failure leaves a consistent file system in which the file is either absent or complete.
\<close>

section \<open>The file system on a settled device\<close>

definition settled :: "m16_blockdev \<Rightarrow> (nat \<rightharpoonup> bytes) \<Rightarrow> bool" where
  "settled dev m \<longleftrightarrow> m16_dev_ok dev \<and> journal_empty (m16_blocks dev) \<and> home (m16_blocks dev) = m"

definition home_wf :: "(nat \<rightharpoonup> bytes) \<Rightarrow> bool" where
  "home_wf m \<longleftrightarrow> (\<forall>i. home_ix i \<longrightarrow> (\<exists>b. m i = Some b \<and> length b = 512))"

abbreviation v_ib :: "(nat \<rightharpoonup> bytes) \<Rightarrow> bytes" where "v_ib m \<equiv> the (m 18)"
abbreviation v_bb :: "(nat \<rightharpoonup> bytes) \<Rightarrow> bytes" where "v_bb m \<equiv> the (m 19)"
abbreviation v_dir :: "(nat \<rightharpoonup> bytes) \<Rightarrow> bytes" where "v_dir m \<equiv> the (m 24)"

definition v_inodes :: "(nat \<rightharpoonup> bytes) \<Rightarrow> bytes" where
  "v_inodes m = the (m 20) @ the (m 21) @ the (m 22) @ the (m 23)"

definition super_ok :: "(nat \<rightharpoonup> bytes) \<Rightarrow> bool" where
  "super_ok m \<longleftrightarrow> (let sb = m16_super_of (the (m 0)) in
     sb_magic sb = M16_MAGIC \<and> sb_version sb = M16_VERSION \<and> sb_block_size sb = 512 \<and>
     sb_data_start_lba sb = 25 \<and> sb_root_dir_lba sb = 24)"

text \<open>A directory entry that is unused or names a proper file.\<close>

definition entry_ok :: "(nat \<rightharpoonup> bytes) \<Rightarrow> m16_dirent \<Rightarrow> bool" where
  "entry_ok m de \<longleftrightarrow> de_used de = 0 \<or>
    (let n = m16_inode_at (v_inodes m) (unat (de_ino de)) in
     unat (de_ino de) < 16 \<and> unat (de_ino de) \<in> bits (v_ib m) \<and>
     ino_used n \<noteq> 0 \<and> ino_kind n = 1 \<and> unat (ino_size n) \<le> 512 \<and>
     25 \<le> unat (ino_direct n ! 0) \<and> unat (ino_direct n ! 0) < 128 \<and> unat (ino_direct n ! 0) \<in> bits (v_bb m))"

text \<open>What \<^verbatim>\<open>m16_fsck\<close> tests.\<close>

definition fs_ok :: "(nat \<rightharpoonup> bytes) \<Rightarrow> bool" where
  "fs_ok m \<longleftrightarrow> super_ok m \<and>
    (let root = m16_inode_at (v_inodes m) 0 in
     0 \<in> bits (v_ib m) \<and> ino_used root = 1 \<and> ino_kind root = 2 \<and> ino_direct root ! 0 = 24) \<and>
    (\<forall>b<25. b \<in> bits (v_bb m)) \<and>
    (\<forall>i<12. entry_ok m (m16_dirent_at (v_dir m) i))"

text \<open>The content of a file.\<close>

definition m16_file :: "(nat \<rightharpoonup> bytes) \<Rightarrow> bytes \<Rightarrow> bytes option" where
  "m16_file m name = (case m16_find_dirent (v_dir m) name of Inl _ \<Rightarrow> None | Inr slot \<Rightarrow>
     (let n = m16_inode_at (v_inodes m) (unat (de_ino (m16_dirent_at (v_dir m) slot))) in
      Some (take (unat (ino_size n)) (the (m (unat (ino_direct n ! 0)))))))"

lemma home_wf_length: "home_wf m \<Longrightarrow> home_ix i \<Longrightarrow> length (the (m i)) = 512"
  by (auto simp: home_wf_def)

lemma home_wf_lengths:
  assumes "home_wf m"
  shows "length (v_ib m) = 512" "length (v_bb m) = 512" "length (v_dir m) = 512" "length (v_inodes m) = 2048"
  using assms by (simp_all add: home_wf_length home_ix_def v_inodes_def)

lemma settled_wf: "settled dev m \<Longrightarrow> home_wf m"
  by (auto simp: settled_def home_wf_def home_def m16_dev_ok_def home_ix_def)

lemma settled_read:
  assumes "settled dev m" and "home_ix (unat lba)"
  shows "m16_read_block lba dev = (Inr (the (m (unat lba))), dev)"
proof -
  have "lba < 128"
    using assms(2) by (simp add: home_ix_def word_less_nat_alt)
  then show ?thesis
    using assms by (auto simp: settled_def read_block_run home_def)
qed

lemma settled_mount:
  assumes "settled dev m"
  shows "m16_mount_body dev = (if super_ok m then Inr (m16_super_of (the (m 0))) else Inl M16_E_CORRUPT, dev)"
  using assms settled_read [OF assms, of 0] recover_empty [of dev]
  by (simp add: m16_mount_body_def settled_def prog_bind_Inr home_ix_def super_ok_def m16_consts
      prog_fail_if_def prog_run Let_def)

lemma settled_inodes:
  assumes "settled dev m"
  shows "m16_load_inode_table dev = (Inr (v_inodes m), dev)"
  using settled_read [OF assms, of 20] settled_read [OF assms, of 21] settled_read [OF assms, of 22]
    settled_read [OF assms, of 23]
  by (simp add: m16_load_inode_table_def m16_consts home_ix_def prog_bind_Inr prog_run v_inodes_def)

lemma settled_blocks:
  assumes "settled dev m"
  shows "m16_read_block M16_INODE_BITMAP_LBA dev = (Inr (v_ib m), dev)"
    and "m16_read_block M16_BLOCK_BITMAP_LBA dev = (Inr (v_bb m), dev)"
    and "m16_read_block M16_ROOT_DIR_LBA dev = (Inr (v_dir m), dev)"
  using settled_read [OF assms, of 18] settled_read [OF assms, of 19] settled_read [OF assms, of 24]
  by (simp_all add: m16_consts home_ix_def)

section \<open>Checking and reading\<close>

lemma test_bit:
  "length bm = 512 \<Longrightarrow> unat i < 4096 \<Longrightarrow> m16_bitmap_get bm i \<longleftrightarrow> unat i \<in> bits bm"
  by (rule m16_bits.test) simp

lemma test_bit_nat: "length bm = 512 \<Longrightarrow> n < 4096 \<Longrightarrow> m16_bitmap_get bm (of_nat n) \<longleftrightarrow> n \<in> bits bm"
  using test_bit [of bm "of_nat n"] by (simp add: unat_of_nat_small)

lemma fsck_entry_iff:
  assumes "settled dev m"
  shows "m16_fsck_entry dev (v_ib m) (v_bb m) (v_inodes m) de \<longleftrightarrow> entry_ok m de"
proof -
  have "m16_total_blocks dev = 128"
    using assms by (simp add: settled_def m16_dev_ok_def)
  moreover note home_wf_lengths [OF settled_wf [OF assms]]
  ultimately show ?thesis
    by (auto simp: m16_fsck_entry_def entry_ok_def Let_def m16_consts word_less_nat_alt word_le_nat_alt test_bit)
qed

lemma prog_for_fail_if:
  "prog_for is (\<lambda>i. prog_fail_if (\<not> P i) e) s = (if \<forall>i\<in>set is. P i then Inr () else Inl e, s)"
  by (induction "is") (auto simp: prog_bind_def prog_run)

lemma settled_fsck:
  assumes "settled dev m"
  shows "m16_fsck_body dev = (if fs_ok m then Inr () else Inl M16_E_CORRUPT, dev)"
proof -
  note len = home_wf_lengths [OF settled_wf [OF assms]]
  have "(\<forall>b\<in>set [0..<25]. m16_bitmap_get (v_bb m) (of_nat b)) \<longleftrightarrow> (\<forall>b<25. b \<in> bits (v_bb m))"
    using len by (auto simp: test_bit_nat)
  moreover have "m16_dir_count = 12"
    by (simp add: m16_dir_count_def m16_consts)
  ultimately show ?thesis
    using len settled_mount [OF assms] settled_inodes [OF assms] settled_blocks [OF assms]
    by (simp add: m16_fsck_body_def prog_bind_def prog_run prog_for_fail_if fsck_entry_iff [OF assms]
        fs_ok_def Let_def m16_layout test_bit)
qed

lemma settled_read_file:
  assumes "settled dev m" and "fs_ok m" and "unat out_cap \<le> length out"
  shows "m16_read_body name out out_cap dev = (case m16_file m name of
      None \<Rightarrow> Inl M16_E_NOENT
    | Some c \<Rightarrow> if length c > unat out_cap then Inl M16_E_INVAL
        else Inr (c @ drop (length c) out, of_nat (length c)), dev)"
proof (cases "m16_find_dirent (v_dir m) name")
  case (Inl e)
  then have "e = M16_E_NOENT"
    by (auto simp: m16_find_dirent_def split: option.splits)
  then show ?thesis
    using Inl assms(2) settled_mount [OF assms(1)] settled_inodes [OF assms(1)] settled_blocks [OF assms(1)]
    by (simp add: m16_read_body_def prog_bind_def prog_run m16_file_def fs_ok_def)
next
  case (Inr slot)
  let ?de = "m16_dirent_at (v_dir m) slot"
  let ?n = "m16_inode_at (v_inodes m) (unat (de_ino ?de))"
  let ?b = "the (m (unat (ino_direct ?n ! 0)))"
  have slot: "slot < 12" "de_used ?de \<noteq> 0"
    using Inr by (auto simp: m16_find_dirent_def m16_dir_count_def m16_consts find_upt_Some split: option.splits)
  then have e: "unat (de_ino ?de) < 16" "ino_used ?n \<noteq> 0" "ino_kind ?n = 1" "unat (ino_size ?n) \<le> 512"
    "25 \<le> unat (ino_direct ?n ! 0)" "unat (ino_direct ?n ! 0) < 128"
    using assms(2) by (auto simp: fs_ok_def entry_ok_def Let_def)
  then have h: "home_ix (unat (ino_direct ?n ! 0))"
    by (simp add: home_ix_def)
  have blk: "length ?b = 512" and rd: "m16_read_block (ino_direct ?n ! 0) dev = (Inr ?b, dev)"
    using home_wf_length [OF settled_wf [OF assms(1)] h] settled_read [OF assms(1) h] by simp_all
  have content: "m16_file m name = Some (take (unat (ino_size ?n)) ?b)"
    using Inr by (simp add: m16_file_def Let_def)
  have tot: "m16_total_blocks dev = 128"
    using assms(1) by (simp add: settled_def m16_dev_ok_def)
  have copy: "m16_copy out 0 ?b 0 (unat (ino_size ?n)) =
      take (unat (ino_size ?n)) ?b @ drop (unat (ino_size ?n)) out" if "unat (ino_size ?n) \<le> unat out_cap"
    using that e(4) blk assms(3) by (simp add: m16_copy_def copy_loop_eq)
  have "super_ok m"
    using assms(2) by (simp add: fs_ok_def)
  then show ?thesis
    using Inr settled_mount [OF assms(1)] settled_inodes [OF assms(1)] settled_blocks [OF assms(1)] e rd tot blk copy
    by (simp add: m16_read_body_def prog_bind_def prog_run Let_def content m16_consts word_less_nat_alt
        word_le_nat_alt min_def)
qed

section \<open>Names\<close>

text \<open>A name as \<^verbatim>\<open>m16_streq\<close> sees it: the characters before the NUL, at most 32.\<close>

definition c_name :: "bytes \<Rightarrow> bytes" where
  "c_name s = takeWhile (\<lambda>c. c \<noteq> 0) (map (char_at s) [0..<32])"

lemma find_mismatch:
  "(case find (\<lambda>i. f i \<noteq> g i \<or> f i = (0 :: 'a::zero)) is of None \<Rightarrow> True | Some i \<Rightarrow> f i = g i) \<longleftrightarrow>
   takeWhile (\<lambda>c. c \<noteq> 0) (map f is) = takeWhile (\<lambda>c. c \<noteq> 0) (map g is)"
  by (induction "is") auto

lemma streq_iff: "m16_streq a b \<longleftrightarrow> c_name a = c_name b"
  unfolding m16_streq_def c_name_def M16_MAX_NAME_def by (rule find_mismatch)

lemma stored_name:
  assumes "m16_strlen_bounded name 32 < 32"
  shows "c_name (m16_copy (m16_zero 32) 0 name 0 (m16_strlen_bounded name 32)) = c_name name"
proof -
  let ?n = "m16_strlen_bounded name 32" and ?s = "m16_copy (m16_zero 32) 0 name 0 (m16_strlen_bounded name 32)"
  have le: "?n \<le> length name"
    by (simp add: m16_strlen_bounded_def strlen_bounded_le_length)
  have "char_at ?s i = (if i < ?n then char_at name i else 0)" for i
    using le assms by (auto simp: char_at_def m16_copy_def m16_zero_def nth_copy_loop)
  moreover have "char_at name i \<noteq> 0" if "i < ?n" for i
    using that char_before_strlen by (simp add: m16_strlen_bounded_def)
  moreover have "char_at name ?n = 0"
    using assms char_at_strlen by (simp add: m16_strlen_bounded_def)
  ultimately have "find (\<lambda>i. char_at ?s i \<noteq> char_at name i \<or> char_at ?s i = 0) [0..<32] = Some ?n"
    unfolding find_upt_Some using assms by simp
  then have "m16_streq ?s name"
    using \<open>char_at name ?n = 0\<close> by (simp add: m16_streq_def M16_MAX_NAME_def \<open>\<And>i. char_at ?s i = _ i\<close>)
  then show ?thesis
    by (simp add: streq_iff)
qed

section \<open>The transactions of a write\<close>

definition tx_recs :: "m16_tx \<Rightarrow> (u32 \<times> bytes) list" where
  "tx_recs tx = map (\<lambda>r. (rec_target_lba r, rec_payload r)) (take (unat (tx_count tx)) (tx_rec tx))"

definition tx_wf :: "m16_tx \<Rightarrow> bool" where
  "tx_wf tx \<longleftrightarrow> unat (tx_count tx) \<le> 8 \<and> length (tx_rec tx) = 8 \<and>
     (\<forall>r\<in>set (tx_rec tx). length (rec_payload r) = 512)"

lemma tx_zero_wf: "tx_wf m16_tx_zero" "tx_recs m16_tx_zero = []" "tx_count m16_tx_zero = 0"
  by (simp_all add: tx_wf_def m16_tx_zero_def tx_recs_def m16_zero_def m16_consts)

lemma tx_push:
  assumes "tx_wf tx" and "unat (tx_count tx) < 8" and "off + 512 \<le> length payload"
  shows "tx_wf (m16_tx_push lba payload off tx)"
    and "tx_recs (m16_tx_push lba payload off tx) = tx_recs tx @ [(lba, slice off 512 payload)]"
    and "tx_count (m16_tx_push lba payload off tx) = tx_count tx + 1"
proof -
  let ?n = "unat (tx_count tx)"
  let ?r = "\<lparr>rec_target_lba = lba,
      rec_payload = m16_copy (rec_payload (tx_rec tx ! ?n)) 0 payload off M16_BLOCK_SIZE\<rparr>"
  have "length (rec_payload (tx_rec tx ! ?n)) = 512"
    using assms(1,2) by (simp add: tx_wf_def)
  then have copy: "m16_copy (rec_payload (tx_rec tx ! ?n)) 0 payload off M16_BLOCK_SIZE = slice off 512 payload"
    using assms(3) by (simp add: m16_copy_def copy_loop_eq slice_def m16_consts)
  have cnt: "unat (tx_count tx + 1) = Suc ?n"
    using assms(2) by (subst unat_add_nowrap) simp_all
  show "tx_wf (m16_tx_push lba payload off tx)"
    using assms cnt copy set_update_subset_insert [of "tx_rec tx" ?n ?r]
    by (auto simp: tx_wf_def m16_tx_push_def Let_def)
  show "tx_recs (m16_tx_push lba payload off tx) = tx_recs tx @ [(lba, slice off 512 payload)]"
    using assms(1,2) cnt copy by (simp add: tx_recs_def m16_tx_push_def Let_def tx_wf_def take_Suc_conv_app_nth)
  show "tx_count (m16_tx_push lba payload off tx) = tx_count tx + 1"
    by (simp add: m16_tx_push_def Let_def)
qed

lemma home_writes_recs: "tx_wf tx \<Longrightarrow> home_writes tx = tx_recs tx"
  by (auto simp: tx_wf_def home_writes_def tx_recs_def intro: nth_equalityI)

lemma tx_wf_ok:
  assumes "tx_wf tx" and "\<forall>w\<in>set (tx_recs tx). home_ix (unat (fst w))"
  shows "tx_ok tx"
proof -
  have "tx_rec tx ! i \<in> set (take (unat (tx_count tx)) (tx_rec tx))" if "i < unat (tx_count tx)" for i
    using that assms(1) nth_mem [of i "take (unat (tx_count tx)) (tx_rec tx)"] by (simp add: tx_wf_def)
  then show ?thesis
    using assms by (auto simp: tx_ok_def tx_wf_def tx_recs_def dest: in_set_takeD)
qed

text \<open>The two transactions, and the content after each.\<close>

definition alloc_content :: "(nat \<rightharpoonup> bytes) \<Rightarrow> nat \<Rightarrow> nat \<Rightarrow> u32 \<Rightarrow> (nat \<rightharpoonup> bytes)" where
  "alloc_content m ino db sz = (let T = m16_new_inodes (v_inodes m) ino sz db in
     m(18 \<mapsto> m16_bitmap_set (v_ib m) (of_nat ino), 19 \<mapsto> m16_bitmap_set (v_bb m) (of_nat db),
       20 \<mapsto> slice 0 512 T, 21 \<mapsto> slice 512 512 T, 22 \<mapsto> slice 1024 512 T, 23 \<mapsto> slice 1536 512 T))"

definition named_content :: "(nat \<rightharpoonup> bytes) \<Rightarrow> nat \<Rightarrow> nat \<Rightarrow> nat \<Rightarrow> bytes \<Rightarrow> bytes \<Rightarrow> (nat \<rightharpoonup> bytes)" where
  "named_content m ino db slot name blk =
     m(24 \<mapsto> m16_new_dir (v_dir m) slot ino name (m16_strlen_bounded name 32), db \<mapsto> blk)"

lemma slice_all: "length b = n \<Longrightarrow> slice 0 n b = b"
  by (simp add: slice_def)

lemma alloc_tx:
  assumes "length ib = 512" and "length bb = 512" and "length T = 2048"
  shows "\<exists>tx. (\<forall>k. prog_bind (prog_lift (m16_tx_add m16_tx_zero M16_INODE_BITMAP_LBA ib)) (\<lambda>tx.
      prog_bind (prog_lift (m16_tx_add tx M16_BLOCK_BITMAP_LBA bb)) (\<lambda>tx.
      prog_bind (prog_lift (m16_store_inode_table tx T)) k)) = (k tx :: 'a m16_prog)) \<and> tx_ok tx \<and>
    tx_effect tx = [18 \<mapsto> ib, 19 \<mapsto> bb, 20 \<mapsto> slice 0 512 T, 21 \<mapsto> slice 512 512 T,
      22 \<mapsto> slice 1024 512 T, 23 \<mapsto> slice 1536 512 T]"
proof -
  define t1 where "t1 = m16_tx_push 18 ib 0 m16_tx_zero"
  define t2 where "t2 = m16_tx_push 19 bb 0 t1"
  define t3 where "t3 = m16_tx_push 20 T 0 t2"
  define t4 where "t4 = m16_tx_push 21 T 512 t3"
  define t5 where "t5 = m16_tx_push 22 T 1024 t4"
  define t6 where "t6 = m16_tx_push 23 T 1536 t5"
  note p1 = tx_push [OF tx_zero_wf(1), of 0 ib 18, folded t1_def]
  have 1: "tx_wf t1" "tx_count t1 = 1" "tx_recs t1 = [(18, ib)]"
    using p1 assms(1) by (simp_all add: tx_zero_wf slice_all)
  have 2: "tx_wf t2" "tx_count t2 = 2" "tx_recs t2 = tx_recs t1 @ [(19, bb)]"
    using tx_push [OF 1(1), of 0 bb 19, folded t2_def] assms(2) 1(2) by (simp_all add: slice_all)
  have 3: "tx_wf t3" "tx_count t3 = 3" "tx_recs t3 = tx_recs t2 @ [(20, slice 0 512 T)]"
    using tx_push [OF 2(1), of 0 T 20, folded t3_def] assms(3) 2(2) by simp_all
  have 4: "tx_wf t4" "tx_count t4 = 4" "tx_recs t4 = tx_recs t3 @ [(21, slice 512 512 T)]"
    using tx_push [OF 3(1), of 512 T 21, folded t4_def] assms(3) 3(2) by simp_all
  have 5: "tx_wf t5" "tx_count t5 = 5" "tx_recs t5 = tx_recs t4 @ [(22, slice 1024 512 T)]"
    using tx_push [OF 4(1), of 1024 T 22, folded t5_def] assms(3) 4(2) by simp_all
  have 6: "tx_wf t6" "tx_recs t6 = tx_recs t5 @ [(23, slice 1536 512 T)]"
    using tx_push [OF 5(1), of 1536 T 23, folded t6_def] assms(3) 5(2) by simp_all
  have recs: "tx_recs t6 = [(18, ib), (19, bb), (20, slice 0 512 T), (21, slice 512 512 T),
      (22, slice 1024 512 T), (23, slice 1536 512 T)]"
    by (simp add: 1(3) 2(3) 3(3) 4(3) 5(3) 6(2))
  have "m16_tx_add m16_tx_zero M16_INODE_BITMAP_LBA ib = Inr t1" "m16_tx_add t1 M16_BLOCK_BITMAP_LBA bb = Inr t2"
    using 1(2) by (simp_all add: m16_tx_add_def m16_consts tx_zero_wf t1_def t2_def word_le_nat_alt)
  moreover have "m16_store_inode_table t2 T = Inr t6"
    using 2(2) by (simp add: m16_store_inode_table_def m16_consts upt_conv_Cons t3_def t4_def t5_def t6_def)
  moreover have "tx_ok t6"
    using tx_wf_ok [OF 6(1)] by (simp add: recs home_ix_def)
  moreover have "tx_effect t6 = [18 \<mapsto> ib, 19 \<mapsto> bb, 20 \<mapsto> slice 0 512 T, 21 \<mapsto> slice 512 512 T,
      22 \<mapsto> slice 1024 512 T, 23 \<mapsto> slice 1536 512 T]"
    by (simp add: tx_effect_def home_writes_recs [OF 6(1)] recs writes_map_def)
  ultimately show ?thesis
    by (intro exI [of _ t6]) simp
qed

lemma name_tx:
  assumes "length dir = 512" and "length blk = 512" and "25 \<le> db" and "db < 128"
  shows "\<exists>tx. (\<forall>k. prog_bind (prog_lift (m16_tx_add m16_tx_zero M16_ROOT_DIR_LBA dir)) (\<lambda>tx.
      prog_bind (prog_lift (m16_tx_add tx (of_nat db) blk)) k) = (k tx :: 'a m16_prog)) \<and> tx_ok tx \<and>
    tx_effect tx = [24 \<mapsto> dir, db \<mapsto> blk]"
proof -
  define t1 where "t1 = m16_tx_push 24 dir 0 m16_tx_zero"
  define t2 where "t2 = m16_tx_push (of_nat db) blk 0 t1"
  have 1: "tx_wf t1" "tx_count t1 = 1" "tx_recs t1 = [(24, dir)]"
    using tx_push [OF tx_zero_wf(1), of 0 dir 24, folded t1_def] assms(1) by (simp_all add: tx_zero_wf slice_all)
  have 2: "tx_wf t2" "tx_recs t2 = [(24, dir), (of_nat db, blk)]"
    using tx_push [OF 1(1), of 0 blk "of_nat db", folded t2_def] assms(2) 1(2,3) by (simp_all add: slice_all)
  have db: "unat (of_nat db :: u32) = db"
    using assms(4) by (intro unat_of_nat_small) simp
  have "m16_tx_add m16_tx_zero M16_ROOT_DIR_LBA dir = Inr t1" "m16_tx_add t1 (of_nat db) blk = Inr t2"
    using 1(2) by (simp_all add: m16_tx_add_def m16_consts tx_zero_wf t1_def t2_def word_le_nat_alt)
  moreover have "tx_ok t2"
    using tx_wf_ok [OF 2(1)] assms(3,4) by (simp add: 2 home_ix_def db)
  moreover have "tx_effect t2 = [24 \<mapsto> dir, db \<mapsto> blk]"
    by (simp add: tx_effect_def home_writes_recs [OF 2(1)] 2(2) writes_map_def db)
  ultimately show ?thesis
    by (intro exI [of _ t2]) simp
qed

section \<open>What the transactions do to the files\<close>

text \<open>A free inode and a free data block.\<close>

definition free_inode :: "(nat \<rightharpoonup> bytes) \<Rightarrow> nat \<Rightarrow> bool" where
  "free_inode m ino \<longleftrightarrow> 1 \<le> ino \<and> ino < 16 \<and> ino \<notin> bits (v_ib m)"

definition free_block :: "(nat \<rightharpoonup> bytes) \<Rightarrow> nat \<Rightarrow> bool" where
  "free_block m db \<longleftrightarrow> 25 \<le> db \<and> db < 128 \<and> db \<notin> bits (v_bb m)"

lemma new_inodes_at:
  assumes "length T = 2048" and "ino < 16" and "j < 16"
  shows "m16_inode_at (m16_new_inodes T ino sz db) j =
    (if j = ino then (m16_inode_at T ino)\<lparr>ino_used := 1, ino_kind := 1, ino_size := sz,
       ino_direct := (ino_direct (m16_inode_at T ino))[0 := of_nat db]\<rparr> else m16_inode_at T j)"
  using assms inode_bytes.at_ok [of T ino] by (simp add: m16_new_inodes_def Let_def inode_bytes.at_put)

lemma length_new_inodes [simp]: "length (m16_new_inodes T ino sz db) = length T"
  by (simp add: m16_new_inodes_def Let_def)

lemma slices_join:
  assumes "length T = 2048"
  shows "slice 0 512 T @ slice 512 512 T @ slice 1024 512 T @ slice 1536 512 T = T"
proof -
  have cut: "slice k 512 T @ drop (k + 512) T = drop k T" for k
    using append_take_drop_id [of 512 "drop k T"] by (simp add: slice_def add.commute)
  have "slice 0 512 T @ slice 512 512 T @ slice 1024 512 T @ slice 1536 512 T @ drop 2048 T = T"
    using cut [of 0] cut [of 512] cut [of 1024] cut [of 1536] by simp
  then show ?thesis
    using assms by simp
qed

lemma alloc_view:
  fixes sz :: u32
  assumes "home_wf m" and "free_inode m ino" and "free_block m db"
  defines "m1 \<equiv> alloc_content m ino db sz"
  shows "bits (v_ib m1) = insert ino (bits (v_ib m))" and "bits (v_bb m1) = insert db (bits (v_bb m))"
    and "v_inodes m1 = m16_new_inodes (v_inodes m) ino sz db" and "v_dir m1 = v_dir m"
    and "home_wf m1" and "\<And>i. i < 18 \<or> 24 \<le> i \<Longrightarrow> m1 i = m i"
proof -
  note len = home_wf_lengths [OF assms(1)]
  have ix: "unat (of_nat ino :: u32) = ino" "unat (of_nat db :: u32) = db"
    using assms(2,3) by (simp_all add: free_inode_def free_block_def unat_of_nat_small)
  show "bits (v_ib m1) = insert ino (bits (v_ib m))"
    using m16_bits.bits_set [of "of_nat ino" "v_ib m"] ix len assms(2)
    by (simp add: m1_def alloc_content_def Let_def free_inode_def)
  show "bits (v_bb m1) = insert db (bits (v_bb m))"
    using m16_bits.bits_set [of "of_nat db" "v_bb m"] ix len assms(3)
    by (simp add: m1_def alloc_content_def Let_def free_block_def)
  show "v_inodes m1 = m16_new_inodes (v_inodes m) ino sz db"
    using slices_join [of "m16_new_inodes (v_inodes m) ino sz db"] len(4)
    by (simp add: m1_def alloc_content_def Let_def v_inodes_def [of "_(_ := _)"])
  show "v_dir m1 = v_dir m"
    by (simp add: m1_def alloc_content_def Let_def)
  show "home_wf m1"
    using assms(1) len by (simp add: home_wf_def m1_def alloc_content_def Let_def m16_bits.length_set)
  show "m1 i = m i" if "i < 18 \<or> 24 \<le> i" for i
    using that by (auto simp: m1_def alloc_content_def Let_def)
qed

lemma entry_facts:
  assumes "fs_ok m" and "i < 12" and "de_used (m16_dirent_at (v_dir m) i) \<noteq> 0"
  defines "ino \<equiv> unat (de_ino (m16_dirent_at (v_dir m) i))"
  defines "n \<equiv> m16_inode_at (v_inodes m) ino"
  shows "ino < 16" "ino \<in> bits (v_ib m)" "25 \<le> unat (ino_direct n ! 0)" "unat (ino_direct n ! 0) < 128"
    "unat (ino_direct n ! 0) \<in> bits (v_bb m)"
  using assms by (auto simp: fs_ok_def entry_ok_def Let_def)

lemma alloc_inode_kept:
  assumes "home_wf m" and "free_inode m ino" and "free_block m db" and "j < 16" and "j \<noteq> ino"
  shows "m16_inode_at (v_inodes (alloc_content m ino db sz)) j = m16_inode_at (v_inodes m) j"
  using assms alloc_view(3) [OF assms(1-3)] home_wf_lengths(4) [OF assms(1)]
  by (simp add: new_inodes_at free_inode_def)

lemma alloc_fs_ok:
  assumes "home_wf m" and "fs_ok m" and "free_inode m ino" and "free_block m db"
  shows "fs_ok (alloc_content m ino db sz)"
proof -
  let ?m = "alloc_content m ino db sz"
  note v = alloc_view [OF assms(1,3,4), where sz = sz]
  note kept = alloc_inode_kept [OF assms(1,3,4), where sz = sz]
  have "entry_ok ?m (m16_dirent_at (v_dir m) i)" if "i < 12" for i
  proof (cases "de_used (m16_dirent_at (v_dir m) i) = 0")
    case False
    let ?de = "m16_dirent_at (v_dir m) i"
    note e = entry_facts [OF assms(2) that False]
    have "unat (de_ino ?de) \<noteq> ino"
      using e(2) assms(3) by (auto simp: free_inode_def)
    then have "m16_inode_at (v_inodes ?m) (unat (de_ino ?de)) = m16_inode_at (v_inodes m) (unat (de_ino ?de))"
      using e(1) by (intro kept)
    moreover have "entry_ok m ?de"
      using assms(2) that by (simp add: fs_ok_def)
    ultimately show ?thesis
      using False by (simp add: entry_ok_def Let_def v(1,2))
  qed (simp add: entry_ok_def)
  moreover have "m16_inode_at (v_inodes ?m) 0 = m16_inode_at (v_inodes m) 0"
    using assms(3) by (intro kept) (simp_all add: free_inode_def)
  ultimately show ?thesis
    using assms(2) v(6) [of 0] by (simp add: fs_ok_def super_ok_def v(1,2,4) Let_def)
qed

text \<open>The allocation does not change any file.\<close>

lemma find_dirent_Inr:
  "m16_find_dirent dir name = Inr slot \<Longrightarrow> slot < 12 \<and> de_used (m16_dirent_at dir slot) \<noteq> 0 \<and>
     c_name (de_name (m16_dirent_at dir slot)) = c_name name"
  by (auto simp: m16_find_dirent_def m16_dir_count_def m16_consts find_upt_Some streq_iff split: option.splits)

lemma alloc_file:
  assumes "home_wf m" and "fs_ok m" and "free_inode m ino" and "free_block m db"
  shows "m16_file (alloc_content m ino db sz) nm = m16_file m nm"
proof (cases "m16_find_dirent (v_dir m) nm")
  case (Inr slot)
  let ?de = "m16_dirent_at (v_dir m) slot"
  have slot: "slot < 12" "de_used ?de \<noteq> 0"
    using find_dirent_Inr [OF Inr] by simp_all
  note e = entry_facts [OF assms(2) slot]
  have "unat (de_ino ?de) \<noteq> ino"
    using e(2) assms(3) by (auto simp: free_inode_def)
  then show ?thesis
    using Inr e alloc_view [OF assms(1,3,4), where sz = sz] alloc_inode_kept [OF assms(1,3,4), where sz = sz]
    by (simp add: m16_file_def Let_def)
qed (simp add: m16_file_def alloc_view(4) [OF assms(1,3,4)])

lemma new_dir_at:
  assumes "length dir = 512" and "slot < 12" and "i < 12"
  shows "m16_dirent_at (m16_new_dir dir slot ino name len) i =
    (if i = slot then \<lparr>de_used = 1, de_ino = of_nat ino, de_name = m16_copy (m16_zero 32) 0 name 0 len\<rparr>
     else m16_dirent_at dir i)"
  using assms by (simp add: m16_new_dir_def M16_MAX_NAME_def dirent_bytes.at_put m16_copy_def m16_zero_def)

text \<open>The second transaction: the inode is in place and allocated, the entry and the block are free.\<close>

definition ready_content :: "(nat \<rightharpoonup> bytes) \<Rightarrow> nat \<Rightarrow> nat \<Rightarrow> nat \<Rightarrow> nat \<Rightarrow> bool" where
  "ready_content m ino db slot sz \<longleftrightarrow> home_wf m \<and> fs_ok m \<and> ino < 16 \<and> ino \<in> bits (v_ib m) \<and>
     25 \<le> db \<and> db < 128 \<and> db \<in> bits (v_bb m) \<and> slot < 12 \<and> de_used (m16_dirent_at (v_dir m) slot) = 0 \<and> sz \<le> 512 \<and>
     (let n = m16_inode_at (v_inodes m) ino in
      ino_used n = 1 \<and> ino_kind n = 1 \<and> unat (ino_size n) = sz \<and> unat (ino_direct n ! 0) = db) \<and>
     (\<forall>i<12. de_used (m16_dirent_at (v_dir m) i) \<noteq> 0 \<longrightarrow>
        unat (ino_direct (m16_inode_at (v_inodes m) (unat (de_ino (m16_dirent_at (v_dir m) i)))) ! 0) \<noteq> db)"

lemma alloc_ready:
  assumes "home_wf m" and "fs_ok m" and "free_inode m ino" and "free_block m db"
    and "slot < 12" and "de_used (m16_dirent_at (v_dir m) slot) = 0" and "unat sz \<le> 512"
  shows "ready_content (alloc_content m ino db sz) ino db slot (unat sz)"
proof -
  let ?m = "alloc_content m ino db sz"
  note v = alloc_view [OF assms(1,3,4), where sz = sz]
  note kept = alloc_inode_kept [OF assms(1,3,4), where sz = sz]
  have ino: "ino < 16" and db: "25 \<le> db" "db < 128"
    using assms(3,4) by (simp_all add: free_inode_def free_block_def)
  have "length (ino_direct (m16_inode_at (v_inodes m) ino)) = 4"
    using inode_bytes.at_ok by blast
  moreover have "unat (of_nat db :: u32) = db"
    using db by (intro unat_of_nat_small) simp
  ultimately have new: "let n = m16_inode_at (v_inodes ?m) ino in
      ino_used n = 1 \<and> ino_kind n = 1 \<and> unat (ino_size n) = unat sz \<and> unat (ino_direct n ! 0) = db"
    using new_inodes_at [OF home_wf_lengths(4) [OF assms(1)] ino ino] by (simp add: v(3) Let_def)
  have "unat (ino_direct (m16_inode_at (v_inodes ?m) (unat (de_ino (m16_dirent_at (v_dir m) i)))) ! 0) \<noteq> db"
    if i: "i < 12" "de_used (m16_dirent_at (v_dir m) i) \<noteq> 0" for i
  proof -
    note e = entry_facts [OF assms(2) i]
    have "unat (de_ino (m16_dirent_at (v_dir m) i)) \<noteq> ino"
      using e(2) assms(3) by (auto simp: free_inode_def)
    then show ?thesis
      using kept [OF e(1)] e(5) assms(4) by (auto simp: free_block_def)
  qed
  then show ?thesis
    using alloc_fs_ok [OF assms(1-4)] v ino db new assms(5-7) by (simp add: ready_content_def)
qed

lemma named_view:
  fixes ino slot :: nat and name :: bytes
  assumes "home_wf m" and "25 \<le> db" and "db < 128" and "length blk = 512"
  defines "m1 \<equiv> named_content m ino db slot name blk"
  shows "v_ib m1 = v_ib m" and "v_bb m1 = v_bb m" and "v_inodes m1 = v_inodes m"
    and "v_dir m1 = m16_new_dir (v_dir m) slot ino name (m16_strlen_bounded name 32)"
    and "home_wf m1" and "m1 db = Some blk" and "\<And>i. i \<noteq> 24 \<Longrightarrow> i \<noteq> db \<Longrightarrow> m1 i = m i"
proof -
  have other: "m1 i = m i" if "i \<noteq> 24" "i \<noteq> db" for i
    using that by (simp add: m1_def named_content_def)
  show "v_ib m1 = v_ib m" "v_bb m1 = v_bb m" "v_inodes m1 = v_inodes m"
    using assms(2) by (simp_all add: other v_inodes_def)
  show "v_dir m1 = m16_new_dir (v_dir m) slot ino name (m16_strlen_bounded name 32)"
    using assms(2) by (simp add: m1_def named_content_def)
  show "home_wf m1"
    using assms(1,4) home_wf_lengths(3) [OF assms(1)]
    by (simp add: home_wf_def m1_def named_content_def m16_new_dir_def)
  show "m1 db = Some blk"
    by (simp add: m1_def named_content_def)
  show "m1 i = m i" if "i \<noteq> 24" "i \<noteq> db" for i
    using that by (rule other)
qed

lemma named_fs_ok:
  assumes "ready_content m ino db slot sz" and "length blk = 512"
  shows "fs_ok (named_content m ino db slot name blk)"
proof -
  let ?m = "named_content m ino db slot name blk"
  have r: "home_wf m" "25 \<le> db" "db < 128" "slot < 12" "fs_ok m"
    using assms(1) by (simp_all add: ready_content_def)
  note v = named_view [OF r(1-3) assms(2), where ino = ino and slot = slot and name = name]
  have ent: "entry_ok ?m de \<longleftrightarrow> entry_ok m de" for de
    by (simp add: entry_ok_def Let_def v(1-3))
  have "entry_ok m (m16_dirent_at (v_dir ?m) i)" if "i < 12" for i
  proof (cases "i = slot")
    case True
    have "unat (of_nat ino :: u32) = ino"
      using assms(1) by (intro unat_of_nat_small) (simp add: ready_content_def)
    then show ?thesis
      using True assms(1) new_dir_at [OF home_wf_lengths(3) [OF r(1)] r(4) that]
      by (auto simp: v(4) entry_ok_def Let_def ready_content_def)
  next
    case False
    then show ?thesis
      using r(5) that new_dir_at [OF home_wf_lengths(3) [OF r(1)] r(4) that] by (simp add: v(4) fs_ok_def)
  qed
  then show ?thesis
    using r(5) v(7) [of 0] r(2) by (simp add: fs_ok_def super_ok_def v(1-3) ent)
qed

lemma named_file_new:
  assumes "ready_content m ino db slot sz" and "length blk = 512"
    and "m16_find_dirent (v_dir m) name = Inl e" and "m16_strlen_bounded name 32 < 32"
  shows "m16_file (named_content m ino db slot name blk) name = Some (take sz blk)"
proof -
  let ?m = "named_content m ino db slot name blk"
  have r: "home_wf m" "25 \<le> db" "db < 128" "slot < 12" "fs_ok m"
    using assms(1) by (simp_all add: ready_content_def)
  note v = named_view [OF r(1-3) assms(2), where ino = ino and slot = slot and name = name]
  note at = new_dir_at [OF home_wf_lengths(3) [OF r(1)] r(4)]
  have none: "\<not> (de_used (m16_dirent_at (v_dir m) i) \<noteq> 0 \<and> m16_streq (de_name (m16_dirent_at (v_dir m) i)) name)"
    if "i < 12" for i
    using assms(3) that
    by (auto simp: m16_find_dirent_def m16_dir_count_def m16_consts find_upt_None split: option.splits)
  have "m16_find_dirent (v_dir ?m) name = Inr slot"
  proof -
    have "find (\<lambda>i. de_used (m16_dirent_at (v_dir ?m) i) \<noteq> 0 \<and>
        m16_streq (de_name (m16_dirent_at (v_dir ?m) i)) name) [0..<12] = Some slot"
      unfolding find_upt_Some using r(4) none stored_name [OF assms(4)] by (auto simp: v(4) at streq_iff)
    then show ?thesis
      by (simp add: m16_find_dirent_def m16_dir_count_def m16_consts)
  qed
  moreover have "unat (of_nat ino :: u32) = ino"
    using assms(1) by (intro unat_of_nat_small) (simp add: ready_content_def)
  ultimately show ?thesis
    using assms(1) at [OF r(4)] v(6) by (auto simp: m16_file_def v(3,4) Let_def ready_content_def)
qed

lemma named_file_other:
  assumes "ready_content m ino db slot sz" and "length blk = 512"
    and "m16_strlen_bounded name 32 < 32" and "c_name nm \<noteq> c_name name"
  shows "m16_file (named_content m ino db slot name blk) nm = m16_file m nm"
proof -
  let ?m = "named_content m ino db slot name blk"
  have r: "home_wf m" "25 \<le> db" "db < 128" "slot < 12" "fs_ok m" "de_used (m16_dirent_at (v_dir m) slot) = 0"
    using assms(1) by (simp_all add: ready_content_def)
  note v = named_view [OF r(1-3) assms(2), where ino = ino and slot = slot and name = name]
  note at = new_dir_at [OF home_wf_lengths(3) [OF r(1)] r(4)]
  have "find (\<lambda>i. de_used (m16_dirent_at (v_dir ?m) i) \<noteq> 0 \<and> m16_streq (de_name (m16_dirent_at (v_dir ?m) i)) nm) [0..<12] =
    find (\<lambda>i. de_used (m16_dirent_at (v_dir m) i) \<noteq> 0 \<and> m16_streq (de_name (m16_dirent_at (v_dir m) i)) nm) [0..<12]"
    by (rule find_cong) (use r(6) stored_name [OF assms(3)] assms(4) in \<open>auto simp: v(4) at streq_iff\<close>)
  then have same: "m16_find_dirent (v_dir ?m) nm = m16_find_dirent (v_dir m) nm"
    by (simp add: m16_find_dirent_def m16_dir_count_def m16_consts)
  show ?thesis
  proof (cases "m16_find_dirent (v_dir m) nm")
    case (Inr s)
    have s: "s < 12" "de_used (m16_dirent_at (v_dir m) s) \<noteq> 0"
      using find_dirent_Inr [OF Inr] by simp_all
    let ?n = "m16_inode_at (v_inodes m) (unat (de_ino (m16_dirent_at (v_dir m) s)))"
    have "s \<noteq> slot" "unat (ino_direct ?n ! 0) \<noteq> db" "unat (ino_direct ?n ! 0) \<noteq> 24"
      using s r(6) assms(1) entry_facts(3) [OF r(5) s] by (auto simp: ready_content_def)
    then show ?thesis
      using Inr same at [OF s(1)] v(7) by (simp add: m16_file_def v(3,4) Let_def)
  qed (simp add: m16_file_def same)
qed

section \<open>Writing a file\<close>

text \<open>The tests of a write that come before its first transaction.\<close>

definition write_error :: "(nat \<rightharpoonup> bytes) \<Rightarrow> bytes \<Rightarrow> u32 \<Rightarrow> m16_status option" where
  "write_error m name sz =
    (if m16_strlen_bounded name 32 = 0 \<or> m16_strlen_bounded name 32 \<ge> 32 then Some M16_E_TOOLONG
     else if unat sz > 512 then Some M16_E_INVAL
     else if \<exists>slot. m16_find_dirent (v_dir m) name = Inr slot then Some M16_E_EXISTS
     else if \<nexists>ino. m16_find_free_inode (v_ib m) = Inr ino then Some M16_E_NOSPC
     else if \<nexists>db. m16_find_free_block (v_bb m) = Inr db then Some M16_E_NOSPC
     else if \<nexists>slot. m16_find_free_dirent (v_dir m) = Inr slot then Some M16_E_NOSPC
     else None)"

lemma find_free_inode_Inr:
  assumes "home_wf m" and "m16_find_free_inode (v_ib m) = Inr ino"
  shows "free_inode m ino"
proof -
  have "1 \<le> ino" "ino < 16" "\<not> m16_bitmap_get (v_ib m) (of_nat ino)"
    using assms(2) by (auto simp: m16_find_free_inode_def m16_consts find_upt_Some split: option.splits)
  then show ?thesis
    using home_wf_lengths(1) [OF assms(1)] by (simp add: free_inode_def test_bit_nat)
qed

lemma find_free_block_Inr:
  assumes "home_wf m" and "m16_find_free_block (v_bb m) = Inr db"
  shows "free_block m db"
proof -
  have "25 \<le> db" "db < 128" "\<not> m16_bitmap_get (v_bb m) (of_nat db)"
    using assms(2)
    by (auto simp: m16_find_free_block_def m16_consts find_upt_Some simp del: upt_rec_numeral split: option.splits)
  then show ?thesis
    using home_wf_lengths(2) [OF assms(1)] by (simp add: free_block_def test_bit_nat)
qed

lemma find_free_dirent_Inr:
  "m16_find_free_dirent dir = Inr slot \<Longrightarrow> slot < 12 \<and> de_used (m16_dirent_at dir slot) = 0"
  by (auto simp: m16_find_free_dirent_def m16_dir_count_def m16_consts find_upt_Some split: option.splits)

lemma find_errors:
  "m16_find_free_inode ib = Inl e \<Longrightarrow> e = M16_E_NOSPC" "m16_find_free_block bb = Inl e \<Longrightarrow> e = M16_E_NOSPC"
  "m16_find_free_dirent dir = Inl e \<Longrightarrow> e = M16_E_NOSPC"
  by (auto simp: m16_find_free_inode_def m16_find_free_block_def m16_find_free_dirent_def split: option.splits)

lemma write_refused:
  assumes "settled dev m" and "fs_ok m" and "write_error m name sz = Some e"
  shows "m16_write_body name data sz stop dev = (Inl e, dev)"
proof -
  have "super_ok m"
    using assms(2) by (simp add: fs_ok_def)
  note reads = settled_mount [OF assms(1)] settled_inodes [OF assms(1)] settled_blocks [OF assms(1)]
  show ?thesis
    using assms(3) \<open>super_ok m\<close> reads find_errors
    by (cases "m16_find_dirent (v_dir m) name"; cases "m16_find_free_inode (v_ib m)";
        cases "m16_find_free_block (v_bb m)"; cases "m16_find_free_dirent (v_dir m)")
      (auto simp: m16_write_body_def write_error_def Let_def prog_bind_def prog_run m16_consts M16_MAX_NAME_def
        split: if_splits)
qed

text \<open>The data block a write stores.\<close>

definition data_block_of :: "bytes \<Rightarrow> u32 \<Rightarrow> bytes" where
  "data_block_of data sz = m16_copy (m16_zero 512) 0 data 0 (unat sz)"

lemma length_data_block [simp]: "length (data_block_of data sz) = 512"
  by (simp add: data_block_of_def m16_copy_def m16_zero_def)

lemma take_data_block:
  "unat sz \<le> 512 \<Longrightarrow> unat sz \<le> length data \<Longrightarrow> take (unat sz) (data_block_of data sz) = take (unat sz) data"
  by (simp add: data_block_of_def m16_copy_def m16_zero_def copy_loop_eq)

lemma write_accepted:
  assumes "settled dev m" and "fs_ok m" and "write_error m name sz = None"
  shows "\<exists>tx1 tx2 ino db slot. m16_write_body name data sz stop dev =
      prog_bind (m16_journal_commit tx1 (sb_clean_generation (m16_super_of (the (m 0))) + 1) False)
        (\<lambda>_. m16_journal_commit tx2 (sb_clean_generation (m16_super_of (the (m 0))) + 2) stop) dev \<and>
    tx_ok tx1 \<and> m ++ tx_effect tx1 = alloc_content m ino db sz \<and>
    tx_ok tx2 \<and> alloc_content m ino db sz ++ tx_effect tx2 =
      named_content (alloc_content m ino db sz) ino db slot name (data_block_of data sz) \<and>
    free_inode m ino \<and> free_block m db \<and> slot < 12 \<and> de_used (m16_dirent_at (v_dir m) slot) = 0"
proof -
  have name: "0 < m16_strlen_bounded name 32" "m16_strlen_bounded name 32 < 32" and sz: "unat sz \<le> 512"
    using assms(3) by (auto simp: write_error_def split: if_splits)
  obtain e0 where absent: "m16_find_dirent (v_dir m) name = Inl e0"
    using assms(3) by (cases "m16_find_dirent (v_dir m) name") (auto simp: write_error_def split: if_splits)
  obtain ino db slot where found: "m16_find_free_inode (v_ib m) = Inr ino"
    "m16_find_free_block (v_bb m) = Inr db" "m16_find_free_dirent (v_dir m) = Inr slot"
    using assms(3) by (auto simp: write_error_def split: if_splits)
  note wf = settled_wf [OF assms(1)]
  note free = find_free_inode_Inr [OF wf found(1)] find_free_block_Inr [OF wf found(2)] find_free_dirent_Inr [OF found(3)]
  define ib where "ib = m16_bitmap_set (v_ib m) (of_nat ino)"
  define bb where "bb = m16_bitmap_set (v_bb m) (of_nat db)"
  define T where "T = m16_new_inodes (v_inodes m) ino sz db"
  define dir where "dir = m16_new_dir (v_dir m) slot ino name (m16_strlen_bounded name 32)"
  note len = home_wf_lengths [OF wf]
  have lens: "length ib = 512" "length bb = 512" "length T = 2048" "length dir = 512"
    using len by (simp_all add: ib_def bb_def T_def dir_def m16_bits.length_set m16_new_dir_def)
  obtain tx1 where tx1: "\<And>k. prog_bind (prog_lift (m16_tx_add m16_tx_zero M16_INODE_BITMAP_LBA ib)) (\<lambda>tx.
      prog_bind (prog_lift (m16_tx_add tx M16_BLOCK_BITMAP_LBA bb)) (\<lambda>tx.
      prog_bind (prog_lift (m16_store_inode_table tx T)) k)) = (k tx1 :: unit m16_prog)" "tx_ok tx1"
    "tx_effect tx1 = [18 \<mapsto> ib, 19 \<mapsto> bb, 20 \<mapsto> slice 0 512 T, 21 \<mapsto> slice 512 512 T,
      22 \<mapsto> slice 1024 512 T, 23 \<mapsto> slice 1536 512 T]"
    using alloc_tx [OF lens(1-3)] by blast
  obtain tx2 where tx2: "\<And>k. prog_bind (prog_lift (m16_tx_add m16_tx_zero M16_ROOT_DIR_LBA dir)) (\<lambda>tx.
      prog_bind (prog_lift (m16_tx_add tx (of_nat db) (data_block_of data sz))) k) = (k tx2 :: unit m16_prog)"
    "tx_ok tx2" "tx_effect tx2 = [24 \<mapsto> dir, db \<mapsto> data_block_of data sz]"
    using name_tx [OF lens(4) length_data_block [of data sz], of db] free(2) by (auto simp: free_block_def)
  have "super_ok m"
    using assms(2) by (simp add: fs_ok_def)
  then have "m16_write_body name data sz stop dev =
      prog_bind (m16_journal_commit tx1 (sb_clean_generation (m16_super_of (the (m 0))) + 1) False)
        (\<lambda>_. m16_journal_commit tx2 (sb_clean_generation (m16_super_of (the (m 0))) + 2) stop) dev"
    using settled_mount [OF assms(1)] settled_inodes [OF assms(1)] settled_blocks [OF assms(1)] name sz
    by (simp add: m16_write_body_def Let_def M16_MAX_NAME_def M16_BLOCK_SIZE_def prog_fail_if_def prog_bind_Inr
        absent found tx1(1) tx2(1) ib_def [symmetric] bb_def [symmetric] T_def [symmetric] dir_def [symmetric]
        data_block_of_def [symmetric])
  moreover have "m ++ tx_effect tx1 = alloc_content m ino db sz"
    by (simp add: tx1(3) alloc_content_def Let_def ib_def bb_def T_def)
  moreover have "alloc_content m ino db sz ++ tx_effect tx2 =
      named_content (alloc_content m ino db sz) ino db slot name (data_block_of data sz)"
    using alloc_view(4) [OF wf free(1,2), where sz = sz] by (simp add: tx2(3) named_content_def dir_def)
  ultimately show ?thesis
    using tx1(2) tx2(2) free by blast
qed

lemma commit_complete:
  assumes "m16_dev_ok dev" and "tx_ok tx" and "fst (m16_journal_commit tx seq False dev) = Inr ()"
  shows "settled (snd (m16_journal_commit tx seq False dev)) (home (m16_blocks dev) ++ tx_effect tx)"
proof -
  let ?pre = "clear_write # journal_writes tx @ header_write tx seq # home_writes tx"
  let ?d = "snd (m16_journal_commit tx seq False dev)"
  note run = commit_run [OF assms(1,2), where seq = seq and stop = False, simplified]
  have acc: "accepted dev (length (?pre @ [clear_write])) = length (?pre @ [clear_write])"
    using run(1) assms(3) by (simp split: if_splits)
  then have "m16_blocks ?d = apply_writes (?pre @ [clear_write]) (m16_blocks dev)"
    using run(1) by simp
  then have empty: "journal_empty (m16_blocks ?d)"
    using cleared_empty [OF dev_ok_length [OF assms(1)], of ?pre] by simp
  have "\<not> fails_early dev tx"
    using acc run(3) by (simp add: length_journal_writes split: if_splits)
  then have "durable (home (m16_blocks dev) ++ tx_effect tx) ?d"
    using assms(1,2) by (intro commit_late)
  moreover have "\<not> committed tx' seq' (m16_blocks ?d)" for tx' seq'
    using empty header_of_write [of tx' seq']
    by (auto simp: committed_def journal_empty_def m16_make_header_def Let_def M16_JMAGIC_def)
  ultimately show ?thesis
    using empty by (auto simp: durable_def settled_def)
qed

lemma commit_powered:
  assumes "m16_dev_ok dev" and "tx_ok tx" and "m16_fail_after dev < 0"
  shows "fst (m16_journal_commit tx seq stop dev) = Inr ()"
    and "m16_fail_after (snd (m16_journal_commit tx seq stop dev)) < 0"
  using commit_run(1) [OF assms(1,2), where seq = seq and stop = stop] assms(3)
  by (simp_all add: accepted_def after_writes_def)

lemma commit_status:
  assumes "m16_dev_ok dev" and "tx_ok tx"
  shows "fst (m16_journal_commit tx seq stop dev) = Inr () \<or> fst (m16_journal_commit tx seq stop dev) = Inl M16_E_IO"
  using commit_run(1) [OF assms, where seq = seq and stop = stop] by simp

text \<open>
  Where a write that passed its tests can end, whenever the power fails: nothing was done, the inode
  and the block are allocated but the file has no name, or the file is complete.
\<close>

lemma write_outcome:
  fixes stop :: bool
  assumes "settled dev m" and "fs_ok m" and "write_error m name sz = None" and "unat sz \<le> length data"
  defines "r \<equiv> m16_write_body name data sz stop dev"
  shows "\<exists>m'. durable m' (snd r) \<and> home_wf m' \<and> fs_ok m' \<and>
    (\<forall>nm. c_name nm \<noteq> c_name name \<longrightarrow> m16_file m' nm = m16_file m nm) \<and>
    (m16_file m' name = None \<or> m16_file m' name = Some (take (unat sz) data)) \<and>
    (fst r = Inr () \<and> m16_file m' name = Some (take (unat sz) data) \<or> fst r = Inl M16_E_IO) \<and>
    (m16_fail_after dev < 0 \<longrightarrow> fst r = Inr ())"
proof -
  obtain tx1 tx2 ino db slot where
    r: "r = prog_bind (m16_journal_commit tx1 (sb_clean_generation (m16_super_of (the (m 0))) + 1) False)
        (\<lambda>_. m16_journal_commit tx2 (sb_clean_generation (m16_super_of (the (m 0))) + 2) stop) dev"
      (is "_ = prog_bind ?c1 (\<lambda>_. ?c2) dev")
    and tx: "tx_ok tx1" "m ++ tx_effect tx1 = alloc_content m ino db sz"
      "tx_ok tx2" "alloc_content m ino db sz ++ tx_effect tx2 =
        named_content (alloc_content m ino db sz) ino db slot name (data_block_of data sz)"
    and free: "free_inode m ino" "free_block m db" "slot < 12" "de_used (m16_dirent_at (v_dir m) slot) = 0"
    using write_accepted [OF assms(1-3), of data stop] unfolding r_def by blast
  define m1 where "m1 = alloc_content m ino db sz"
  define m2 where "m2 = named_content m1 ino db slot name (data_block_of data sz)"
  have name: "m16_strlen_bounded name 32 < 32" and sz: "unat sz \<le> 512"
    using assms(3) by (auto simp: write_error_def split: if_splits)
  obtain e where absent: "m16_find_dirent (v_dir m) name = Inl e"
    using assms(3) by (cases "m16_find_dirent (v_dir m) name") (auto simp: write_error_def split: if_splits)
  note wf = settled_wf [OF assms(1)]
  have ok: "m16_dev_ok dev" "journal_empty (m16_blocks dev)" "home (m16_blocks dev) = m"
    using assms(1) by (simp_all add: settled_def)
  have ready: "ready_content m1 ino db slot (unat sz)"
    unfolding m1_def using wf assms(2) free sz by (intro alloc_ready)
  have f0: "m16_file m name = None"
    using absent by (simp add: m16_file_def)
  have f1: "home_wf m1" "fs_ok m1" "\<And>nm. m16_file m1 nm = m16_file m nm"
    using ready alloc_file [OF wf assms(2) free(1,2)] by (simp_all add: ready_content_def m1_def)
  have dir1: "m16_find_dirent (v_dir m1) name = Inl e"
    using absent alloc_view(4) [OF wf free(1,2)] by (simp add: m1_def)
  have f2: "home_wf m2" "fs_ok m2" "m16_file m2 name = Some (take (unat sz) data)"
    "\<And>nm. c_name nm \<noteq> c_name name \<Longrightarrow> m16_file m2 nm = m16_file m nm"
  proof -
    show "home_wf m2"
      unfolding m2_def using named_view(5) [OF f1(1), of db "data_block_of data sz"] free(2)
      by (simp add: free_block_def)
    show "fs_ok m2"
      unfolding m2_def by (rule named_fs_ok [OF ready]) simp
    show "m16_file m2 name = Some (take (unat sz) data)"
      unfolding m2_def using named_file_new [OF ready _ dir1 name] take_data_block [OF sz assms(4)] by simp
    show "m16_file m2 nm = m16_file m nm" if "c_name nm \<noteq> c_name name" for nm
      unfolding m2_def using named_file_other [OF ready _ name that] f1(3) by simp
  qed
  show ?thesis
  proof (cases "fails_early dev tx1")
    case True
    from commit_early [OF ok(1,2) tx(1) True, of "sb_clean_generation (m16_super_of (the (m 0))) + 1" False]
    obtain d where "?c1 dev = (Inl M16_E_IO, d)" "durable m d"
      unfolding ok(3) by blast
    then show ?thesis
      using True wf assms(2) f0 by (intro exI [of _ m]) (simp add: r prog_bind_Inl fails_early_def)
  next
    case False
    then have d1: "durable m1 (snd (?c1 dev))"
      using commit_late [OF ok(1) tx(1) False] tx(2) ok(3) by (simp add: m1_def)
    show ?thesis
    proof (cases "fst (?c1 dev)")
      case (Inl e')
      then have "r = (Inl e', snd (?c1 dev))"
        unfolding r by (intro prog_bind_Inl) (metis prod.collapse)
      moreover have "\<not> m16_fail_after dev < 0"
        using Inl commit_powered(1) [OF ok(1) tx(1), of "sb_clean_generation (m16_super_of (the (m 0))) + 1" False]
        by auto
      moreover have "e' = M16_E_IO"
        using Inl commit_status [OF ok(1) tx(1), of "sb_clean_generation (m16_super_of (the (m 0))) + 1" False]
        by simp
      ultimately show ?thesis
        using d1 f0 f1 by (intro exI [of _ m1]) simp
    next
      case (Inr u)
      let ?d = "snd (?c1 dev)"
      have r': "r = ?c2 ?d"
        unfolding r using prog_bind_Inr [of ?c1 dev u ?d "\<lambda>_. ?c2"] Inr by (simp add: prod_eq_iff)
      have s: "settled ?d m1"
        using commit_complete [OF ok(1) tx(1)] Inr tx(2) ok(3) by (simp add: m1_def)
      then have ok1: "m16_dev_ok ?d" "journal_empty (m16_blocks ?d)" "home (m16_blocks ?d) = m1"
        by (simp_all add: settled_def)
      have pow: "fst r = Inr ()" if "m16_fail_after dev < 0"
        unfolding r' using commit_powered(2) [OF ok(1) tx(1) that]
        by (intro commit_powered(1) [OF ok1(1) tx(3)])
      show ?thesis
      proof (cases "fails_early ?d tx2")
        case True
        from commit_early [OF ok1(1,2) tx(3) True, of "sb_clean_generation (m16_super_of (the (m 0))) + 2" stop]
        obtain d where "r = (Inl M16_E_IO, d)" "durable m1 d"
          unfolding ok1(3) r' by blast
        then show ?thesis
          using f0 f1 pow by (intro exI [of _ m1]) auto
      next
        case False
        then have "durable m2 (snd r)"
          using commit_late [OF ok1(1) tx(3) False] tx(4) ok1(3) by (simp add: m1_def m2_def r')
        moreover have "fst r = Inr () \<or> fst r = Inl M16_E_IO"
          unfolding r' by (rule commit_status [OF ok1(1) tx(3)])
        ultimately show ?thesis
          using f2 pow by (intro exI [of _ m2]) blast
      qed
    qed
  qed
qed

section \<open>Properties\<close>

text \<open>What a caller of \<^verbatim>\<open>m16_read_file\<close> sees: status, buffer and size.\<close>

definition read_result :: "m16_blockdev \<Rightarrow> bytes \<Rightarrow> bytes \<Rightarrow> u32 \<Rightarrow> m16_status \<times> (bytes \<times> u32) option" where
  "read_result dev name out out_cap =
    (let r = m16_read_file (Some dev) (Some name) (Some out) out_cap True in (fst r, fst (snd r)))"

definition content_result :: "bytes option \<Rightarrow> bytes \<Rightarrow> u32 \<Rightarrow> m16_status \<times> (bytes \<times> u32) option" where
  "content_result c out out_cap = (case c of None \<Rightarrow> (M16_E_NOENT, None)
     | Some c \<Rightarrow> if length c > unat out_cap then (M16_E_INVAL, None)
        else (M16_E_OK, Some (c @ drop (length c) out, of_nat (length c))))"

lemma read_result_content:
  assumes "settled dev m" and "fs_ok m" and "unat out_cap \<le> length out"
  shows "read_result dev name out out_cap = content_result (m16_file m name) out out_cap"
  using settled_read_file [OF assms, of name]
  by (auto simp: read_result_def content_result_def m16_read_file_def Let_def split: option.splits)

lemma fsck_ok_iff:
  assumes "m16_dev_ok dev" and "journal_empty (m16_blocks dev)"
  shows "fst (m16_fsck (Some dev)) = M16_E_OK \<longleftrightarrow> fs_ok (home (m16_blocks dev))"
  using settled_fsck [of dev "home (m16_blocks dev)"] assms by (simp add: settled_def m16_fsck_def entry_run)

lemma write_file_ex_run:
  "m16_write_file_ex (Some dev) (Some name) (Some data) sz stop =
    (case fst (m16_write_body name data sz stop dev) of Inl e \<Rightarrow> e | Inr _ \<Rightarrow> M16_E_OK,
     Some (snd (m16_write_body name data sz stop dev)))"
  by (simp add: m16_write_file_ex_def entry_run)

lemma write_powered:
  assumes "settled dev m" and "fs_ok m" and "write_error m name sz = None" and "m16_fail_after dev < 0"
  shows "m16_fail_after (snd (m16_write_body name data sz stop dev)) < 0"
proof -
  obtain tx1 tx2 seq1 seq2 where
    r: "m16_write_body name data sz stop dev =
        prog_bind (m16_journal_commit tx1 seq1 False) (\<lambda>_. m16_journal_commit tx2 seq2 stop) dev"
    and tx: "tx_ok tx1" "tx_ok tx2"
    using write_accepted [OF assms(1-3), of data stop] by blast
  let ?c = "m16_journal_commit tx1 seq1 False dev"
  have ok: "m16_dev_ok dev"
    using assms(1) by (simp add: settled_def)
  have c: "fst ?c = Inr ()" "m16_fail_after (snd ?c) < 0"
    using commit_powered [OF ok tx(1) assms(4)] by simp_all
  have "m16_dev_ok (snd ?c)"
    using commit_complete [OF ok tx(1) c(1)] by (simp add: settled_def)
  moreover have "m16_write_body name data sz stop dev = m16_journal_commit tx2 seq2 stop (snd ?c)"
    unfolding r using prog_bind_Inr [of "m16_journal_commit tx1 seq1 False" dev "()" "snd ?c"] c(1)
    by (simp add: prod_eq_iff)
  ultimately show ?thesis
    using commit_powered(2) [OF _ tx(2) c(2)] by simp
qed

lemma mount_recovers:
  assumes "durable m dev" and "m16_fail_after dev < 0"
  shows "\<exists>d. settled d m \<and> m16_fail_after d < 0 \<and> m16_mount_body dev = m16_mount_body d"
proof -
  obtain d where d: "m16_recover_body dev = (Inr (), d)" "settled d m" "m16_fail_after d < 0"
    using recover_durable [OF assms(1)] assms(2)
    by (cases "m16_recover_body dev") (auto simp: settled_def durable_def)
  then have "m16_recover_body d = (Inr (), d)"
    by (intro recover_empty) (simp_all add: settled_def)
  then have "m16_mount_body dev = m16_mount_body d"
    using d(1) by (simp add: m16_mount_body_def prog_bind_Inr)
  with d show ?thesis
    by blast
qed

lemma durable_read_result:
  assumes "durable m dev" and "m16_fail_after dev < 0" and "fs_ok m" and "unat out_cap \<le> length out"
  shows "read_result dev name out out_cap = content_result (m16_file m name) out out_cap"
proof -
  obtain d where d: "settled d m" "m16_mount_body dev = m16_mount_body d"
    using mount_recovers [OF assms(1,2)] by blast
  then have "m16_read_body name out out_cap dev = m16_read_body name out out_cap d"
    by (simp add: m16_read_body_def prog_bind_def)
  then have "read_result dev name out out_cap = read_result d name out out_cap"
    by (simp add: read_result_def m16_read_file_def)
  then show ?thesis
    using read_result_content [OF d(1) assms(3,4)] by simp
qed

lemma durable_fsck:
  assumes "durable m dev" and "m16_fail_after dev < 0"
  shows "fst (m16_fsck (Some dev)) = M16_E_OK \<longleftrightarrow> fs_ok m"
proof -
  obtain d where d: "settled d m" "m16_mount_body dev = m16_mount_body d"
    using mount_recovers [OF assms(1,2)] by blast
  then have "m16_fsck_body dev = m16_fsck_body d"
    by (simp add: m16_fsck_body_def prog_bind_def)
  then show ?thesis
    using settled_fsck [OF d(1)] by (simp add: m16_fsck_def entry_run)
qed

section \<open>Formatting\<close>

lemma copy_loop_take: "copy_loop dst 0 (take n src) 0 n = copy_loop dst 0 src 0 n"
  unfolding copy_loop_def by (rule fold_cong) simp_all

lemma write_block_take: "m16_write_block lba (take 512 data) = m16_write_block lba data"
  by (rule ext) (simp add: m16_write_block_def m16_copy_def m16_consts copy_loop_take)

definition format_ib :: bytes where
  "format_ib = m16_bitmap_set (m16_zero 512) 0"

definition format_bb :: bytes where
  "format_bb = fold (\<lambda>i bm. m16_bitmap_set bm (of_nat i)) [0..<25] (m16_zero 512)"

definition format_writes :: "m16_blockdev \<Rightarrow> (u32 \<times> bytes) list" where
  "format_writes dev = [(0, m16_super_bytes (m16_format_super dev)), (18, format_ib), (19, format_bb),
     (20, slice 0 512 m16_format_inodes), (21, slice 512 512 m16_format_inodes),
     (22, slice 1024 512 m16_format_inodes), (23, slice 1536 512 m16_format_inodes),
     (24, replicate 512 0), (1, replicate 512 0)]"

definition format_blank :: "m16_blockdev \<Rightarrow> m16_blockdev" where
  "format_blank dev = dev\<lparr>m16_blocks := replicate 128 (replicate 512 0)\<rparr>"

lemma format_run: "m16_format_body dev = run_writes (format_writes dev) (format_blank dev)"
proof -
  have sup: "m16_format_super (format_blank dev) = m16_format_super dev"
    by (simp add: m16_format_super_def format_blank_def)
  have drops: "m16_write_block lba (drop off m16_format_inodes) = m16_write_block lba (slice off 512 m16_format_inodes)" for lba off
    using write_block_take [of lba "drop off m16_format_inodes"] by (simp add: slice_def)
  have rd: "[0..<4] = [0, 1, 2, 3 :: nat]"
    by (simp add: upt_conv_Cons)
  have "m16_format_body dev =
    prog_bind (m16_write_block 0 (m16_super_bytes (m16_format_super dev))) (\<lambda>_.
    prog_bind (m16_write_block 18 format_ib) (\<lambda>_.
    prog_bind (m16_write_block 19 format_bb) (\<lambda>_.
    prog_bind (prog_for [0..<4] (\<lambda>i. m16_write_block (20 + of_nat i) (drop (i * 512) m16_format_inodes))) (\<lambda>_.
    prog_bind (m16_write_block 24 (replicate 512 0)) (\<lambda>_. m16_write_block 1 (replicate 512 0)))))) (format_blank dev)"
    unfolding m16_format_body_def m16_journal_clear_def
    by (simp add: prog_bind_Inr [OF prog_modify_run] prog_bind_Inr [OF prog_get_run] m16_consts m16_zero_def
        format_ib_def format_bb_def Let_def format_blank_def [symmetric] sup del: upt_rec_numeral)
  then show ?thesis
    by (simp add: run_writes_def format_writes_def rd drops prog_bind_assoc)
qed

lemma length_format_bb [simp]: "length format_bb = 512"
  using m16_bits.length_fold_set [of "map of_nat [0..<25]" "m16_zero 512"]
  by (simp add: format_bb_def fold_map comp_def m16_zero_def del: upt_rec_numeral)

lemma length_format_inodes: "length m16_format_inodes = 2048"
  by (simp add: m16_format_inodes_def Let_def m16_zero_def)

lemma format_writes_ok:
  assumes "w \<in> set (format_writes dev)"
  shows "write_ok w"
proof -
  have "length (m16_super_bytes (m16_format_super dev)) = 512"
    by (rule super_bytes.length_encode) (simp add: m16_format_super_def)
  moreover have "length format_ib = 512"
    by (simp add: format_ib_def m16_bits.length_set m16_zero_def)
  ultimately show ?thesis
    using assms length_format_inodes by (auto simp: format_writes_def write_ok_def)
qed

lemma bits_format_bb: "bits format_bb = {0..<25}"
proof -
  have ix: "unat (of_nat i :: u32) = i" if "i < 25" for i
    using that by (intro unat_of_nat_small) simp
  then have "unat ` (of_nat :: nat \<Rightarrow> u32) ` {0..<25} = {0..<25}"
    by (force simp: image_image)
  moreover have "unat i < 8 * length (m16_zero 512)" if "i \<in> set (map (of_nat :: nat \<Rightarrow> u32) [0..<25])" for i
    using that ix by (auto simp: m16_zero_def simp del: upt_rec_numeral)
  ultimately show ?thesis
    using m16_bits.bits_fold_set [of "map of_nat [0..<25]" "m16_zero 512"]
    by (simp add: format_bb_def fold_map comp_def m16_zero_def del: upt_rec_numeral)
qed

lemma dirent_blank: "i < 12 \<Longrightarrow> de_used (m16_dirent_at (replicate 512 0) i) = 0"
  by (simp add: struct_at_def slice_def m16_dirent_of_def layout)

lemma format_settled:
  assumes "m16_total_blocks dev = 128" and "m16_fail_after dev < 0"
  shows "\<exists>d. m16_format (Some dev) = (M16_E_OK, Some d) \<and> settled d (home (m16_blocks d)) \<and> m16_fail_after d < 0 \<and>
    fs_ok (home (m16_blocks d)) \<and> v_dir (home (m16_blocks d)) = replicate 512 0 \<and>
    v_ib (home (m16_blocks d)) = format_ib \<and> v_bb (home (m16_blocks d)) = format_bb"
proof -
  let ?b = "format_blank dev" and ?ws = "format_writes dev"
  define d where "d = after_writes (length ?ws) ?ws ?b"
  define m where "m = home (m16_blocks d)"
  have ok: "m16_dev_ok ?b"
    using assms(1) by (simp add: m16_dev_ok_def format_blank_def)
  have fa: "m16_fail_after ?b < 0"
    using assms(2) by (simp add: format_blank_def)
  have run: "m16_format_body dev = (Inr (), d)"
    using run_writes_run [OF ok, of ?ws] format_writes_ok fa by (auto simp: format_run accepted_def d_def)
  have blocks: "m16_blocks d = apply_writes ?ws (replicate 128 (replicate 512 0))"
    by (simp add: d_def format_blank_def)
  have v: "m 0 = Some (m16_super_bytes (m16_format_super dev))" "m 18 = Some format_ib" "m 19 = Some format_bb"
    "m 20 = Some (slice 0 512 m16_format_inodes)" "m 21 = Some (slice 512 512 m16_format_inodes)"
    "m 22 = Some (slice 1024 512 m16_format_inodes)" "m 23 = Some (slice 1536 512 m16_format_inodes)"
    "m 24 = Some (replicate 512 0)" "m16_blocks d ! 1 = replicate 512 0"
    unfolding m_def blocks by (simp_all add: home_def home_ix_def apply_writes_def format_writes_def)
  have sb: "m16_super_of (m16_super_bytes (m16_format_super dev)) = m16_format_super dev"
    by (rule super_bytes.decode_encode) (simp add: m16_format_super_def)
  have T: "v_inodes m = m16_format_inodes"
    using slices_join [of m16_format_inodes] length_format_inodes by (simp add: v_inodes_def v)
  have root: "m16_inode_at m16_format_inodes 0 = (m16_inode_at (m16_zero 2048) 0)
      \<lparr>ino_used := 1, ino_kind := 2, ino_size := 0,
       ino_direct := (ino_direct (m16_inode_at (m16_zero 2048) 0))[0 := 24]\<rparr>"
    using inode_bytes.at_ok [of "m16_zero 2048" 0]
    by (simp add: m16_format_inodes_def Let_def m16_consts inode_bytes.at_put_same m16_zero_def)
  have "length (ino_direct (m16_inode_at (m16_zero 2048) 0)) = 4"
    using inode_bytes.at_ok by blast
  moreover have "0 \<in> bits format_ib"
    using m16_bits.bits_set [of 0 "m16_zero 512"] by (simp add: format_ib_def m16_zero_def)
  ultimately have "fs_ok m"
    by (simp add: fs_ok_def super_ok_def entry_ok_def v sb T root bits_format_bb dirent_blank)
      (simp add: m16_format_super_def m16_consts)
  moreover have "settled d m"
    using after_writes_ok [OF ok] format_writes_ok v(9)
    by (simp add: settled_def m_def d_def journal_empty_def m16_journal_header_of_def layout)
  moreover have "m16_format (Some dev) = (M16_E_OK, Some d)"
    by (simp add: m16_format_def entry_run run)
  moreover have "m16_fail_after d < 0"
    using fa by (simp add: d_def after_writes_def)
  ultimately show ?thesis
    using v(2,3,8) by (intro exI [of _ d]) (simp add: m_def)
qed

lemma find_dirent_blank: "m16_find_dirent (replicate 512 0) name = Inl M16_E_NOENT"
proof -
  have "find (\<lambda>i. de_used (m16_dirent_at (replicate 512 0) i) \<noteq> 0 \<and>
      m16_streq (de_name (m16_dirent_at (replicate 512 0) i)) name) [0..<12] = None"
    unfolding find_upt_None by (simp add: dirent_blank)
  then show ?thesis
    by (simp add: m16_find_dirent_def m16_dir_count_def m16_consts)
qed

lemma find_dirent_free_blank: "m16_find_free_dirent (replicate 512 0) = Inr 0"
  by (simp add: m16_find_free_dirent_def m16_dir_count_def m16_consts dirent_blank find_upt_Some
      [THEN iffD2, of 0 0 12])

lemma find_format_inode: "m16_find_free_inode format_ib = Inr 1"
proof -
  have "length format_ib = 512" "bits format_ib = {0}"
    using m16_bits.bits_set [of 0 "m16_zero 512"] by (simp_all add: format_ib_def m16_bits.length_set m16_zero_def)
  then have "find (\<lambda>i. \<not> m16_bitmap_get format_ib (of_nat i)) [1..<16] = Some 1"
    unfolding find_upt_Some using test_bit [of format_ib 1] by simp
  then show ?thesis
    by (simp add: m16_find_free_inode_def m16_consts)
qed

lemma find_format_block: "m16_find_free_block format_bb = Inr 25"
proof -
  have "find (\<lambda>i. \<not> m16_bitmap_get format_bb (of_nat i)) [25..<128] = Some 25"
    unfolding find_upt_Some using test_bit [of format_bb 25] by (auto simp: bits_format_bb)
  then show ?thesis
    by (simp add: m16_find_free_block_def m16_consts del: upt_rec_numeral)
qed

text \<open>
  Property C2. Writing a file is crash safe. Take a device that \<^verbatim>\<open>m16_fsck\<close> accepts, call
  \<^verbatim>\<open>m16_write_file_ex\<close> with the power failing after any number of block writes, and let recovery be
  interrupted any number of times. When recovery at last runs undisturbed it succeeds, \<^verbatim>\<open>m16_fsck\<close>
  accepts the device, every other file reads exactly as before, and the file itself either reads as
  before or reads as the data written, nothing in between. When the write returned OK, it is the data.
\<close>

theorem m16_write_crash_safe:
  assumes "m16_dev_ok dev" and "journal_empty (m16_blocks dev)" and "fst (m16_fsck (Some dev)) = M16_E_OK"
    and "unat sz \<le> length data"
    and "m16_write_file_ex (Some dev) (Some name) (Some data) sz stop = (rc, Some dev')"
  shows "\<exists>d. m16_journal_recover (Some ((m16_reboots ks dev')\<lparr>m16_fail_after := -1\<rparr>)) = (M16_E_OK, Some d) \<and>
    fst (m16_fsck (Some d)) = M16_E_OK \<and>
    (\<forall>nm out cap. unat cap \<le> length out \<longrightarrow> c_name nm \<noteq> c_name name \<longrightarrow>
       read_result d nm out cap = read_result dev nm out cap) \<and>
    ((\<forall>out cap. unat cap \<le> length out \<longrightarrow> read_result d name out cap = read_result dev name out cap) \<and> rc \<noteq> M16_E_OK \<or>
     (\<forall>out cap. unat cap \<le> length out \<longrightarrow>
        read_result d name out cap = content_result (Some (take (unat sz) data)) out cap))"
proof -
  define m where "m = home (m16_blocks dev)"
  have s: "settled dev m" and fs: "fs_ok m"
    using assms(1-3) fsck_ok_iff by (simp_all add: settled_def m_def)
  define r where "r = m16_write_body name data sz stop dev"
  have rc: "rc = (case fst r of Inl e \<Rightarrow> e | Inr _ \<Rightarrow> M16_E_OK)" "dev' = snd r"
    using assms(5) by (simp_all add: write_file_ex_run r_def)
  have "\<exists>m'. durable m' (snd r) \<and> fs_ok m' \<and>
    (\<forall>nm. c_name nm \<noteq> c_name name \<longrightarrow> m16_file m' nm = m16_file m nm) \<and>
    (m16_file m' name = m16_file m name \<and> rc \<noteq> M16_E_OK \<or> m16_file m' name = Some (take (unat sz) data))"
  proof (cases "write_error m name sz")
    case None
    have "m16_file m name = None"
      using None by (auto simp: write_error_def m16_file_def split: if_splits sum.splits)
    moreover have "rc \<noteq> M16_E_OK" if "fst r = Inl M16_E_IO"
      using that rc(1) by simp
    ultimately show ?thesis
      using write_outcome [OF s fs None assms(4), of stop] unfolding r_def [symmetric] by metis
  next
    case (Some e)
    have "r = (Inl e, dev)"
      unfolding r_def using s fs Some by (rule write_refused)
    moreover have "e \<noteq> M16_E_OK"
      using Some by (auto simp: write_error_def split: if_splits)
    ultimately show ?thesis
      using rc s fs by (intro exI [of _ m]) (simp add: durable_def settled_def)
  qed
  then obtain m' where m': "durable m' dev'" "fs_ok m'"
    "\<And>nm. c_name nm \<noteq> c_name name \<Longrightarrow> m16_file m' nm = m16_file m nm"
    "m16_file m' name = m16_file m name \<and> rc \<noteq> M16_E_OK \<or> m16_file m' name = Some (take (unat sz) data)"
    unfolding rc(2) by blast
  obtain d where d: "m16_journal_recover (Some ((m16_reboots ks dev')\<lparr>m16_fail_after := -1\<rparr>)) = (M16_E_OK, Some d)"
    "m16_dev_ok d" "journal_empty (m16_blocks d)" "home (m16_blocks d) = m'"
    using recover_settles [OF m'(1)] by blast
  then have s': "settled d m'"
    by (simp add: settled_def)
  have "fst (m16_fsck (Some d)) = M16_E_OK"
    using fsck_ok_iff [OF d(2,3)] d(4) m'(2) by simp
  then show ?thesis
    using d(1) m'(3,4) read_result_content [OF s' m'(2)] read_result_content [OF s fs]
    by (intro exI [of _ d]) auto
qed

text \<open>A formatted device, whose power may fail.\<close>

definition m16_sample_fs :: "int \<Rightarrow> m16_blockdev" where
  "m16_sample_fs k = (the (snd (m16_format (m16_dev_init (Some m16_sample_dev)))))\<lparr>m16_fail_after := k\<rparr>"

lemma sample_fs:
  "m16_dev_ok (m16_sample_fs k)" "journal_empty (m16_blocks (m16_sample_fs k))"
  "fst (m16_fsck (Some (m16_sample_fs k))) = M16_E_OK" "m16_fail_after (m16_sample_fs k) = k"
  "v_dir (home (m16_blocks (m16_sample_fs k))) = replicate 512 0"
  "v_ib (home (m16_blocks (m16_sample_fs k))) = format_ib" "v_bb (home (m16_blocks (m16_sample_fs k))) = format_bb"
proof -
  let ?blank = "the (m16_dev_init (Some m16_sample_dev))"
  have "m16_total_blocks ?blank = 128" "m16_fail_after ?blank < 0"
    by (simp_all add: m16_dev_init_def m16_consts)
  then obtain d where "m16_format (Some ?blank) = (M16_E_OK, Some d)" "settled d (home (m16_blocks d))"
    "fs_ok (home (m16_blocks d))" "v_dir (home (m16_blocks d)) = replicate 512 0"
    "v_ib (home (m16_blocks d)) = format_ib" "v_bb (home (m16_blocks d)) = format_bb"
    using format_settled by blast
  then have d: "m16_sample_fs k = d\<lparr>m16_fail_after := k\<rparr>" "settled (m16_sample_fs k) (home (m16_blocks d))"
    "fs_ok (home (m16_blocks d))" "v_dir (home (m16_blocks d)) = replicate 512 0"
    "v_ib (home (m16_blocks d)) = format_ib" "v_bb (home (m16_blocks d)) = format_bb"
    by (simp_all add: m16_sample_fs_def m16_dev_init_def settled_def)
  then show "m16_dev_ok (m16_sample_fs k)" "journal_empty (m16_blocks (m16_sample_fs k))"
    "m16_fail_after (m16_sample_fs k) = k" "v_dir (home (m16_blocks (m16_sample_fs k))) = replicate 512 0"
    "v_ib (home (m16_blocks (m16_sample_fs k))) = format_ib" "v_bb (home (m16_blocks (m16_sample_fs k))) = format_bb"
    by (simp_all add: settled_def)
  then show "fst (m16_fsck (Some (m16_sample_fs k))) = M16_E_OK"
    using d by (subst fsck_ok_iff) simp_all
qed

theorem m16_write_crash_safe_witness:
  "\<exists>d. m16_journal_recover (Some ((m16_reboots [1] (the (snd (m16_write_file_ex (Some (m16_sample_fs 20))
      (Some [104, 105]) (Some [1, 2, 3]) 3 False))))\<lparr>m16_fail_after := -1\<rparr>)) = (M16_E_OK, Some d) \<and>
    fst (m16_fsck (Some d)) = M16_E_OK"
  using m16_write_crash_safe [OF sample_fs(1-3), of 3 "[1, 2, 3]" 20 "[104, 105]" False _ _ "[1]"]
  by (auto simp: write_file_ex_run)

text \<open>
  Property C14. With the power on, a write on a device that \<^verbatim>\<open>m16_fsck\<close> accepts is refused, changing
  nothing, exactly for a name that is empty or too long, data of more than one block, a name that exists,
  or when no inode, block or directory entry is free; otherwise it returns OK, the file reads back as
  the data, every other file reads as before, and \<^verbatim>\<open>m16_fsck\<close> still accepts the device.
\<close>

theorem m16_write_read:
  assumes "m16_dev_ok dev" and "journal_empty (m16_blocks dev)" and "fst (m16_fsck (Some dev)) = M16_E_OK"
    and "m16_fail_after dev < 0" and "unat sz \<le> length data"
  shows "case write_error (home (m16_blocks dev)) name sz of
      Some e \<Rightarrow> m16_write_file (Some dev) (Some name) (Some data) sz = (e, Some dev)
    | None \<Rightarrow> (\<exists>d. m16_write_file (Some dev) (Some name) (Some data) sz = (M16_E_OK, Some d) \<and>
        fst (m16_fsck (Some d)) = M16_E_OK \<and>
        (\<forall>nm out cap. unat cap \<le> length out \<longrightarrow> read_result d nm out cap =
          (if c_name nm = c_name name then content_result (Some (take (unat sz) data)) out cap
           else read_result dev nm out cap)))"
proof -
  define m where "m = home (m16_blocks dev)"
  have s: "settled dev m" and fs: "fs_ok m"
    using assms(1-3) fsck_ok_iff by (simp_all add: settled_def m_def)
  show ?thesis
  proof (cases "write_error m name sz")
    case None
    obtain m' where m': "durable m' (snd (m16_write_body name data sz False dev))" "fs_ok m'"
      "\<And>nm. c_name nm \<noteq> c_name name \<Longrightarrow> m16_file m' nm = m16_file m nm"
      "m16_file m' name = Some (take (unat sz) data)" "fst (m16_write_body name data sz False dev) = Inr ()"
      using write_outcome [OF s fs None assms(5), of False] assms(4) by auto
    let ?d = "snd (m16_write_body name data sz False dev)"
    have pow: "m16_fail_after ?d < 0"
      using write_powered [OF s fs None assms(4)] .
    have same: "m16_file m' nm = m16_file m' name" if "c_name nm = c_name name" for nm
      using that by (simp add: m16_file_def m16_find_dirent_def streq_iff)
    have "read_result ?d nm out cap = (if c_name nm = c_name name
        then content_result (Some (take (unat sz) data)) out cap else read_result dev nm out cap)"
      if "unat cap \<le> length out" for nm out cap
      using durable_read_result [OF m'(1) pow m'(2) that, of nm] read_result_content [OF s fs that, of nm]
        m'(3,4) same [of nm] by simp
    moreover have "fst (m16_fsck (Some ?d)) = M16_E_OK"
      using durable_fsck [OF m'(1) pow] m'(2) by simp
    ultimately show ?thesis
      using None m'(5) by (simp add: m_def m16_write_file_def write_file_ex_run)
  next
    case (Some e)
    then show ?thesis
      using write_refused [OF s fs Some, of data False] by (simp add: m_def m16_write_file_def write_file_ex_run)
  qed
qed

text \<open>
  Property C36. Formatting a device of 128 blocks succeeds, and the result is an empty file system that
  \<^verbatim>\<open>m16_fsck\<close> accepts: every name is reported missing.
\<close>

theorem m16_format_fsck:
  assumes "m16_total_blocks dev = 128" and "m16_fail_after dev < 0"
  shows "\<exists>d. m16_format (Some dev) = (M16_E_OK, Some d) \<and> m16_fsck (Some d) = (M16_E_OK, Some d) \<and>
    m16_dev_ok d \<and> journal_empty (m16_blocks d) \<and>
    (\<forall>name out cap. unat cap \<le> length out \<longrightarrow> read_result d name out cap = (M16_E_NOENT, None))"
proof -
  obtain d where d: "m16_format (Some dev) = (M16_E_OK, Some d)" "settled d (home (m16_blocks d))"
    "fs_ok (home (m16_blocks d))" "v_dir (home (m16_blocks d)) = replicate 512 0"
    using format_settled [OF assms] by blast
  have "m16_file (home (m16_blocks d)) name = None" for name
    using d(4) by (simp add: m16_file_def find_dirent_blank)
  then have "read_result d name out cap = (M16_E_NOENT, None)" if "unat cap \<le> length out" for name out cap
    using read_result_content [OF d(2,3) that] by (simp add: content_result_def)
  moreover have "m16_fsck (Some d) = (M16_E_OK, Some d)"
    using settled_fsck [OF d(2)] d(3) by (simp add: m16_fsck_def entry_run)
  ultimately show ?thesis
    using d(1,2) by (auto simp: settled_def)
qed

theorem m16_format_fsck_witness:
  "\<exists>d. m16_format (m16_dev_init (Some m16_sample_dev)) = (M16_E_OK, Some d) \<and> m16_fsck (Some d) = (M16_E_OK, Some d)"
  using m16_format_fsck [of "the (m16_dev_init (Some m16_sample_dev))"] by (auto simp: m16_dev_init_def m16_consts)

theorem m16_write_read_witness:
  "\<exists>d. m16_write_file (Some (m16_sample_fs (-1))) (Some [104, 105]) (Some [1, 2, 3]) 3 = (M16_E_OK, Some d) \<and>
    read_result d [104, 105] [0, 0, 0, 0] 4 = (M16_E_OK, Some ([1, 2, 3, 0], 3))"
proof -
  have "write_error (home (m16_blocks (m16_sample_fs (-1)))) [104, 105] 3 = None"
    using strlen_bounded_length [of "[104, 105]" 32]
    by (simp add: write_error_def sample_fs(5-7) find_dirent_blank find_dirent_free_blank find_format_inode
        find_format_block m16_strlen_bounded_def)
  then show ?thesis
    using m16_write_read [OF sample_fs(1-3), of "-1" 3 "[1, 2, 3]" "[104, 105]"] sample_fs(4)
    by (auto simp: content_result_def)
qed

end
