(* ===== verification/Vmm.thy ===== *)
theory Vmm
  imports Prog Pmm
begin

text \<open>
  The virtual memory manager, \<^verbatim>\<open>src/src/vmm.c\<close> and \<^verbatim>\<open>src/include/vmm.h\<close>: four-level page tables with map,
  query and unmap, and the adapters of \<^verbatim>\<open>src/kernel/core/kmain.c\<close> that connect it to the physical memory
  manager. A page table is the list of the 512 entries at a virtual address; NULL is address 0. The
  callbacks of an address space are functions on the environment \<open>'c\<close> they work in. A page
  invalidation is recorded.
\<close>

section \<open>Data\<close>

definition VMM_PAGE_SIZE :: u64 where "VMM_PAGE_SIZE = 4096"
definition VMM_ENTRIES_PER_TABLE :: nat where "VMM_ENTRIES_PER_TABLE = 512"
definition VMM_INVALID_PHYS :: u64 where "VMM_INVALID_PHYS = 0xFFFFFFFFFFFFFFFF"
definition VMM_PTE_PRESENT :: u64 where "VMM_PTE_PRESENT = push_bit 0 1"
definition VMM_PTE_WRITABLE :: u64 where "VMM_PTE_WRITABLE = push_bit 1 1"
definition VMM_PTE_USER :: u64 where "VMM_PTE_USER = push_bit 2 1"
definition VMM_PTE_WRITE_THROUGH :: u64 where "VMM_PTE_WRITE_THROUGH = push_bit 3 1"
definition VMM_PTE_CACHE_DISABLE :: u64 where "VMM_PTE_CACHE_DISABLE = push_bit 4 1"
definition VMM_PTE_HUGE :: u64 where "VMM_PTE_HUGE = push_bit 7 1"
definition VMM_PTE_GLOBAL :: u64 where "VMM_PTE_GLOBAL = push_bit 8 1"
definition VMM_PTE_NO_EXECUTE :: u64 where "VMM_PTE_NO_EXECUTE = push_bit 63 1"
definition VMM_PTE_ADDR_MASK :: u64 where "VMM_PTE_ADDR_MASK = 0x000FFFFFFFFFF000"

datatype vmm_status = VMM_MAP_OK | VMM_ERR_INVAL | VMM_ERR_NOMEM | VMM_ERR_EXISTS | VMM_ERR_NOT_FOUND

record 'c vmm_space =
  root_paddr :: u64
  alloc_frame :: "('c \<Rightarrow> u64 \<times> 'c) option"
  free_frame :: "('c \<Rightarrow> u64 \<Rightarrow> 'c) option"
  phys_to_virt :: "('c \<Rightarrow> u64 \<Rightarrow> u64) option"

record vmm_mapping =
  map_vaddr :: u64
  map_paddr :: u64
  map_flags :: u64

record 'c vmm_mem =
  tables :: "u64 \<Rightarrow> u64 list"
  venv :: 'c
  invalidated :: "u64 list"

type_synonym ('c, 'a) vmm_prog = "('c vmm_mem, vmm_status, 'a) prog"

section \<open>Operations\<close>

definition vmm_zero_page :: "u64 list \<Rightarrow> u64 list" where
  "vmm_zero_page page = fold (\<lambda>i p. p[i := 0]) [0..<VMM_ENTRIES_PER_TABLE] page"

definition vmm_is_aligned_4k :: "u64 \<Rightarrow> bool" where
  "vmm_is_aligned_4k value \<longleftrightarrow> value AND (VMM_PAGE_SIZE - 1) = 0"

definition vmm_is_canonical :: "u64 \<Rightarrow> bool" where
  "vmm_is_canonical vaddr \<longleftrightarrow>
    (let sign = drop_bit 47 vaddr AND 1; upper = drop_bit 48 vaddr in
     if sign \<noteq> 0 then upper = 0xFFFF else upper = 0)"

definition idx_pml4 :: "u64 \<Rightarrow> nat" where "idx_pml4 vaddr = unat (drop_bit 39 vaddr AND 0x1FF)"
definition idx_pdpt :: "u64 \<Rightarrow> nat" where "idx_pdpt vaddr = unat (drop_bit 30 vaddr AND 0x1FF)"
definition idx_pd :: "u64 \<Rightarrow> nat" where "idx_pd vaddr = unat (drop_bit 21 vaddr AND 0x1FF)"
definition idx_pt :: "u64 \<Rightarrow> nat" where "idx_pt vaddr = unat (drop_bit 12 vaddr AND 0x1FF)"

definition table_from_phys :: "'c vmm_space \<Rightarrow> u64 \<Rightarrow> 'c vmm_mem \<Rightarrow> u64" where
  "table_from_phys space paddr mem = (case phys_to_virt space of None \<Rightarrow> 0 | Some f \<Rightarrow>
     if \<not> vmm_is_aligned_4k paddr then 0 else f (venv mem) paddr)"

text \<open>\<^verbatim>\<open>table[index] = entry\<close>\<close>

definition put_entry :: "u64 \<Rightarrow> nat \<Rightarrow> u64 \<Rightarrow> 'c vmm_mem \<Rightarrow> 'c vmm_mem" where
  "put_entry table index entry mem =
    mem\<lparr>tables := (tables mem)(table := (tables mem table)[index := entry])\<rparr>"

definition get_or_alloc_next_table :: "'c vmm_space \<Rightarrow> u64 \<Rightarrow> nat \<Rightarrow> ('c, u64) vmm_prog" where
  "get_or_alloc_next_table space table index mem =
    (let entry = tables mem table ! index in
     if entry AND VMM_PTE_PRESENT \<noteq> 0 then
       if entry AND VMM_PTE_HUGE \<noteq> 0 then (Inl VMM_ERR_EXISTS, mem)
       else
         let next = table_from_phys space (entry AND VMM_PTE_ADDR_MASK) mem in
         if next = 0 then (Inl VMM_ERR_INVAL, mem) else (Inr next, mem)
     else case alloc_frame space of None \<Rightarrow> (Inl VMM_ERR_NOMEM, mem) | Some alloc \<Rightarrow>
       let (new_paddr, env') = alloc (venv mem);
           mem = mem\<lparr>venv := env'\<rparr> in
       if new_paddr = VMM_INVALID_PHYS \<or> \<not> vmm_is_aligned_4k new_paddr then (Inl VMM_ERR_NOMEM, mem)
       else
         let new_table = table_from_phys space new_paddr mem in
         if new_table = 0 then
           (Inl VMM_ERR_INVAL, case free_frame space of None \<Rightarrow> mem
              | Some free \<Rightarrow> mem\<lparr>venv := free (venv mem) new_paddr\<rparr>)
         else
           let mem = mem\<lparr>tables := (tables mem)(new_table := vmm_zero_page (tables mem new_table))\<rparr> in
           (Inr new_table, put_entry table index
              ((new_paddr AND VMM_PTE_ADDR_MASK) OR VMM_PTE_PRESENT OR VMM_PTE_WRITABLE) mem))"

text \<open>The object \<open>space\<close> is replaced; \<open>None\<close> is NULL.\<close>

definition vmm_space_init ::
  "'c vmm_space option \<Rightarrow> u64 \<Rightarrow> ('c \<Rightarrow> u64 \<times> 'c) option \<Rightarrow> ('c \<Rightarrow> u64 \<Rightarrow> 'c) option \<Rightarrow>
   ('c \<Rightarrow> u64 \<Rightarrow> u64) option \<Rightarrow> vmm_status \<times> 'c vmm_space option" where
  "vmm_space_init space root alloc free p2v =
    (if space = None \<or> p2v = None \<or> \<not> vmm_is_aligned_4k root then (VMM_ERR_INVAL, space)
     else (VMM_MAP_OK, Some \<lparr>root_paddr = root, alloc_frame = alloc, free_frame = free, phys_to_virt = p2v\<rparr>))"

definition vmm_allowed :: u64 where
  "vmm_allowed = VMM_PTE_WRITABLE OR VMM_PTE_USER OR VMM_PTE_WRITE_THROUGH OR
     VMM_PTE_CACHE_DISABLE OR VMM_PTE_GLOBAL OR VMM_PTE_NO_EXECUTE"

definition vmm_map_body :: "'c vmm_space \<Rightarrow> u64 \<Rightarrow> u64 \<Rightarrow> u64 \<Rightarrow> ('c, unit) vmm_prog" where
  "vmm_map_body space vaddr paddr flags =
    prog_bind (prog_fail_if (\<not> vmm_is_canonical vaddr \<or> \<not> vmm_is_aligned_4k vaddr \<or>
                 \<not> vmm_is_aligned_4k paddr) VMM_ERR_INVAL) (\<lambda>_.
    prog_bind prog_get (\<lambda>mem.
    let pml4 = table_from_phys space (root_paddr space) mem in
    prog_bind (prog_fail_if (pml4 = 0) VMM_ERR_INVAL) (\<lambda>_.
    prog_bind (get_or_alloc_next_table space pml4 (idx_pml4 vaddr)) (\<lambda>pdpt.
    prog_bind (get_or_alloc_next_table space pdpt (idx_pdpt vaddr)) (\<lambda>pd.
    prog_bind (get_or_alloc_next_table space pd (idx_pd vaddr)) (\<lambda>pt.
    prog_bind prog_get (\<lambda>mem.
    prog_bind (prog_fail_if (tables mem pt ! idx_pt vaddr AND VMM_PTE_PRESENT \<noteq> 0) VMM_ERR_EXISTS) (\<lambda>_.
    prog_modify (put_entry pt (idx_pt vaddr)
      ((paddr AND VMM_PTE_ADDR_MASK) OR VMM_PTE_PRESENT OR (flags AND vmm_allowed)))))))))))"

text \<open>One level of the walk of query and unmap.\<close>

definition next_table :: "'c vmm_space \<Rightarrow> 'c vmm_mem \<Rightarrow> u64 \<Rightarrow> nat \<Rightarrow> vmm_status + u64" where
  "next_table space mem table index =
    (let e = tables mem table ! index in
     if e AND VMM_PTE_PRESENT = 0 \<or> e AND VMM_PTE_HUGE \<noteq> 0 then Inl VMM_ERR_NOT_FOUND
     else
       let next = table_from_phys space (e AND VMM_PTE_ADDR_MASK) mem in
       if next = 0 then Inl VMM_ERR_INVAL else Inr next)"

text \<open>The walk to the last table.\<close>

definition walk_to_pt :: "'c vmm_space \<Rightarrow> u64 \<Rightarrow> ('c, u64) vmm_prog" where
  "walk_to_pt space vaddr =
    prog_bind (prog_fail_if (\<not> vmm_is_canonical vaddr \<or> \<not> vmm_is_aligned_4k vaddr) VMM_ERR_INVAL) (\<lambda>_.
    prog_bind prog_get (\<lambda>mem.
    let pml4 = table_from_phys space (root_paddr space) mem in
    prog_bind (prog_fail_if (pml4 = 0) VMM_ERR_INVAL) (\<lambda>_.
    prog_bind (prog_lift (next_table space mem pml4 (idx_pml4 vaddr))) (\<lambda>pdpt.
    prog_bind (prog_lift (next_table space mem pdpt (idx_pdpt vaddr))) (\<lambda>pd.
    prog_lift (next_table space mem pd (idx_pd vaddr)))))))"

definition vmm_query_body :: "'c vmm_space \<Rightarrow> u64 \<Rightarrow> ('c, vmm_mapping) vmm_prog" where
  "vmm_query_body space vaddr =
    prog_bind (walk_to_pt space vaddr) (\<lambda>pt.
    prog_bind prog_get (\<lambda>mem.
    let e = tables mem pt ! idx_pt vaddr in
    prog_bind (prog_fail_if (e AND VMM_PTE_PRESENT = 0) VMM_ERR_NOT_FOUND) (\<lambda>_.
    prog_return \<lparr>map_vaddr = vaddr, map_paddr = e AND VMM_PTE_ADDR_MASK,
      map_flags = e AND NOT VMM_PTE_ADDR_MASK\<rparr>)))"

definition vmm_invalidate_page :: "u64 \<Rightarrow> 'c vmm_mem \<Rightarrow> 'c vmm_mem" where
  "vmm_invalidate_page vaddr mem = mem\<lparr>invalidated := vaddr # invalidated mem\<rparr>"

definition vmm_unmap_body :: "'c vmm_space \<Rightarrow> u64 \<Rightarrow> ('c, unit) vmm_prog" where
  "vmm_unmap_body space vaddr =
    prog_bind (walk_to_pt space vaddr) (\<lambda>pt.
    prog_bind prog_get (\<lambda>mem.
    prog_bind (prog_fail_if (tables mem pt ! idx_pt vaddr AND VMM_PTE_PRESENT = 0) VMM_ERR_NOT_FOUND) (\<lambda>_.
    prog_bind (prog_modify (put_entry pt (idx_pt vaddr) 0)) (\<lambda>_.
    prog_modify (vmm_invalidate_page vaddr)))))"

text \<open>The exported functions test \<open>space\<close> (and \<open>out\<close>, false for NULL) first.\<close>

definition vmm_map_page :: "'c vmm_space option \<Rightarrow> u64 \<Rightarrow> u64 \<Rightarrow> u64 \<Rightarrow> 'c vmm_mem \<Rightarrow> vmm_status \<times> 'c vmm_mem" where
  "vmm_map_page space vaddr paddr flags mem = (case space of None \<Rightarrow> (VMM_ERR_INVAL, mem) | Some sp \<Rightarrow>
     (case vmm_map_body sp vaddr paddr flags mem of (Inl e, mem') \<Rightarrow> (e, mem') | (Inr _, mem') \<Rightarrow> (VMM_MAP_OK, mem')))"

definition vmm_query_page ::
  "'c vmm_space option \<Rightarrow> u64 \<Rightarrow> bool \<Rightarrow> 'c vmm_mem \<Rightarrow> vmm_status \<times> vmm_mapping option" where
  "vmm_query_page space vaddr out mem = (case space of None \<Rightarrow> (VMM_ERR_INVAL, None) | Some sp \<Rightarrow>
     if \<not> out then (VMM_ERR_INVAL, None)
     else (case fst (vmm_query_body sp vaddr mem) of Inl e \<Rightarrow> (e, None) | Inr r \<Rightarrow> (VMM_MAP_OK, Some r)))"

definition vmm_unmap_page :: "'c vmm_space option \<Rightarrow> u64 \<Rightarrow> 'c vmm_mem \<Rightarrow> vmm_status \<times> 'c vmm_mem" where
  "vmm_unmap_page space vaddr mem = (case space of None \<Rightarrow> (VMM_ERR_INVAL, mem) | Some sp \<Rightarrow>
     (case vmm_unmap_body sp vaddr mem of (Inl e, mem') \<Rightarrow> (e, mem') | (Inr _, mem') \<Rightarrow> (VMM_MAP_OK, mem')))"

section \<open>The kernel's address space\<close>

text \<open>The globals of \<^verbatim>\<open>kmain.c\<close> that the adapters use, and the adapters.\<close>

record kmain_globals =
  g_pmm :: pmm_state
  g_hhdm_offset :: u64

definition m7_vmm_alloc :: "kmain_globals \<Rightarrow> u64 \<times> kmain_globals" where
  "m7_vmm_alloc g = (case pmm_alloc_frame (Some (g_pmm g)) of (a, p) \<Rightarrow> (a, g\<lparr>g_pmm := the p\<rparr>))"

definition m7_vmm_free :: "kmain_globals \<Rightarrow> u64 \<Rightarrow> kmain_globals" where
  "m7_vmm_free g paddr = g\<lparr>g_pmm := the (snd (pmm_free_frame (Some (g_pmm g)) paddr))\<rparr>"

definition m7_phys_to_virt :: "kmain_globals \<Rightarrow> u64 \<Rightarrow> u64" where
  "m7_phys_to_virt g paddr = g_hhdm_offset g + paddr"

text \<open>
  \<^verbatim>\<open>m7_vmm_init\<close> up to its smoke test: the space over a root table allocated from the frame allocator
  and cleared. \<open>None\<close> is a panic. The space object \<open>g_vmm\<close> before the call is irrelevant.
\<close>

definition m7_vmm_init :: "kmain_globals vmm_space \<Rightarrow> kmain_globals vmm_mem \<Rightarrow>
  (kmain_globals vmm_space \<times> kmain_globals vmm_mem) option" where
  "m7_vmm_init g_vmm mem =
    (let (root, p) = pmm_alloc_frame (Some (g_pmm (venv mem))) in
     if root = PMM_INVALID_FRAME then None
     else
       let mem = mem\<lparr>venv := (venv mem)\<lparr>g_pmm := the p\<rparr>\<rparr>;
           root_virt = g_hhdm_offset (venv mem) + root;
           mem = mem\<lparr>tables := (tables mem)(root_virt :=
                   fold (\<lambda>i p. p[i := 0]) [0..<512] (tables mem root_virt))\<rparr> in
       case vmm_space_init (Some g_vmm) root (Some m7_vmm_alloc) (Some m7_vmm_free) (Some m7_phys_to_virt) of
         (VMM_MAP_OK, Some sp) \<Rightarrow> Some (sp, mem)
       | _ \<Rightarrow> None)"

end
