(* ===== verification/Vmm_Correct.thy ===== *)
theory Vmm_Correct
  imports Vmm
begin

text \<open>
  Correctness of the virtual memory manager. The page tables of an address space form a tree whose
  nodes are distinct frames taken from the frame allocator; on such a tree map, query and unmap
  implement a partial map from pages to frames. The tree invariant and the operations' effects are
  proved over the contract of a frame source, which the kernel's frame allocator meets.
\<close>

section \<open>Page table entries\<close>

lemma addr_mask_bits: "bit VMM_PTE_ADDR_MASK n \<longleftrightarrow> 12 \<le> n \<and> n < 52"
proof -
  have *: "VMM_PTE_ADDR_MASK = push_bit 12 (mask 40)"
    by (simp add: VMM_PTE_ADDR_MASK_def mask_eq_exp_minus_1)
  show ?thesis
    unfolding * by (simp only: bit_push_bit_iff bit_mask_iff possible_bit_word) auto
qed

lemma flag_bit: "k < 64 \<Longrightarrow> bit (push_bit k 1 :: u64) n \<longleftrightarrow> n = k"
  by (auto simp: bit_exp_iff)

lemma and_flag_bit: "(e :: u64) AND push_bit k 1 = 0 \<longleftrightarrow> \<not> bit e k"
  by (simp add: push_bit_eq_mult and_exp_eq_0_iff_not_bit)

lemma pte_bits:
  "bit VMM_PTE_PRESENT n \<longleftrightarrow> n = 0" "bit VMM_PTE_WRITABLE n \<longleftrightarrow> n = 1" "bit VMM_PTE_USER n \<longleftrightarrow> n = 2"
  "bit VMM_PTE_HUGE n \<longleftrightarrow> n = 7"
  unfolding VMM_PTE_PRESENT_def VMM_PTE_WRITABLE_def VMM_PTE_USER_def VMM_PTE_HUGE_def
  by (rule flag_bit, simp)+

lemma allowed_bits: "bit vmm_allowed n \<longleftrightarrow> n \<in> {1, 2, 3, 4, 8, 63}"
proof -
  have "bit VMM_PTE_WRITE_THROUGH n \<longleftrightarrow> n = 3" "bit VMM_PTE_CACHE_DISABLE n \<longleftrightarrow> n = 4"
    "bit VMM_PTE_GLOBAL n \<longleftrightarrow> n = 8" "bit VMM_PTE_NO_EXECUTE n \<longleftrightarrow> n = 63"
    unfolding VMM_PTE_WRITE_THROUGH_def VMM_PTE_CACHE_DISABLE_def VMM_PTE_GLOBAL_def VMM_PTE_NO_EXECUTE_def
    by (rule flag_bit, simp)+
  then show ?thesis
    by (auto simp: vmm_allowed_def bit_or_iff pte_bits)
qed

lemma and_flag:
  "(e :: u64) AND VMM_PTE_PRESENT = 0 \<longleftrightarrow> \<not> bit e 0" "e AND VMM_PTE_HUGE = 0 \<longleftrightarrow> \<not> bit e 7"
  unfolding VMM_PTE_PRESENT_def VMM_PTE_HUGE_def by (rule and_flag_bit)+

lemma aligned_bits: "vmm_is_aligned_4k a \<longleftrightarrow> (\<forall>n<12. \<not> bit a n)"
proof -
  have "VMM_PAGE_SIZE - 1 = mask 12"
    by (simp add: VMM_PAGE_SIZE_def mask_eq_exp_minus_1)
  then have *: "vmm_is_aligned_4k a \<longleftrightarrow> take_bit 12 a = 0"
    by (simp add: vmm_is_aligned_4k_def take_bit_eq_mask)
  show ?thesis
  proof
    assume "vmm_is_aligned_4k a"
    then have "\<not> bit (take_bit 12 a) n" for n
      unfolding * by simp
    then show "\<forall>n<12. \<not> bit a n"
      by (simp add: bit_take_bit_iff)
  next
    assume "\<forall>n<12. \<not> bit a n"
    then show "vmm_is_aligned_4k a"
      unfolding * by (intro bit_word_eqI) (simp add: bit_take_bit_iff)
  qed
qed

text \<open>The entry for a next table.\<close>

definition table_entry :: "u64 \<Rightarrow> u64" where
  "table_entry a = (a AND VMM_PTE_ADDR_MASK) OR VMM_PTE_PRESENT OR VMM_PTE_WRITABLE"

lemma table_entry_facts:
  "bit (table_entry a) 0" "\<not> bit (table_entry a) 7" "\<not> bit (table_entry a) 2"
  "table_entry a AND VMM_PTE_ADDR_MASK = a AND VMM_PTE_ADDR_MASK"
proof -
  have *: "bit (table_entry a) n \<longleftrightarrow> (bit a n \<and> 12 \<le> n \<and> n < 52) \<or> n = 0 \<or> n = 1" for n
    by (auto simp: table_entry_def bit_or_iff bit_and_iff addr_mask_bits pte_bits)
  show "bit (table_entry a) 0" "\<not> bit (table_entry a) 7" "\<not> bit (table_entry a) 2"
    by (simp_all add: *)
  show "table_entry a AND VMM_PTE_ADDR_MASK = a AND VMM_PTE_ADDR_MASK"
    by (rule bit_word_eqI) (auto simp: bit_and_iff * addr_mask_bits)
qed

text \<open>The entry for a page.\<close>

definition page_entry :: "u64 \<Rightarrow> u64 \<Rightarrow> u64" where
  "page_entry paddr flags = (paddr AND VMM_PTE_ADDR_MASK) OR VMM_PTE_PRESENT OR (flags AND vmm_allowed)"

lemma page_entry_facts:
  "bit (page_entry paddr flags) 0"
  "page_entry paddr flags AND VMM_PTE_ADDR_MASK = paddr AND VMM_PTE_ADDR_MASK"
  "page_entry paddr flags AND NOT VMM_PTE_ADDR_MASK = VMM_PTE_PRESENT OR (flags AND vmm_allowed)"
proof -
  have *: "bit (page_entry paddr flags) n \<longleftrightarrow> (bit paddr n \<and> 12 \<le> n \<and> n < 52) \<or> n = 0 \<or>
      (bit flags n \<and> n \<in> {1, 2, 3, 4, 8, 63})" for n
    by (auto simp: page_entry_def bit_or_iff bit_and_iff addr_mask_bits pte_bits allowed_bits)
  show "bit (page_entry paddr flags) 0"
    by (simp add: *)
  show "page_entry paddr flags AND VMM_PTE_ADDR_MASK = paddr AND VMM_PTE_ADDR_MASK"
    by (rule bit_word_eqI) (auto simp: bit_and_iff * addr_mask_bits)
  show "page_entry paddr flags AND NOT VMM_PTE_ADDR_MASK = VMM_PTE_PRESENT OR (flags AND vmm_allowed)"
    by (rule bit_word_eqI) (auto simp: bit_and_iff bit_or_iff bit_not_iff * addr_mask_bits pte_bits allowed_bits)
qed

section \<open>Virtual addresses\<close>

text \<open>The four table indices of an address determine it among canonical page addresses.\<close>

lemma index_bound: "idx_pml4 v < 512" "idx_pdpt v < 512" "idx_pd v < 512" "idx_pt v < 512"
proof -
  have "unat ((x :: u64) AND 0x1FF) < 512" for x
    using unat_and_mask [of x 9] by (simp add: mask_eq_exp_minus_1)
  then show "idx_pml4 v < 512" "idx_pdpt v < 512" "idx_pd v < 512" "idx_pt v < 512"
    by (simp_all add: idx_pml4_def idx_pdpt_def idx_pd_def idx_pt_def)
qed

lemma index_bits:
  assumes "unat (drop_bit k (v :: u64) AND 0x1FF) = unat (drop_bit k (w :: u64) AND 0x1FF)" and "k \<le> n" and "n < k + 9"
  shows "bit v n \<longleftrightarrow> bit w n"
proof -
  have "drop_bit k v AND mask 9 = drop_bit k w AND mask 9"
    using assms(1) by (simp add: mask_eq_exp_minus_1 word_unat_eq_iff)
  then have "bit (drop_bit k v AND mask 9) (n - k) \<longleftrightarrow> bit (drop_bit k w AND mask 9) (n - k)"
    by simp
  then show ?thesis
    using assms(2,3) by (simp add: bit_and_iff bit_drop_bit_eq bit_mask_iff less_diff_conv2)
qed

lemma canonical_bits:
  assumes "vmm_is_canonical v" and "48 \<le> n" and "n < 64"
  shows "bit v n \<longleftrightarrow> bit v 47"
proof -
  have sign: "drop_bit 47 v AND 1 \<noteq> 0 \<longleftrightarrow> bit v 47"
    by (auto simp: bit_eq_iff [where ?'a = u64] bit_and_iff bit_drop_bit_eq bit_1_iff)
  have upper: "bit (drop_bit 48 v) (n - 48) \<longleftrightarrow> bit v n"
    using assms(2) by (simp add: bit_drop_bit_eq)
  have "bit (mask 16 :: u64) (n - 48)"
    using assms(2,3) by (simp only: bit_mask_iff possible_bit_word) (simp add: less_diff_conv2)
  moreover have "(0xFFFF :: u64) = mask 16"
    by (simp add: mask_eq_exp_minus_1)
  ultimately have "bit (0xFFFF :: u64) (n - 48)"
    by metis
  then show ?thesis
    using assms(1) sign upper by (auto simp: vmm_is_canonical_def Let_def split: if_splits)
qed

lemma address_by_index:
  assumes "vmm_is_canonical v" "vmm_is_aligned_4k v" "vmm_is_canonical w" "vmm_is_aligned_4k w"
    and "idx_pml4 v = idx_pml4 w" "idx_pdpt v = idx_pdpt w" "idx_pd v = idx_pd w" "idx_pt v = idx_pt w"
  shows "v = w"
proof (rule bit_word_eqI)
  fix n assume n: "n < LENGTH(64)"
  have low: "bit v n \<longleftrightarrow> bit w n" if lt: "n < 48" for n
  proof -
    consider "n < 12" | "12 \<le> n" "n < 21" | "21 \<le> n" "n < 30" | "30 \<le> n" "n < 39" | "39 \<le> n" "n < 48"
      using lt by linarith
    then show ?thesis
      using assms index_bits [of 12 v w n] index_bits [of 21 v w n] index_bits [of 30 v w n] index_bits [of 39 v w n]
      by cases (simp_all add: aligned_bits idx_pml4_def idx_pdpt_def idx_pd_def idx_pt_def)
  qed
  show "bit v n \<longleftrightarrow> bit w n"
    using n low [of n] low [of 47] canonical_bits [OF assms(1), of n] canonical_bits [OF assms(3), of n]
    by (cases "n < 48") simp_all
qed

section \<open>The tree of page tables\<close>

fun descend :: "'c vmm_space \<Rightarrow> 'c vmm_mem \<Rightarrow> u64 \<Rightarrow> nat list \<Rightarrow> u64 option" where
  "descend sp mem t [] = Some t"
| "descend sp mem t (i # is) = (case next_table sp mem t i of Inl _ \<Rightarrow> None | Inr t' \<Rightarrow> descend sp mem t' is)"

lemma descend_snoc:
  "descend sp mem t (p @ [i]) = (case descend sp mem t p of None \<Rightarrow> None
     | Some u \<Rightarrow> (case next_table sp mem u i of Inl _ \<Rightarrow> None | Inr u' \<Rightarrow> Some u'))"
  by (induction p arbitrary: t) (auto split: sum.splits)

definition vmm_root :: "'c vmm_space \<Rightarrow> 'c vmm_mem \<Rightarrow> u64" where
  "vmm_root sp mem = table_from_phys sp (root_paddr sp) mem"

definition valid_path :: "nat list \<Rightarrow> bool" where
  "valid_path p \<longleftrightarrow> length p \<le> 3 \<and> (\<forall>i\<in>set p. i < 512)"

lemma valid_path_snoc: "valid_path (p @ [i]) \<longleftrightarrow> valid_path p \<and> length p < 3 \<and> i < 512"
  by (auto simp: valid_path_def)

text \<open>
  The table reached by the path \<open>p\<close> of indices. The tables are frames of the set \<open>owned\<close>, no table is
  reached by two paths, and every used entry of an inner table is a plain link to a table.
\<close>

definition table_at :: "'c vmm_space \<Rightarrow> 'c vmm_mem \<Rightarrow> nat list \<Rightarrow> u64 option" where
  "table_at sp mem p = descend sp mem (vmm_root sp mem) p"

lemma table_at_snoc:
  "table_at sp mem (p @ [i]) = (case table_at sp mem p of None \<Rightarrow> None
     | Some u \<Rightarrow> (case next_table sp mem u i of Inl _ \<Rightarrow> None | Inr u' \<Rightarrow> Some u'))"
  by (simp add: table_at_def descend_snoc)

definition vmm_tree :: "u64 set \<Rightarrow> 'c vmm_space \<Rightarrow> 'c vmm_mem \<Rightarrow> bool" where
  "vmm_tree owned sp mem \<longleftrightarrow> root_paddr sp \<in> owned \<and> (\<forall>t. length (tables mem t) = 512) \<and>
    (\<forall>p q t. valid_path p \<longrightarrow> valid_path q \<longrightarrow> table_at sp mem p = Some t \<longrightarrow> table_at sp mem q = Some t \<longrightarrow> p = q) \<and>
    (\<forall>p t. valid_path p \<longrightarrow> table_at sp mem p = Some t \<longrightarrow> (\<exists>a\<in>owned. t = table_from_phys sp a mem)) \<and>
    (\<forall>p t i. valid_path (p @ [i]) \<longrightarrow> table_at sp mem p = Some t \<longrightarrow>
       \<not> bit (tables mem t ! i) 0 \<or> (\<exists>a\<in>owned. tables mem t ! i = table_entry a))"

lemma tree_unique:
  "vmm_tree owned sp mem \<Longrightarrow> valid_path p \<Longrightarrow> valid_path q \<Longrightarrow>
   table_at sp mem p = Some t \<Longrightarrow> table_at sp mem q = Some t \<Longrightarrow> p = q"
  unfolding vmm_tree_def by blast

lemma tree_owned:
  "vmm_tree owned sp mem \<Longrightarrow> valid_path p \<Longrightarrow> table_at sp mem p = Some t \<Longrightarrow>
   \<exists>a\<in>owned. t = table_from_phys sp a mem"
  unfolding vmm_tree_def by blast

lemma tree_entry:
  "vmm_tree owned sp mem \<Longrightarrow> valid_path (p @ [i]) \<Longrightarrow> table_at sp mem p = Some t \<Longrightarrow>
   \<not> bit (tables mem t ! i) 0 \<or> (\<exists>a\<in>owned. tables mem t ! i = table_entry a)"
  unfolding vmm_tree_def by blast

text \<open>The entry of the page at \<open>vaddr\<close>, if it is mapped.\<close>

definition entry_of :: "'c vmm_space \<Rightarrow> 'c vmm_mem \<Rightarrow> u64 \<Rightarrow> u64 option" where
  "entry_of sp mem vaddr = (case table_at sp mem [idx_pml4 vaddr, idx_pdpt vaddr, idx_pd vaddr] of
     None \<Rightarrow> None
   | Some pt \<Rightarrow> let e = tables mem pt ! idx_pt vaddr in if bit e 0 then Some e else None)"

text \<open>An address space over a source of frames.\<close>

definition space_over :: "('c \<Rightarrow> u64 \<times> 'c) \<Rightarrow> ('c \<Rightarrow> u64 \<Rightarrow> u64) \<Rightarrow> ('c \<Rightarrow> bool) \<Rightarrow> ('c \<Rightarrow> u64 set) \<Rightarrow>
    'c vmm_space \<Rightarrow> 'c vmm_mem \<Rightarrow> bool" where
  "space_over alloc p2v good owned sp mem \<longleftrightarrow> alloc_frame sp = Some alloc \<and> phys_to_virt sp = Some p2v \<and>
     good (venv mem) \<and> vmm_tree (owned (venv mem)) sp mem"

lemma next_table_cong:
  assumes "tables mem' t ! i = tables mem t ! i" and "\<And>a. table_from_phys sp a mem' = table_from_phys sp a mem"
  shows "next_table sp mem' t i = next_table sp mem t i"
  using assms by (simp add: next_table_def Let_def)

lemma put_entry_tables:
  "tables (put_entry t i e mem) = (tables mem)(t := (tables mem t)[i := e])" "venv (put_entry t i e mem) = venv mem"
  by (simp_all add: put_entry_def)

lemma put_entry_invalidated: "invalidated (put_entry t i e mem) = invalidated mem"
  by (simp add: put_entry_def)

lemma put_entry_phys [simp]: "table_from_phys sp a (put_entry t i e mem) = table_from_phys sp a mem"
  by (simp add: table_from_phys_def put_entry_def split: option.split)

text \<open>The tables of a path, allocating those that are missing.\<close>

fun alloc_path :: "'c vmm_space \<Rightarrow> u64 \<Rightarrow> nat list \<Rightarrow> ('c, u64) vmm_prog" where
  "alloc_path sp t [] = prog_return t"
| "alloc_path sp t (i # is) = prog_bind (get_or_alloc_next_table sp t i) (\<lambda>u. alloc_path sp u is)"

section \<open>The contract of a frame source\<close>

text \<open>
  What the memory manager relies on in its callbacks: \<open>owned\<close> is the set of frames handed out, which an
  allocation extends by a new frame, or the source is exhausted and stays as it is; frames have
  distinct non-null virtual addresses, which an allocation does not move.
\<close>

locale frame_source =
  fixes alloc :: "'c \<Rightarrow> u64 \<times> 'c"
    and p2v :: "'c \<Rightarrow> u64 \<Rightarrow> u64"
    and good :: "'c \<Rightarrow> bool"
    and owned :: "'c \<Rightarrow> u64 set"
    and exhausted :: "'c \<Rightarrow> bool"
  assumes alloc_none: "good c \<Longrightarrow> alloc c = (VMM_INVALID_PHYS, c') \<Longrightarrow> c' = c \<and> exhausted c"
    and alloc_some: "good c \<Longrightarrow> alloc c = (a, c') \<Longrightarrow> a \<noteq> VMM_INVALID_PHYS \<Longrightarrow>
      good c' \<and> a \<notin> owned c \<and> owned c' = insert a (owned c) \<and> p2v c' = p2v c"
    and frame_aligned: "good c \<Longrightarrow> a \<in> owned c \<Longrightarrow> vmm_is_aligned_4k a \<and> a AND VMM_PTE_ADDR_MASK = a"
    and frame_virt: "good c \<Longrightarrow> a \<in> owned c \<Longrightarrow> p2v c a \<noteq> 0"
    and virt_inj: "good c \<Longrightarrow> a \<in> owned c \<Longrightarrow> b \<in> owned c \<Longrightarrow> p2v c a = p2v c b \<Longrightarrow> a = b"
begin

abbreviation space_ok :: "'c vmm_space \<Rightarrow> 'c vmm_mem \<Rightarrow> bool" where
  "space_ok \<equiv> space_over alloc p2v good owned"

lemmas space_ok_def = space_over_def [of alloc p2v good owned]

lemma table_of_frame:
  assumes "phys_to_virt sp = Some p2v" and "good (venv mem)" and "a \<in> owned (venv mem)"
  shows "table_from_phys sp a mem = p2v (venv mem) a" "table_from_phys sp a mem \<noteq> 0"
  using assms frame_aligned frame_virt by (auto simp: table_from_phys_def)

lemma link_next:
  assumes "phys_to_virt sp = Some p2v" and "good (venv mem)" and "a \<in> owned (venv mem)"
    and "tables mem t ! i = table_entry a"
  shows "next_table sp mem t i = Inr (table_from_phys sp a mem)"
  using assms table_of_frame [OF assms(1-3)] frame_aligned [OF assms(2,3)]
  by (simp add: next_table_def Let_def and_flag table_entry_facts)

lemma absent_next: "\<not> bit (tables mem t ! i) 0 \<Longrightarrow> next_table sp mem t i = Inl VMM_ERR_NOT_FOUND"
  by (simp add: next_table_def Let_def and_flag)

lemma root_reached: "table_at sp mem [] = Some (vmm_root sp mem)"
  by (simp add: table_at_def)

lemma space_root:
  assumes "space_ok sp mem"
  shows "vmm_root sp mem \<noteq> 0"
  using assms table_of_frame(2) [of sp mem "root_paddr sp"]
  by (simp add: space_ok_def vmm_tree_def vmm_root_def)

lemma inner_entry:
  assumes "space_ok sp mem" and "table_at sp mem p = Some t" and "valid_path (p @ [i])"
  shows "\<not> bit (tables mem t ! i) 0 \<and> next_table sp mem t i = Inl VMM_ERR_NOT_FOUND \<and> table_at sp mem (p @ [i]) = None \<or>
    (\<exists>a\<in>owned (venv mem). tables mem t ! i = table_entry a \<and> next_table sp mem t i = Inr (table_from_phys sp a mem) \<and>
       table_at sp mem (p @ [i]) = Some (table_from_phys sp a mem))"
proof (cases "bit (tables mem t ! i) 0")
  case True
  then obtain a where a: "a \<in> owned (venv mem)" "tables mem t ! i = table_entry a"
    using assms tree_entry [of "owned (venv mem)" sp mem p i t] by (auto simp: space_ok_def)
  then have "next_table sp mem t i = Inr (table_from_phys sp a mem)"
    using assms(1) link_next [of sp mem a t i] by (simp add: space_ok_def)
  with a assms(2) show ?thesis
    by (auto simp: table_at_def descend_snoc)
next
  case False
  then show ?thesis
    using assms(2) absent_next [OF False, of sp] by (simp add: table_at_def descend_snoc)
qed

text \<open>Changing an entry of a last-level table does not change the tree.\<close>

lemma leaf_table_at:
  assumes "space_ok sp mem" and "valid_path p" and "length p = 3" and "table_at sp mem p = Some t" and "valid_path q"
  shows "table_at sp (put_entry t i e mem) q = table_at sp mem q"
  using assms(5)
proof (induction q rule: rev_induct)
  case Nil
  then show ?case
    by (simp add: table_at_def vmm_root_def)
next
  case (snoc j q)
  then have q: "valid_path q" "length q < 3"
    by (simp_all add: valid_path_snoc)
  show ?case
  proof (cases "table_at sp mem q")
    case None
    then show ?thesis
      using snoc.IH [OF q(1)] by (simp add: table_at_def descend_snoc vmm_root_def)
  next
    case (Some u)
    have "u \<noteq> t"
      using tree_unique [of "owned (venv mem)" sp mem p q t] assms(1-4) q Some by (auto simp: space_ok_def)
    then have "next_table sp (put_entry t i e mem) u j = next_table sp mem u j"
      by (intro next_table_cong) (simp_all add: put_entry_tables)
    then show ?thesis
      using snoc.IH [OF q(1)] Some by (simp add: table_at_def descend_snoc vmm_root_def)
  qed
qed

lemma leaf_put:
  assumes "space_ok sp mem" and "valid_path p" and "length p = 3" and "table_at sp mem p = Some t"
  shows "space_ok sp (put_entry t i e mem)"
proof -
  let ?m = "put_entry t i e mem"
  note at = leaf_table_at [OF assms, where i = i and e = e]
  have inner: "tables ?m u = tables mem u" if "valid_path (q @ [j])" "table_at sp mem q = Some u" for q j u
  proof -
    have "valid_path q" "length q < 3"
      using that(1) by (simp_all add: valid_path_snoc)
    then have "u \<noteq> t"
      using tree_unique [of "owned (venv mem)" sp mem p q t] assms that(2) by (auto simp: space_ok_def)
    then show ?thesis
      by (simp add: put_entry_tables)
  qed
  have tree: "vmm_tree (owned (venv mem)) sp mem"
    using assms(1) by (simp add: space_ok_def)
  have "vmm_tree (owned (venv mem)) sp ?m"
    unfolding vmm_tree_def
  proof (intro conjI allI impI)
    show "root_paddr sp \<in> owned (venv mem)" "length (tables ?m u) = 512" for u
      using tree by (auto simp: vmm_tree_def put_entry_tables)
    show "p = q" if "valid_path p" "valid_path q" "table_at sp ?m p = Some u" "table_at sp ?m q = Some u" for p q u
      using tree_unique [OF tree that(1,2)] that(3,4) at [OF that(1)] at [OF that(2)] by simp
    show "\<exists>a\<in>owned (venv mem). u = table_from_phys sp a ?m" if "valid_path p" "table_at sp ?m p = Some u" for p u
      using tree that at [OF that(1)] by (simp add: vmm_tree_def)
    show "\<not> bit (tables ?m u ! j) 0 \<or> (\<exists>a\<in>owned (venv mem). tables ?m u ! j = table_entry a)"
      if "valid_path (p @ [j])" "table_at sp ?m p = Some u" for p u j
    proof -
      have "valid_path p"
        using that(1) by (simp add: valid_path_snoc)
      then have u: "table_at sp mem p = Some u"
        using that(2) at by simp
      then show ?thesis
        using tree that(1) inner [OF that(1) u] by (simp add: vmm_tree_def)
    qed
  qed
  then show ?thesis
    using assms(1) by (simp add: space_ok_def put_entry_tables)
qed

text \<open>Linking a cleared new table: the paths below it are new and end there, all others are as before.\<close>

lemma linked_table_at:
  assumes "space_ok sp mem" and "table_at sp mem p = Some t" and "valid_path (p @ [i])" and "\<not> bit (tables mem t ! i) 0"
    and m': "\<And>u j. u \<noteq> n \<Longrightarrow> (u, j) \<noteq> (t, i) \<Longrightarrow> tables mem' u ! j = tables mem u ! j"
    and phys: "\<And>a. table_from_phys sp a mem' = table_from_phys sp a mem"
    and zero: "\<And>j. j < 512 \<Longrightarrow> \<not> bit (tables mem' n ! j) 0"
    and link: "next_table sp mem' t i = Inr n" and fresh: "\<And>q. valid_path q \<Longrightarrow> table_at sp mem q \<noteq> Some n"
    and "valid_path q"
  shows "table_at sp mem' q = (if q = p @ [i] then Some n else table_at sp mem q)"
  using \<open>valid_path q\<close>
proof (induction q rule: rev_induct)
  case Nil
  then show ?case
    by (simp add: table_at_def vmm_root_def phys)
next
  case (snoc j q)
  then have q: "valid_path q" "length q < 3" "j < 512"
    by (simp_all add: valid_path_snoc)
  have gone: "table_at sp mem (p @ [i]) = None"
    using inner_entry [OF assms(1-3)] assms(4) table_entry_facts(1) by auto
  have root: "vmm_root sp mem' = vmm_root sp mem"
    by (simp add: vmm_root_def phys)
  show ?case
  proof (cases "q = p @ [i]")
    case True
    have "table_at sp mem' q = Some n" "table_at sp mem q = None"
      using snoc.IH [OF q(1)] True gone by simp_all
    then have "table_at sp mem' (q @ [j]) = None" and "table_at sp mem (q @ [j]) = None"
      unfolding table_at_snoc using absent_next [OF zero [OF q(3)], of sp] by simp_all
    then show ?thesis
      using True by simp
  next
    case False
    show ?thesis
    proof (cases "table_at sp mem q")
      case None
      then show ?thesis
        using snoc.IH [OF q(1)] False assms(2) by (auto simp: table_at_def descend_snoc root)
    next
      case (Some u)
      have "u \<noteq> n"
        using fresh [OF q(1)] Some by auto
      have same: "q = p" if "u = t"
        using tree_unique [of "owned (venv mem)" sp mem q p t] assms(1-3) q(1) Some that
        by (auto simp: space_ok_def valid_path_snoc)
      have at': "table_at sp mem' (q @ [j]) = (case next_table sp mem' u j of Inl _ \<Rightarrow> None | Inr u' \<Rightarrow> Some u')"
        using snoc.IH [OF q(1)] False Some by (simp add: table_at_def descend_snoc)
      show ?thesis
      proof (cases "(u, j) = (t, i)")
        case True
        then show ?thesis
          using at' link same by simp
      next
        case neq: False
        then have "next_table sp mem' u j = next_table sp mem u j"
          using m' [OF \<open>u \<noteq> n\<close> neq] phys by (intro next_table_cong)
        moreover have "q @ [j] \<noteq> p @ [i]"
          using neq Some assms(2) by auto
        ultimately show ?thesis
          unfolding at' by (simp only: table_at_snoc Some option.case if_False simp_thms)
      qed
    qed
  qed
qed

lemma put_link:
  assumes "space_ok sp mem" and "table_at sp mem p = Some t" and "valid_path (p @ [i])" and "\<not> bit (tables mem t ! i) 0"
    and "alloc (venv mem) = (a, c)" and "a \<noteq> VMM_INVALID_PHYS"
  defines "mem' \<equiv> put_entry t i (table_entry a)
      (mem\<lparr>venv := c, tables := (tables mem)(p2v c a := replicate 512 0)\<rparr>)"
  shows "space_ok sp mem'"
    and "\<And>q. valid_path q \<Longrightarrow> table_at sp mem' q = (if q = p @ [i] then Some (p2v c a) else table_at sp mem q)"
    and "\<And>q u. valid_path q \<Longrightarrow> length q = 3 \<Longrightarrow> table_at sp mem q = Some u \<Longrightarrow> tables mem' u = tables mem u"
    and "tables mem' (p2v c a) = replicate 512 0"
proof -
  let ?n = "p2v c a"
  have sp: "alloc_frame sp = Some alloc" "phys_to_virt sp = Some p2v" "good (venv mem)"
    and tree: "vmm_tree (owned (venv mem)) sp mem"
    using assms(1) by (simp_all add: space_ok_def)
  have c: "good c" "a \<notin> owned (venv mem)" "owned c = insert a (owned (venv mem))" "p2v c = p2v (venv mem)"
    using alloc_some [OF sp(3) assms(5,6)] by auto
  have venv: "venv mem' = c" "phys_to_virt sp = Some p2v"
    using sp by (simp_all add: mem'_def put_entry_tables)
  have phys: "table_from_phys sp b mem' = table_from_phys sp b mem" for b
    using sp c(4) by (simp add: table_from_phys_def venv)
  have frame_n: "table_from_phys sp a mem' = ?n" "?n \<noteq> 0"
    using table_of_frame [OF venv(2), of mem' a] c by (simp_all add: venv(1))
  have fresh: "table_at sp mem q \<noteq> Some ?n" if vq: "valid_path q" for q
  proof
    assume "table_at sp mem q = Some ?n"
    then obtain b where b: "b \<in> owned (venv mem)" "?n = table_from_phys sp b mem"
      using tree_owned [OF tree vq] by blast
    then have "p2v c a = p2v c b"
      using table_of_frame(1) [OF sp(2,3) b(1)] c(4) by simp
    then have "a = b"
      using virt_inj [OF c(1), of a b] c(3) b(1) by simp
    then show False
      using b(1) c(2) by simp
  qed
  have p: "valid_path p" "length p < 3" "i < 512"
    using assms(3) by (simp_all add: valid_path_snoc)
  have tn: "t \<noteq> ?n"
    using fresh [OF p(1)] assms(2) by auto
  have tabs: "tables mem' = (tables mem)(?n := replicate 512 0, t := (tables mem t)[i := table_entry a])"
    using tn by (simp add: mem'_def put_entry_tables fun_upd_twist)
  have len: "length (tables mem u) = 512" for u
    using tree by (simp add: vmm_tree_def)
  have "tables mem' t ! i = table_entry a"
    using p(3) len by (simp add: tabs)
  then have link: "next_table sp mem' t i = Inr ?n"
    using link_next [OF venv(2), of mem' a t i] c frame_n by (simp add: venv(1))
  show at: "table_at sp mem' q = (if q = p @ [i] then Some ?n else table_at sp mem q)" if "valid_path q" for q
  proof (rule linked_table_at [OF assms(1-4) _ phys _ link fresh that])
    show "tables mem' u ! j = tables mem u ! j" if "u \<noteq> ?n" "(u, j) \<noteq> (t, i)" for u j
      using that tn by (auto simp: tabs)
    show "\<not> bit (tables mem' ?n ! j) 0" if "j < 512" for j
      using that tn by (simp add: tabs)
  qed
  show "tables mem' ?n = replicate 512 0"
    using tn by (simp add: tabs)
  have unique: "q = p" if "valid_path q" "table_at sp mem q = Some t" for q
    using tree_unique [OF tree that(1) p(1) that(2) assms(2)] .
  show "tables mem' u = tables mem u" if "valid_path q" "length q = 3" "table_at sp mem q = Some u" for q u
    using that fresh [of q] unique [of q] p(2) by (auto simp: tabs)
  have "vmm_tree (owned c) sp mem'"
    unfolding vmm_tree_def
  proof (intro conjI allI impI)
    show "root_paddr sp \<in> owned c" "length (tables mem' u) = 512" for u
      using tree c(3) len by (auto simp: vmm_tree_def tabs)
    show "q = r" if "valid_path q" "valid_path r" "table_at sp mem' q = Some u" "table_at sp mem' r = Some u" for q r u
    proof -
      have "q = r" if "table_at sp mem q = Some u" "table_at sp mem r = Some u"
        using tree_unique [OF tree \<open>valid_path q\<close> \<open>valid_path r\<close> that] .
      then show ?thesis
        using that fresh by (auto simp: at split: if_splits)
    qed
    show "\<exists>b\<in>owned c. u = table_from_phys sp b mem'" if "valid_path q" "table_at sp mem' q = Some u" for q u
      using tree that frame_n(1) c(3) phys by (auto simp: at vmm_tree_def split: if_splits)
    show "\<not> bit (tables mem' u ! j) 0 \<or> (\<exists>b\<in>owned c. tables mem' u ! j = table_entry b)"
      if q: "valid_path (q @ [j])" "table_at sp mem' q = Some u" for q u j
    proof (cases "u = ?n")
      case True
      then show ?thesis
        using tn q(1) by (simp add: tabs valid_path_snoc)
    next
      case False
      then have "table_at sp mem q = Some u"
        using q by (auto simp: at valid_path_snoc split: if_splits)
      then have "\<not> bit (tables mem u ! j) 0 \<or> (\<exists>b\<in>owned (venv mem). tables mem u ! j = table_entry b)"
        using tree_entry [OF tree q(1)] by blast
      then show ?thesis
        using False c(3) len q(1) by (cases "u = t"; cases "j = i") (auto simp: tabs valid_path_snoc)
    qed
  qed
  then show "space_ok sp mem'"
    using sp c(1) by (simp add: space_ok_def venv(1))
qed

lemma zero_page: "length (tables mem t) = 512 \<Longrightarrow> vmm_zero_page (tables mem t) = replicate 512 0"
proof -
  assume len: "length (tables mem t) = 512"
  have "fold (\<lambda>i p. p[i := 0]) [0..<n] xs = replicate n 0 @ drop n xs" if "n \<le> length xs" for n and xs :: "u64 list"
    using that
  proof (induction n)
    case (Suc n)
    then have "(replicate n 0 @ drop n xs)[n := 0] = replicate n 0 @ 0 # drop (Suc n) xs"
      by (simp add: list_update_append Cons_nth_drop_Suc [symmetric])
    then show ?case
      using Suc by (simp add: replicate_append_same)
  qed simp
  from this [of 512 "tables mem t"] show ?thesis
    using len by (simp add: vmm_zero_page_def VMM_ENTRIES_PER_TABLE_def del: upt_rec_numeral)
qed

abbreviation leaf_path :: "u64 \<Rightarrow> nat list" where
  "leaf_path v \<equiv> [idx_pml4 v, idx_pdpt v, idx_pd v]"

lemma leaf_path_valid: "valid_path (leaf_path v)" "length (leaf_path v) = 3"
  using index_bound [of v] by (simp_all add: valid_path_def)

text \<open>
  One level of a mapping walk: the next table is there afterwards, or memory is exhausted; no mapping
  changes.
\<close>

lemma get_or_alloc:
  assumes "space_ok sp mem" and "table_at sp mem p = Some t" and "valid_path (p @ [i])"
    and "get_or_alloc_next_table sp t i mem = (r, mem')"
  shows "space_ok sp mem'" and "\<And>v. entry_of sp mem' v = entry_of sp mem v"
    and "invalidated mem' = invalidated mem"
    and "(\<exists>u. r = Inr u \<and> table_at sp mem' (p @ [i]) = Some u) \<or> (r = Inl VMM_ERR_NOMEM \<and> exhausted (venv mem'))"
proof -
  have sp: "alloc_frame sp = Some alloc" "phys_to_virt sp = Some p2v" "good (venv mem)"
    and tree: "vmm_tree (owned (venv mem)) sp mem"
    using assms(1) by (simp_all add: space_ok_def)
  have "space_ok sp mem' \<and> (\<forall>v. entry_of sp mem' v = entry_of sp mem v) \<and> invalidated mem' = invalidated mem \<and>
    ((\<exists>u. r = Inr u \<and> table_at sp mem' (p @ [i]) = Some u) \<or> (r = Inl VMM_ERR_NOMEM \<and> exhausted (venv mem')))"
  proof (cases "bit (tables mem t ! i) 0")
    case True
    then obtain a where a: "a \<in> owned (venv mem)" "tables mem t ! i = table_entry a"
      "table_at sp mem (p @ [i]) = Some (table_from_phys sp a mem)"
      using inner_entry [OF assms(1-3)] by blast
    then have "r = Inr (table_from_phys sp a mem)" "mem' = mem"
      using assms(4) table_of_frame(2) [OF sp(2,3) a(1)] frame_aligned [OF sp(3) a(1)] True
      by (auto simp: get_or_alloc_next_table_def Let_def and_flag table_entry_facts)
    then show ?thesis
      using assms(1) a(3) by simp
  next
    case False
    obtain a c where ac: "alloc (venv mem) = (a, c)"
      by (cases "alloc (venv mem)")
    show ?thesis
    proof (cases "a = VMM_INVALID_PHYS")
      case True
      then have "c = venv mem" "exhausted (venv mem)"
        using alloc_none [OF sp(3)] ac by auto
      moreover have "r = Inl VMM_ERR_NOMEM" "mem' = mem\<lparr>venv := c\<rparr>"
        using assms(4) False True ac sp(1) by (simp_all add: get_or_alloc_next_table_def Let_def and_flag)
      ultimately show ?thesis
        using assms(1) by simp
    next
      case some: False
      let ?m = "put_entry t i (table_entry a) (mem\<lparr>venv := c, tables := (tables mem)(p2v c a := replicate 512 0)\<rparr>)"
      note pl = put_link [OF assms(1-3) False ac some]
      have c: "good c" "a \<in> owned c"
        using alloc_some [OF sp(3) ac some] by auto
      have v: "vmm_is_aligned_4k a" "p2v c a \<noteq> 0" "a AND VMM_PTE_ADDR_MASK = a"
        using frame_aligned [OF c] frame_virt [OF c] by simp_all
      have "length (tables mem (p2v c a)) = 512"
        using tree by (simp add: vmm_tree_def)
      then have rm: "r = Inr (p2v c a)" "mem' = ?m"
        using assms(4) False some ac sp(1,2) v zero_page [of mem "p2v c a"]
        by (auto simp: get_or_alloc_next_table_def Let_def and_flag table_from_phys_def table_entry_def)
      have "entry_of sp ?m w = entry_of sp mem w" for w
      proof (cases "leaf_path w = p @ [i]")
        case True
        then have "table_at sp ?m (leaf_path w) = Some (p2v c a)" "table_at sp mem (leaf_path w) = None"
          using pl(2) [OF leaf_path_valid(1), of w] inner_entry [OF assms(1-3)] False table_entry_facts(1) by auto
        then show ?thesis
          using pl(4) index_bound(4) [of w] by (simp add: entry_of_def Let_def)
      next
        case False
        have "table_at sp ?m (leaf_path w) = table_at sp mem (leaf_path w)"
          by (simp only: pl(2) [OF leaf_path_valid(1)] False if_False)
        then show ?thesis
          using pl(3) [OF leaf_path_valid, of w] by (auto simp: entry_of_def split: option.splits)
      qed
      then show ?thesis
        using pl(1) pl(2) [OF assms(3)] unfolding rm by (simp add: put_entry_def)
    qed
  qed
  then show "space_ok sp mem'" "\<And>v. entry_of sp mem' v = entry_of sp mem v" "invalidated mem' = invalidated mem"
    "(\<exists>u. r = Inr u \<and> table_at sp mem' (p @ [i]) = Some u) \<or> (r = Inl VMM_ERR_NOMEM \<and> exhausted (venv mem'))"
    by simp_all
qed

text \<open>A walk of query and unmap reaches the last table or reports that there is none.\<close>

lemma walk_run:
  assumes "space_ok sp mem" and "vmm_is_canonical v" and "vmm_is_aligned_4k v"
  shows "walk_to_pt sp v mem =
    (case table_at sp mem (leaf_path v) of None \<Rightarrow> Inl VMM_ERR_NOT_FOUND | Some pt \<Rightarrow> Inr pt, mem)"
proof -
  let ?i = "idx_pml4 v" and ?j = "idx_pdpt v" and ?k = "idx_pd v"
  have step: "next_table sp mem t i = (case table_at sp mem (p @ [i]) of None \<Rightarrow> Inl VMM_ERR_NOT_FOUND | Some u \<Rightarrow> Inr u)"
    if "table_at sp mem p = Some t" "valid_path (p @ [i])" for p t i
    using inner_entry [OF assms(1) that] by auto
  have cut: "table_at sp mem (p @ [i]) = None" if "table_at sp mem p = None" for p i
    using that by (simp add: table_at_snoc)
  have valid: "valid_path ([] @ [?i])" "valid_path ([?i] @ [?j])" "valid_path ([?i, ?j] @ [?k])"
    using index_bound [of v] by (simp_all add: valid_path_def)
  note r = step [OF root_reached valid(1)]
  show ?thesis
    using space_root [OF assms(1)] assms(2,3) r step [of "[?i]", OF _ valid(2)] step [of "[?i, ?j]", OF _ valid(3)]
      cut [of "[?i]" ?j] cut [of "[?i, ?j]" ?k]
    by (auto simp: walk_to_pt_def prog_bind_def prog_run vmm_root_def split: option.splits)
qed

lemma query_run:
  assumes "space_ok sp mem" and "vmm_is_canonical v" and "vmm_is_aligned_4k v"
  shows "vmm_query_page (Some sp) v True mem = (case entry_of sp mem v of
      None \<Rightarrow> (VMM_ERR_NOT_FOUND, None)
    | Some e \<Rightarrow> (VMM_MAP_OK, Some \<lparr>map_vaddr = v, map_paddr = e AND VMM_PTE_ADDR_MASK,
                   map_flags = e AND NOT VMM_PTE_ADDR_MASK\<rparr>))"
  using walk_run [OF assms]
  by (auto simp: vmm_query_page_def vmm_query_body_def prog_bind_def prog_run entry_of_def Let_def and_flag
      split: option.splits)

text \<open>Writing the entry of one page changes no other page.\<close>

lemma put_page:
  assumes "space_ok sp mem" and "table_at sp mem (leaf_path v) = Some pt"
    and "vmm_is_canonical v" and "vmm_is_aligned_4k v"
  shows "space_ok sp (put_entry pt (idx_pt v) e mem)"
    and "entry_of sp (put_entry pt (idx_pt v) e mem) v = (if bit e 0 then Some e else None)"
    and "\<And>w. vmm_is_canonical w \<Longrightarrow> vmm_is_aligned_4k w \<Longrightarrow> w \<noteq> v \<Longrightarrow>
      entry_of sp (put_entry pt (idx_pt v) e mem) w = entry_of sp mem w"
proof -
  let ?m = "put_entry pt (idx_pt v) e mem"
  have at: "table_at sp ?m q = table_at sp mem q" if "valid_path q" for q
    using leaf_table_at [OF assms(1) leaf_path_valid assms(2) that] .
  have tree: "vmm_tree (owned (venv mem)) sp mem"
    using assms(1) by (simp add: space_ok_def)
  have len: "length (tables mem pt) = 512"
    using tree by (simp add: vmm_tree_def)
  show "space_ok sp ?m"
    using leaf_put [OF assms(1) leaf_path_valid assms(2)] .
  show "entry_of sp ?m v = (if bit e 0 then Some e else None)"
    using at [OF leaf_path_valid(1)] assms(2) len index_bound(4) [of v]
    by (simp add: entry_of_def Let_def put_entry_tables)
  show "entry_of sp ?m w = entry_of sp mem w" if w: "vmm_is_canonical w" "vmm_is_aligned_4k w" "w \<noteq> v" for w
  proof (cases "table_at sp mem (leaf_path w)")
    case (Some u)
    have "tables ?m u ! idx_pt w = tables mem u ! idx_pt w"
    proof (cases "u = pt")
      case True
      then have "leaf_path w = leaf_path v"
        using tree_unique [OF tree leaf_path_valid(1) leaf_path_valid(1), of w pt v] Some assms(2) by simp
      then have "idx_pt w \<noteq> idx_pt v"
        using address_by_index [OF w(1,2) assms(3,4)] w(3) by auto
      then show ?thesis
        using True by (simp add: put_entry_tables)
    qed (simp add: put_entry_tables)
    then show ?thesis
      using at [OF leaf_path_valid(1), of w] Some by (simp add: entry_of_def)
  qed (use at [OF leaf_path_valid(1), of w] in \<open>simp add: entry_of_def\<close>)
qed

lemma alloc_path_run:
  assumes "space_ok sp mem" and "table_at sp mem p = Some t" and "valid_path (p @ is)"
    and "alloc_path sp t is mem = (r, mem')"
  shows "space_ok sp mem' \<and> (\<forall>v. entry_of sp mem' v = entry_of sp mem v) \<and> invalidated mem' = invalidated mem \<and>
    ((\<exists>u. r = Inr u \<and> table_at sp mem' (p @ is) = Some u) \<or> (r = Inl VMM_ERR_NOMEM \<and> exhausted (venv mem')))"
  using assms
proof (induction "is" arbitrary: t p mem)
  case Nil
  then show ?case
    by (simp add: prog_run)
next
  case (Cons i "is")
  obtain r1 m1 where g: "get_or_alloc_next_table sp t i mem = (r1, m1)"
    by fastforce
  have "valid_path (p @ [i])"
    using Cons.prems(3) by (simp add: valid_path_def)
  note l = get_or_alloc [OF Cons.prems(1,2) this g]
  show ?case
  proof (cases r1)
    case (Inl e)
    then show ?thesis
      using Cons.prems(4) g l by (auto simp: prog_bind_Inl)
  next
    case (Inr u)
    then have "alloc_path sp u is m1 = (r, mem')"
      using Cons.prems(4) g by (simp add: prog_bind_Inr)
    then show ?thesis
      using Cons.IH [OF l(1), of "p @ [i]" u] l Inr Cons.prems(3) by simp
  qed
qed

lemma map_run:
  assumes "space_ok sp mem" and "vmm_is_canonical v" and "vmm_is_aligned_4k v" and "vmm_is_aligned_4k a"
    and "vmm_map_page (Some sp) v a flags mem = (st, mem')"
  shows "space_ok sp mem' \<and> invalidated mem' = invalidated mem \<and>
    (\<forall>w. vmm_is_canonical w \<longrightarrow> vmm_is_aligned_4k w \<longrightarrow> w \<noteq> v \<longrightarrow> entry_of sp mem' w = entry_of sp mem w) \<and>
    (st = VMM_MAP_OK \<and> entry_of sp mem v = None \<and> entry_of sp mem' v = Some (page_entry a flags) \<or>
     st = VMM_ERR_EXISTS \<and> entry_of sp mem v \<noteq> None \<and> entry_of sp mem' v = entry_of sp mem v \<or>
     st = VMM_ERR_NOMEM \<and> exhausted (venv mem') \<and> entry_of sp mem' v = entry_of sp mem v)"
proof -
  obtain r m where g: "alloc_path sp (vmm_root sp mem) (leaf_path v) mem = (r, m)"
    by fastforce
  have l: "space_ok sp m" "\<And>w. entry_of sp m w = entry_of sp mem w" "invalidated m = invalidated mem"
    "(\<exists>u. r = Inr u \<and> table_at sp m (leaf_path v) = Some u) \<or> (r = Inl VMM_ERR_NOMEM \<and> exhausted (venv m))"
    using alloc_path_run [OF assms(1) root_reached _ g] leaf_path_valid(1) [of v] by auto
  have run: "vmm_map_body sp v a flags mem =
    prog_bind (alloc_path sp (vmm_root sp mem) (leaf_path v)) (\<lambda>pt.
    prog_bind prog_get (\<lambda>mem.
    prog_bind (prog_fail_if (tables mem pt ! idx_pt v AND VMM_PTE_PRESENT \<noteq> 0) VMM_ERR_EXISTS) (\<lambda>_.
    prog_modify (put_entry pt (idx_pt v) (page_entry a flags))))) mem"
    using space_root [OF assms(1)] assms(2-4)
    by (simp add: vmm_map_body_def prog_fail_if_def prog_bind_Inr [OF prog_get_run] vmm_root_def page_entry_def
        prog_bind_assoc)
  show ?thesis
  proof (cases r)
    case (Inl e)
    then have "st = e" "mem' = m"
      using assms(5) run g by (simp_all add: vmm_map_page_def prog_bind_Inl)
    then show ?thesis
      using l Inl by simp
  next
    case (Inr pt)
    then have pt: "table_at sp m (leaf_path v) = Some pt"
      using l(4) by simp
    have st: "(st, mem') = (if bit (tables m pt ! idx_pt v) 0 then (VMM_ERR_EXISTS, m)
        else (VMM_MAP_OK, put_entry pt (idx_pt v) (page_entry a flags) m))"
      using assms(5) run g Inr by (auto simp: vmm_map_page_def prog_bind_def prog_run and_flag)
    have "(entry_of sp m v \<noteq> None) = bit (tables m pt ! idx_pt v) 0"
      using pt by (simp add: entry_of_def Let_def)
    then have bound: "(entry_of sp mem v \<noteq> None) = bit (tables m pt ! idx_pt v) 0"
      using l(2) by simp
    show ?thesis
      using st bound l page_entry_facts(1) [of a flags]
        put_page [OF l(1) pt assms(2,3), where e = "page_entry a flags"]
      by (cases "bit (tables m pt ! idx_pt v) 0") (simp_all add: put_entry_invalidated)
  qed
qed

lemma unmap_run:
  assumes "space_ok sp mem" and "vmm_is_canonical v" and "vmm_is_aligned_4k v"
    and "vmm_unmap_page (Some sp) v mem = (st, mem')"
  shows "space_ok sp mem' \<and> entry_of sp mem' v = None \<and>
    (\<forall>w. vmm_is_canonical w \<longrightarrow> vmm_is_aligned_4k w \<longrightarrow> w \<noteq> v \<longrightarrow> entry_of sp mem' w = entry_of sp mem w) \<and>
    (if entry_of sp mem v = None then st = VMM_ERR_NOT_FOUND \<and> mem' = mem
     else st = VMM_MAP_OK \<and> invalidated mem' = v # invalidated mem)"
proof (cases "entry_of sp mem v")
  case None
  then have "st = VMM_ERR_NOT_FOUND" "mem' = mem"
    using assms(4) walk_run [OF assms(1-3)]
    by (auto simp: vmm_unmap_page_def vmm_unmap_body_def prog_bind_def prog_run entry_of_def Let_def and_flag
        split: option.splits if_splits)
  then show ?thesis
    using None assms(1) by simp
next
  case (Some e)
  then obtain pt where pt: "table_at sp mem (leaf_path v) = Some pt" "bit (tables mem pt ! idx_pt v) 0"
    by (auto simp: entry_of_def Let_def split: option.splits if_splits)
  let ?m = "put_entry pt (idx_pt v) 0 mem"
  have st: "st = VMM_MAP_OK" "mem' = vmm_invalidate_page v ?m"
    using assms(4) walk_run [OF assms(1-3)] pt
    by (auto simp: vmm_unmap_page_def vmm_unmap_body_def prog_bind_def prog_run and_flag)
  have phys: "table_from_phys sp b mem' = table_from_phys sp b ?m" "tables mem' = tables ?m" "venv mem' = venv ?m" for b
    by (simp_all add: st vmm_invalidate_page_def table_from_phys_def split: option.split)
  have "next_table sp mem' t i = next_table sp ?m t i" for t i
    by (rule next_table_cong) (simp_all add: phys)
  then have "descend sp mem' t p = descend sp ?m t p" for t p
    by (induction p arbitrary: t) (simp_all split: sum.split)
  then have at: "table_at sp mem' p = table_at sp ?m p" for p
    by (simp add: table_at_def vmm_root_def phys)
  then have ent: "entry_of sp mem' w = entry_of sp ?m w" for w
    by (simp add: entry_of_def phys(2) split: option.split)
  have "vmm_tree owns sp mem' = vmm_tree owns sp ?m" for owns
    unfolding vmm_tree_def at phys ..
  then have "space_ok sp mem' = space_ok sp ?m"
    by (simp add: space_ok_def phys)
  then show ?thesis
    using put_page [OF assms(1) pt(1) assms(2,3), where e = 0] Some ent by (simp add: st(1))
      (simp add: st vmm_invalidate_page_def put_entry_def)
qed

end

section \<open>The kernel's frame allocator is a frame source\<close>

definition m7_good :: "kmain_globals \<Rightarrow> bool" where
  "m7_good g \<longleftrightarrow> pmm_inv (g_pmm g) \<and> unat (max_phys (g_pmm g)) \<le> 2 ^ 52 \<and>
     unat (g_hhdm_offset g) + unat (max_phys (g_pmm g)) \<le> 2 ^ 64"

definition m7_owned :: "kmain_globals \<Rightarrow> u64 set" where
  "m7_owned g = {a. 4096 dvd unat a \<and> 0 < unat a \<and> unat a < unat (max_phys (g_pmm g)) \<and>
     frame_of a \<notin> free_set (g_pmm g)}"

definition m7_exhausted :: "kmain_globals \<Rightarrow> bool" where
  "m7_exhausted g \<longleftrightarrow> free_set (g_pmm g) = {}"

lemma aligned_dvd: "vmm_is_aligned_4k a \<longleftrightarrow> 4096 dvd unat a"
  using page_aligned [of a] by (simp add: vmm_is_aligned_4k_def VMM_PAGE_SIZE_def PMM_PAGE_SIZE_def)

lemma masked_frame:
  assumes "4096 dvd unat a" and "unat a < 2 ^ 52"
  shows "a AND VMM_PTE_ADDR_MASK = a"
proof -
  have "unat (take_bit 52 a) = unat a"
    using assms(2) by (simp add: unat_take_bit_mod)
  then have "take_bit 52 a = a"
    by (simp add: word_unat_eq_iff)
  then have "bit a n \<Longrightarrow> n < 52" for n
    by (metis bit_take_bit_iff)
  moreover have "bit a n \<Longrightarrow> 12 \<le> n" for n
    using assms(1) by (metis aligned_bits aligned_dvd not_le)
  ultimately show ?thesis
    by (intro bit_word_eqI) (auto simp: bit_and_iff addr_mask_bits)
qed

lemma m7_alloc_cases:
  assumes "m7_good g"
  shows "m7_exhausted g \<and> m7_vmm_alloc g = (PMM_INVALID_FRAME, g) \<or>
    (\<exists>f q. f \<in> free_set (g_pmm g) \<and> m7_vmm_alloc g = (of_nat f * PMM_PAGE_SIZE, g\<lparr>g_pmm := q\<rparr>) \<and>
       unat (of_nat f * PMM_PAGE_SIZE) = f * 4096 \<and> 0 < f \<and> f * 4096 < unat (max_phys (g_pmm g)) \<and>
       pmm_inv q \<and> same_geometry (g_pmm g) q \<and> free_set q = free_set (g_pmm g) - {f})"
proof (cases "free_set (g_pmm g) = {}")
  case True
  then show ?thesis
    using pmm_alloc_frame_spec [of "g_pmm g"] assms by (simp add: m7_vmm_alloc_def m7_good_def m7_exhausted_def)
next
  case False
  have inv: "pmm_inv (g_pmm g)"
    using assms by (simp add: m7_good_def)
  define f where "f = Min (free_set (g_pmm g))"
  have f: "f \<in> free_set (g_pmm g)"
    using False by (simp add: f_def)
  then have "f \<noteq> 0"
    using inv by (metis pmm_inv_def)
  have "f < unat (frame_count (g_pmm g))"
    using f by (simp add: free_set_def)
  then have bound: "f * 4096 < unat (max_phys (g_pmm g))"
    using inv by (simp add: pmm_inv_def pmm_wf_def)
  then have "f * 4096 < 2 ^ 64"
    using unsigned_less [of "max_phys (g_pmm g)", where 'a = nat] by simp
  then have "unat (of_nat f * PMM_PAGE_SIZE) = f * 4096"
    by (subst unat_mult_nowrap) (simp_all add: unat_of_nat_small)
  moreover obtain q where "pmm_alloc_frame (Some (g_pmm g)) = (of_nat f * PMM_PAGE_SIZE, Some q)"
    "pmm_inv q" "same_geometry (g_pmm g) q" "free_set q = free_set (g_pmm g) - {f}"
    using pmm_alloc_frame_spec [OF inv] False by (auto simp: f_def)
  ultimately show ?thesis
    using f \<open>f \<noteq> 0\<close> bound by (intro disjI2 exI [of _ f] exI [of _ q]) (simp add: m7_vmm_alloc_def)
qed

lemma frame_of_page_addr: "unat a = f * 4096 \<Longrightarrow> frame_of a = f"
  by (simp add: frame_of_def)

lemma frame_of_inj: "4096 dvd unat a \<Longrightarrow> 4096 dvd unat b \<Longrightarrow> frame_of a = frame_of b \<Longrightarrow> a = b"
  by (metis dvd_div_mult_self frame_of_def word_unat_eq_iff)

interpretation m7: frame_source m7_vmm_alloc m7_phys_to_virt m7_good m7_owned m7_exhausted
proof
  fix g g' a b
  assume g: "m7_good g"
  show "g' = g \<and> m7_exhausted g" if "m7_vmm_alloc g = (VMM_INVALID_PHYS, g')"
  proof -
    have odd: "\<not> 4096 dvd unat VMM_INVALID_PHYS"
      by (simp add: VMM_INVALID_PHYS_def)
    from m7_alloc_cases [OF g] show ?thesis
    proof (elim disjE exE conjE)
      fix f q
      assume "m7_vmm_alloc g = (of_nat f * PMM_PAGE_SIZE, g\<lparr>g_pmm := q\<rparr>)"
        and "unat (of_nat f * PMM_PAGE_SIZE) = f * 4096"
      then have "unat VMM_INVALID_PHYS = f * 4096"
        using that by simp
      then show ?thesis
        using odd by simp
    qed (use that in simp)
  qed
  show "m7_good g' \<and> a \<notin> m7_owned g \<and> m7_owned g' = insert a (m7_owned g) \<and> m7_phys_to_virt g' = m7_phys_to_virt g"
    if alloc: "m7_vmm_alloc g = (a, g')" "a \<noteq> VMM_INVALID_PHYS"
  proof -
    have "PMM_INVALID_FRAME = VMM_INVALID_PHYS"
      by (simp add: PMM_INVALID_FRAME_def VMM_INVALID_PHYS_def)
    then obtain f q where f: "f \<in> free_set (g_pmm g)" "g' = g\<lparr>g_pmm := q\<rparr>" "unat a = f * 4096" "0 < f"
      "f * 4096 < unat (max_phys (g_pmm g))" "pmm_inv q" "same_geometry (g_pmm g) q"
      "free_set q = free_set (g_pmm g) - {f}"
      using m7_alloc_cases [OF g] alloc by auto
    then have "frame_of a = f"
      by (intro frame_of_page_addr)
    moreover have "x = a" if "4096 dvd unat x" "frame_of x = f" for x
      using that f(3) \<open>frame_of a = f\<close> by (intro frame_of_inj) simp_all
    ultimately have "m7_owned g' = insert a (m7_owned g)" "a \<notin> m7_owned g"
      using f by (auto simp: m7_owned_def same_geometry_def)
    moreover have "m7_good g'"
      using g f by (simp add: m7_good_def same_geometry_def)
    ultimately show ?thesis
      using f(2) by (simp add: m7_phys_to_virt_def fun_eq_iff)
  qed
  show "vmm_is_aligned_4k a \<and> a AND VMM_PTE_ADDR_MASK = a" if "a \<in> m7_owned g"
    using that g masked_frame [of a] by (auto simp: m7_owned_def m7_good_def aligned_dvd)
  have virt: "unat (m7_phys_to_virt g x) = unat (g_hhdm_offset g) + unat x" if "x \<in> m7_owned g" for x
    unfolding m7_phys_to_virt_def
    by (rule unat_add_nowrap) (use that g in \<open>simp add: m7_owned_def m7_good_def\<close>)
  show "m7_phys_to_virt g a \<noteq> 0" if "a \<in> m7_owned g"
    using virt [OF that] that by (auto simp: m7_owned_def)
  show "a = b" if "a \<in> m7_owned g" "b \<in> m7_owned g" "m7_phys_to_virt g a = m7_phys_to_virt g b"
    using virt [OF that(1)] virt [OF that(2)] that(3) by (simp add: word_unat_eq_iff)
qed

section \<open>The kernel's address space\<close>

definition m7_space :: "kmain_globals vmm_space \<Rightarrow> kmain_globals vmm_mem \<Rightarrow> bool" where
  "m7_space sp mem \<longleftrightarrow> space_over m7_vmm_alloc m7_phys_to_virt m7_good m7_owned sp mem"

abbreviation vpage :: "u64 \<Rightarrow> bool" where
  "vpage v \<equiv> vmm_is_canonical v \<and> vmm_is_aligned_4k v"

lemma query_eq_iff:
  assumes "m7_space sp mem" and "m7_space sp mem'" and "vpage v" and "entry_of sp mem' v = entry_of sp mem v"
  shows "vmm_query_page (Some sp) v True mem' = vmm_query_page (Some sp) v True mem"
  using m7.query_run [of sp mem v] m7.query_run [of sp mem' v] assms by (simp add: m7_space_def)

lemma query_status:
  assumes "m7_space sp mem" and "vpage v"
  shows "fst (vmm_query_page (Some sp) v True mem) = (if entry_of sp mem v = None then VMM_ERR_NOT_FOUND else VMM_MAP_OK)"
  using m7.query_run [of sp mem v] assms by (auto simp: m7_space_def split: option.splits)

text \<open>
  Property C5. In the kernel's address space \<^verbatim>\<open>vmm_map_page\<close> on a canonical page address either maps the
  page, so that a query returns the frame (its bits 12 to 51) and the permitted flags; or reports that
  the page is mapped already and leaves its mapping; or reports that no frame is left for a page table,
  and the frame allocator is then exhausted. In every case the query of every other page is unchanged,
  and the address space stays well formed: a tree of distinct, owned page tables.
\<close>

theorem vmm_map_query:
  assumes "m7_space sp mem" and "vpage v" and "vmm_is_aligned_4k paddr"
    and "vmm_map_page (Some sp) v paddr flags mem = (st, mem')"
  shows "m7_space sp mem' \<and>
    (\<forall>w. vpage w \<longrightarrow> w \<noteq> v \<longrightarrow> vmm_query_page (Some sp) w True mem' = vmm_query_page (Some sp) w True mem) \<and>
    (let q = vmm_query_page (Some sp) v True mem; q' = vmm_query_page (Some sp) v True mem' in
     case st of
       VMM_MAP_OK \<Rightarrow> fst q = VMM_ERR_NOT_FOUND \<and>
         q' = (VMM_MAP_OK, Some \<lparr>map_vaddr = v, map_paddr = paddr AND VMM_PTE_ADDR_MASK,
                map_flags = VMM_PTE_PRESENT OR (flags AND vmm_allowed)\<rparr>)
     | VMM_ERR_EXISTS \<Rightarrow> fst q = VMM_MAP_OK \<and> q' = q
     | VMM_ERR_NOMEM \<Rightarrow> q' = q \<and> pmm_free_count (Some (g_pmm (venv mem'))) = 0
     | _ \<Rightarrow> False)"
proof -
  note run = m7.map_run [OF assms(1) [unfolded m7_space_def] _ _ assms(3,4)]
  have sp': "m7_space sp mem'"
    using run assms(2) by (simp add: m7_space_def)
  have other: "vmm_query_page (Some sp) w True mem' = vmm_query_page (Some sp) w True mem" if "vpage w" "w \<noteq> v" for w
    using query_eq_iff [OF assms(1) sp' that(1)] run assms(2) that by simp
  have free: "pmm_free_count (Some (g_pmm (venv mem'))) = 0" if "m7_exhausted (venv mem')"
  proof -
    have "pmm_wf (g_pmm (venv mem'))"
      using sp' by (simp add: m7_space_def space_over_def m7_good_def pmm_inv_def)
    then show ?thesis
      using that by (simp add: m7_exhausted_def pmm_wf_def pmm_free_count_def unat_eq_0)
  qed
  have same: "vmm_query_page (Some sp) v True mem' = vmm_query_page (Some sp) v True mem"
    if "entry_of sp mem' v = entry_of sp mem v"
    using query_eq_iff [OF assms(1) sp' assms(2) that] .
  have new: "vmm_query_page (Some sp) v True mem' = (VMM_MAP_OK, Some \<lparr>map_vaddr = v, map_paddr = paddr AND VMM_PTE_ADDR_MASK,
      map_flags = VMM_PTE_PRESENT OR (flags AND vmm_allowed)\<rparr>)" if "entry_of sp mem' v = Some (page_entry paddr flags)"
    using m7.query_run [of sp mem' v] sp' assms(2) that by (simp add: m7_space_def page_entry_facts)
  have "st = VMM_MAP_OK \<and> entry_of sp mem v = None \<and> entry_of sp mem' v = Some (page_entry paddr flags) \<or>
     st = VMM_ERR_EXISTS \<and> entry_of sp mem v \<noteq> None \<and> entry_of sp mem' v = entry_of sp mem v \<or>
     st = VMM_ERR_NOMEM \<and> m7_exhausted (venv mem') \<and> entry_of sp mem' v = entry_of sp mem v"
    using run assms(2) by blast
  then show ?thesis
  proof (elim disjE conjE)
    assume "st = VMM_MAP_OK" "entry_of sp mem v = None" "entry_of sp mem' v = Some (page_entry paddr flags)"
    then show ?thesis
      using sp' other query_status [OF assms(1,2)] new by (simp add: Let_def)
  next
    assume "st = VMM_ERR_EXISTS" "entry_of sp mem v \<noteq> None" "entry_of sp mem' v = entry_of sp mem v"
    then show ?thesis
      using sp' other query_status [OF assms(1,2)] same by (simp add: Let_def)
  next
    assume "st = VMM_ERR_NOMEM" "m7_exhausted (venv mem')" "entry_of sp mem' v = entry_of sp mem v"
    then show ?thesis
      using sp' other same free by (simp add: Let_def)
  qed
qed

text \<open>
  Property C7. \<^verbatim>\<open>vmm_unmap_page\<close> on a canonical page address removes exactly that page's mapping and
  invalidates its translation, or reports that there is none and changes nothing; queries of other
  pages are unchanged.
\<close>

theorem vmm_unmap_query:
  assumes "m7_space sp mem" and "vpage v" and "vmm_unmap_page (Some sp) v mem = (st, mem')"
  shows "m7_space sp mem' \<and> vmm_query_page (Some sp) v True mem' = (VMM_ERR_NOT_FOUND, None) \<and>
    (\<forall>w. vpage w \<longrightarrow> w \<noteq> v \<longrightarrow> vmm_query_page (Some sp) w True mem' = vmm_query_page (Some sp) w True mem) \<and>
    (if fst (vmm_query_page (Some sp) v True mem) = VMM_MAP_OK
     then st = VMM_MAP_OK \<and> invalidated mem' = v # invalidated mem
     else st = VMM_ERR_NOT_FOUND \<and> mem' = mem)"
proof -
  note run = m7.unmap_run [OF assms(1) [unfolded m7_space_def] _ _ assms(3)]
  have sp': "m7_space sp mem'"
    using run assms(2) by (simp add: m7_space_def)
  moreover have "vmm_query_page (Some sp) w True mem' = vmm_query_page (Some sp) w True mem" if "vpage w" "w \<noteq> v" for w
    using query_eq_iff [OF assms(1) sp' that(1)] run assms(2) that by simp
  moreover have "vmm_query_page (Some sp) v True mem' = (VMM_ERR_NOT_FOUND, None)"
    using m7.query_run [of sp mem' v] sp' assms(2) run by (simp add: m7_space_def)
  ultimately show ?thesis
    using query_status [OF assms(1,2)] run assms(2) by auto
qed

section \<open>From initialisation on\<close>

lemma init_space:
  assumes "m7_good (venv mem)" and "\<forall>t. length (tables mem t) = 512" and "m7_vmm_init g_vmm mem = Some (sp, mem')"
  shows "m7_space sp mem' \<and> (\<forall>v. entry_of sp mem' v = None)"
proof -
  have "PMM_INVALID_FRAME = VMM_INVALID_PHYS"
    by (simp add: PMM_INVALID_FRAME_def VMM_INVALID_PHYS_def)
  then obtain a g where ag: "m7_vmm_alloc (venv mem) = (a, g)" "a \<noteq> VMM_INVALID_PHYS"
    and sp: "sp = \<lparr>root_paddr = a, alloc_frame = Some m7_vmm_alloc, free_frame = Some m7_vmm_free,
        phys_to_virt = Some m7_phys_to_virt\<rparr>"
    and mem': "mem' = mem\<lparr>venv := g, tables := (tables mem)(m7_phys_to_virt g a :=
        vmm_zero_page (tables mem (m7_phys_to_virt g a)))\<rparr>"
    using assms(3) by (auto simp: m7_vmm_init_def m7_vmm_alloc_def vmm_space_init_def m7_phys_to_virt_def
        vmm_zero_page_def VMM_ENTRIES_PER_TABLE_def Let_def split: prod.splits if_splits vmm_status.splits
        simp del: upt_rec_numeral)
  have g: "m7_good g" "a \<in> m7_owned g"
    using m7.alloc_some [OF assms(1) ag] by auto
  have virt: "table_from_phys sp a mem' = m7_phys_to_virt g a"
    using m7.frame_aligned [OF g] by (simp add: table_from_phys_def sp mem')
  have root: "vmm_root sp mem' = m7_phys_to_virt g a"
    using virt by (simp add: vmm_root_def sp)
  have "tables mem' (vmm_root sp mem') = replicate 512 0"
    unfolding root using m7.zero_page [of mem] assms(2) by (simp add: mem')
  then have "next_table sp mem' (vmm_root sp mem') i = Inl VMM_ERR_NOT_FOUND" if "i < 512" for i
    using that by (intro m7.absent_next) simp
  then have at: "table_at sp mem' p = (if p = [] then Some (m7_phys_to_virt g a) else None)" if "valid_path p" for p
    using that root by (cases p) (simp_all add: table_at_def valid_path_def)
  have "vmm_tree (m7_owned g) sp mem'"
    unfolding vmm_tree_def
  proof (intro conjI allI impI)
    show "root_paddr sp \<in> m7_owned g"
      using g(2) by (simp add: sp)
    show "length (tables mem' t) = 512" for t
      using assms(2) m7.zero_page [of mem] by (simp add: mem')
    show "p = q" if "valid_path p" "valid_path q" "table_at sp mem' p = Some t" "table_at sp mem' q = Some t" for p q t
      using that by (simp add: at split: if_splits)
    show "\<exists>b\<in>m7_owned g. t = table_from_phys sp b mem'" if "valid_path p" "table_at sp mem' p = Some t" for p t
      using that g(2) virt by (auto simp: at split: if_splits)
    show "\<not> bit (tables mem' t ! i) 0 \<or> (\<exists>b\<in>m7_owned g. tables mem' t ! i = table_entry b)"
      if "valid_path (p @ [i])" "table_at sp mem' p = Some t" for p t i
      using that \<open>tables mem' (vmm_root sp mem') = replicate 512 0\<close> root
      by (auto simp: at valid_path_snoc split: if_splits)
  qed
  moreover have "entry_of sp mem' v = None" for v
    using at [OF m7.leaf_path_valid(1)] by (simp add: entry_of_def)
  ultimately show ?thesis
    using g(1) by (simp add: m7_space_def space_over_def sp mem')
qed

text \<open>The address spaces that the kernel can have: initialised, then changed by calls with any arguments.\<close>

inductive vmm_reachable :: "kmain_globals vmm_space \<Rightarrow> kmain_globals vmm_mem \<Rightarrow> bool" where
  reach_init: "m7_good (venv mem) \<Longrightarrow> \<forall>t. length (tables mem t) = 512 \<Longrightarrow>
    m7_vmm_init g_vmm mem = Some (sp, mem') \<Longrightarrow> vmm_reachable sp mem'"
| reach_map: "vmm_reachable sp mem \<Longrightarrow> vmm_map_page (Some sp) v paddr flags mem = (st, mem') \<Longrightarrow> vmm_reachable sp mem'"
| reach_unmap: "vmm_reachable sp mem \<Longrightarrow> vmm_unmap_page (Some sp) v mem = (st, mem') \<Longrightarrow> vmm_reachable sp mem'"

lemma map_invalid:
  "\<not> (vpage v \<and> vmm_is_aligned_4k paddr) \<Longrightarrow> vmm_map_page (Some sp) v paddr flags mem = (VMM_ERR_INVAL, mem)"
  by (simp add: vmm_map_page_def vmm_map_body_def prog_bind_def prog_run)

lemma unmap_invalid: "\<not> vpage v \<Longrightarrow> vmm_unmap_page (Some sp) v mem = (VMM_ERR_INVAL, mem)"
  by (simp add: vmm_unmap_page_def vmm_unmap_body_def walk_to_pt_def prog_bind_def prog_run)

lemma reachable_space: "vmm_reachable sp mem \<Longrightarrow> m7_space sp mem"
proof (induction rule: vmm_reachable.induct)
  case (reach_init mem g_vmm sp mem')
  then show ?case
    using init_space by blast
next
  case (reach_map sp mem v paddr flags st mem')
  then show ?case
    using m7.map_run [of sp mem v paddr flags st mem'] map_invalid [of v paddr sp flags mem]
    by (cases "vpage v \<and> vmm_is_aligned_4k paddr") (auto simp: m7_space_def)
next
  case (reach_unmap sp mem v st mem')
  then show ?case
    using m7.unmap_run [of sp mem v st mem'] unmap_invalid [of v sp mem]
    by (cases "vpage v") (auto simp: m7_space_def)
qed

text \<open>
  The entries that the processor reads to translate a page: user mode may use the page when every one of them
  is present and has the user bit.
\<close>

fun user_walk :: "'c vmm_space \<Rightarrow> 'c vmm_mem \<Rightarrow> u64 \<Rightarrow> nat list \<Rightarrow> bool" where
  "user_walk sp mem t [] \<longleftrightarrow> True"
| "user_walk sp mem t (i # is) \<longleftrightarrow> (let e = tables mem t ! i in
     bit e 0 \<and> bit e 2 \<and> user_walk sp mem (table_from_phys sp (e AND VMM_PTE_ADDR_MASK) mem) is)"

definition user_accessible :: "'c vmm_space \<Rightarrow> 'c vmm_mem \<Rightarrow> u64 \<Rightarrow> bool" where
  "user_accessible sp mem v \<longleftrightarrow>
     user_walk sp mem (vmm_root sp mem) [idx_pml4 v, idx_pdpt v, idx_pd v, idx_pt v]"

text \<open>
  Property C37. No page of the kernel's address space is ever accessible in user mode, whatever flags
  \<^verbatim>\<open>vmm_map_page\<close> was called with: the entries it creates for page tables never have the user bit. So
  the address space isolates the kernel, and a mapping with \<^verbatim>\<open>VMM_PTE_USER\<close> has no effect although a
  query reports the flag.
\<close>

theorem vmm_no_user_access:
  assumes "vmm_reachable sp mem"
  shows "\<not> user_accessible sp mem v"
proof -
  have "m7_space sp mem"
    using reachable_space [OF assms] .
  then have "\<not> bit (tables mem (vmm_root sp mem) ! idx_pml4 v) 0 \<or> \<not> bit (tables mem (vmm_root sp mem) ! idx_pml4 v) 2"
    using m7.inner_entry [of sp mem "[]" "vmm_root sp mem" "idx_pml4 v", OF _ m7.root_reached] index_bound [of v]
    by (auto simp: m7_space_def valid_path_def table_entry_facts)
  then show ?thesis
    by (auto simp: user_accessible_def Let_def)
qed

section \<open>A concrete address space\<close>

text \<open>Memory of four frames, two of them free, mapped at the upper half; the space object of static storage.\<close>

definition g_vmm_static :: "kmain_globals vmm_space" where
  "g_vmm_static = \<lparr>root_paddr = 0, alloc_frame = None, free_frame = None, phys_to_virt = None\<rparr>"

definition vmm_sample :: "kmain_globals vmm_mem" where
  "vmm_sample = \<lparr>tables = \<lambda>_. replicate 512 0, venv = \<lparr>g_pmm = pmm_sample, g_hhdm_offset = 0xFFFF800000000000\<rparr>,
     invalidated = []\<rparr>"

lemma sample_good: "m7_good (venv vmm_sample)" "\<forall>t. length (tables vmm_sample t) = 512"
  using pmm_inv_sample by (simp_all add: m7_good_def vmm_sample_def) (simp add: pmm_sample_def)

lemma sample_space:
  obtains sp mem where "m7_vmm_init g_vmm_static vmm_sample = Some (sp, mem)" "m7_space sp mem" "\<And>v. entry_of sp mem v = None"
    "vmm_reachable sp mem"
proof -
  obtain q where "pmm_alloc_frame (Some pmm_sample) = (0x2000, Some q)"
    using pmm_alloc_frame_spec [OF pmm_inv_sample]
    by (auto simp: free_set_pmm_sample PMM_PAGE_SIZE_def)
  then have "\<exists>sp mem. m7_vmm_init g_vmm_static vmm_sample = Some (sp, mem)"
    by (simp add: m7_vmm_init_def vmm_sample_def Let_def vmm_space_init_def PMM_INVALID_FRAME_def vmm_is_aligned_4k_def
        VMM_PAGE_SIZE_def)
  then show ?thesis
    using init_space [OF sample_good] reach_init [OF sample_good] that by blast
qed

lemma sample_pages: "vpage 0xFFFF900000000000" "vpage 0xFFFF900000001000" "vmm_is_aligned_4k 0x3000"
  by (simp_all add: vmm_is_canonical_def vmm_is_aligned_4k_def VMM_PAGE_SIZE_def)

theorem vmm_map_query_witness:
  "\<exists>sp mem st mem'. m7_vmm_init g_vmm_static vmm_sample = Some (sp, mem) \<and>
     vmm_map_page (Some sp) 0xFFFF900000000000 0x3000 VMM_PTE_WRITABLE mem = (st, mem') \<and>
     (st = VMM_MAP_OK \<or> st = VMM_ERR_NOMEM) \<and>
     vmm_query_page (Some sp) 0xFFFF900000001000 True mem' = (VMM_ERR_NOT_FOUND, None)"
proof -
  obtain sp mem where sp: "m7_vmm_init g_vmm_static vmm_sample = Some (sp, mem)" "m7_space sp mem" "\<And>v. entry_of sp mem v = None"
    by (rule sample_space, rule that)
  obtain st mem' where st: "vmm_map_page (Some sp) 0xFFFF900000000000 0x3000 VMM_PTE_WRITABLE mem = (st, mem')"
    by fastforce
  have q: "vmm_query_page (Some sp) v True mem = (VMM_ERR_NOT_FOUND, None)" if "vpage v" for v
    using m7.query_run [of sp mem v] sp that by (simp add: m7_space_def)
  note t = vmm_map_query [OF sp(2) sample_pages(1,3) st]
  have "vmm_query_page (Some sp) 0xFFFF900000001000 True mem' = (VMM_ERR_NOT_FOUND, None)"
    using t sample_pages(2) q [OF sample_pages(2)] by simp
  moreover have "st = VMM_MAP_OK \<or> st = VMM_ERR_NOMEM"
    using t q [OF sample_pages(1)] by (auto simp: Let_def split: vmm_status.splits)
  ultimately show ?thesis
    using sp(1) st by blast
qed

theorem vmm_unmap_query_witness:
  "\<exists>sp mem. m7_vmm_init g_vmm_static vmm_sample = Some (sp, mem) \<and>
     vmm_unmap_page (Some sp) 0xFFFF900000000000 mem = (VMM_ERR_NOT_FOUND, mem)"
proof -
  obtain sp mem where sp: "m7_vmm_init g_vmm_static vmm_sample = Some (sp, mem)" "m7_space sp mem" "\<And>v. entry_of sp mem v = None"
    by (rule sample_space, rule that)
  obtain st mem' where st: "vmm_unmap_page (Some sp) 0xFFFF900000000000 mem = (st, mem')"
    by fastforce
  then show ?thesis
    using vmm_unmap_query [OF sp(2) sample_pages(1) st] sp query_status [OF sp(2) sample_pages(1)] by simp
qed

theorem vmm_no_user_access_witness:
  "\<exists>sp mem st mem'. m7_vmm_init g_vmm_static vmm_sample = Some (sp, mem) \<and>
     vmm_map_page (Some sp) 0x400000 0x3000 VMM_PTE_USER mem = (st, mem') \<and> \<not> user_accessible sp mem' 0x400000"
proof -
  obtain sp mem where sp: "m7_vmm_init g_vmm_static vmm_sample = Some (sp, mem)" "vmm_reachable sp mem"
    by (rule sample_space, rule that)
  obtain st mem' where st: "vmm_map_page (Some sp) 0x400000 0x3000 VMM_PTE_USER mem = (st, mem')"
    by fastforce
  show ?thesis
    using vmm_no_user_access [OF reach_map [OF sp(2) st]] sp(1) st by blast
qed

end
