(* ===== verification/Ram.thy ===== *)
theory Ram
  imports Layout
begin

text \<open>
  Memory addressed by the byte, for code that keeps its structures inside the memory it manages.
  Fields are little-endian; address arithmetic wraps.
\<close>

type_synonym ram = "u64 \<Rightarrow> u8"

definition ld_bytes :: "ram \<Rightarrow> u64 \<Rightarrow> nat \<Rightarrow> bytes" where
  "ld_bytes m a n = map (\<lambda>i. m (a + of_nat i)) [0..<n]"

definition st_bytes :: "u64 \<Rightarrow> bytes \<Rightarrow> ram \<Rightarrow> ram" where
  "st_bytes a bs m = (\<lambda>x. if unat (x - a) < length bs then bs ! unat (x - a) else m x)"

definition ld64 :: "ram \<Rightarrow> u64 \<Rightarrow> u64" where
  "ld64 m a = rd64 (ld_bytes m a 8) 0"

definition st64 :: "u64 \<Rightarrow> u64 \<Rightarrow> ram \<Rightarrow> ram" where
  "st64 a v = st_bytes a (le64 v)"

definition ld32 :: "ram \<Rightarrow> u64 \<Rightarrow> u32" where
  "ld32 m a = rd32 (ld_bytes m a 4) 0"

definition st32 :: "u64 \<Rightarrow> u32 \<Rightarrow> ram \<Rightarrow> ram" where
  "st32 a v = st_bytes a (le32 v)"

text \<open>Two ranges of addresses that do not wrap and do not overlap.\<close>

definition apart :: "u64 \<Rightarrow> nat \<Rightarrow> u64 \<Rightarrow> nat \<Rightarrow> bool" where
  "apart a n b k \<longleftrightarrow> unat a + n \<le> 2 ^ 64 \<and> unat b + k \<le> 2 ^ 64 \<and> (unat a + n \<le> unat b \<or> unat b + k \<le> unat a)"

lemma length_ld_bytes [simp]: "length (ld_bytes m a n) = n"
  by (simp add: ld_bytes_def)

lemma ld_st_same: "length bs = n \<Longrightarrow> n \<le> 2 ^ 64 \<Longrightarrow> ld_bytes (st_bytes a bs m) a n = bs"
  by (auto intro!: nth_equalityI simp: ld_bytes_def st_bytes_def unat_of_nat_small)

lemma st_bytes_outside:
  assumes "unat a + length bs \<le> 2 ^ 64" and "unat x < unat a \<or> unat a + length bs \<le> unat x"
  shows "st_bytes a bs m x = m x"
proof (cases "a \<le> x")
  case True
  then have "unat (x - a) = unat x - unat a"
    by (simp add: unat_sub_if_size word_le_nat_alt)
  then show ?thesis
    using assms True by (auto simp: st_bytes_def word_le_nat_alt)
next
  case False
  then have "unat (x - a) = unat x + 2 ^ 64 - unat a"
    by (simp add: unat_sub_if_size word_le_nat_alt word_size)
  then have "\<not> unat (x - a) < length bs"
    using assms(1) by linarith
  then show ?thesis
    by (simp add: st_bytes_def)
qed

lemma ld_st_other: "apart a (length bs) b k \<Longrightarrow> ld_bytes (st_bytes a bs m) b k = ld_bytes m b k"
  unfolding ld_bytes_def
proof (rule map_cong [OF refl])
  fix i assume a: "apart a (length bs) b k" and i: "i \<in> set [0..<k]"
  then have "unat (b + of_nat i) = unat b + i"
    by (subst unat_add_nowrap) (auto simp: apart_def unat_of_nat_small)
  then show "st_bytes a bs m (b + of_nat i) = m (b + of_nat i)"
    using a i by (intro st_bytes_outside) (auto simp: apart_def)
qed

lemma ld64_st64: "ld64 (st64 a v m) a = v" "apart a 8 b 8 \<Longrightarrow> ld64 (st64 a v m) b = ld64 m b"
  using rd64_le64 [of v "[]"] by (simp_all add: ld64_def st64_def ld_st_same ld_st_other layout)

lemma ld32_st32: "ld32 (st32 a x m) a = x" "apart a 4 b 4 \<Longrightarrow> ld32 (st32 a x m) b = ld32 m b"
  using rd32_le32 [of x "[]"] by (simp_all add: ld32_def st32_def ld_st_same ld_st_other layout)

lemma ld64_st32: "apart a 4 b 8 \<Longrightarrow> ld64 (st32 a x m) b = ld64 m b"
  by (simp add: ld64_def st32_def ld_st_other layout)

lemma ld32_st64: "apart a 8 b 4 \<Longrightarrow> ld32 (st64 a v m) b = ld32 m b"
  by (simp add: ld32_def st64_def ld_st_other layout)

lemma ld_bytes_st: "apart a 8 b k \<Longrightarrow> ld_bytes (st64 a v m) b k = ld_bytes m b k"
  "apart a 4 b k \<Longrightarrow> ld_bytes (st32 a x m) b k = ld_bytes m b k"
  by (simp_all add: st64_def st32_def ld_st_other layout)

end
