(* ===== verification/Kmem.thy ===== *)
theory Kmem
  imports Ram
begin

text \<open>
  The kernel heap, \<^verbatim>\<open>src/kernel/mm/kmem.c\<close>: a first-fit allocator whose block headers lie in the
  memory it manages. Memory is a function from addresses to bytes; a header is its 48 bytes at the
  block's address. A list walk that never ends is \<open>None\<close>.
\<close>

section \<open>Data\<close>

definition KMEM_MIN_SPLIT :: u64 where "KMEM_MIN_SPLIT = 32"
definition KMEM_ALIGN :: u64 where "KMEM_ALIGN = 16"
definition KMEM_MAGIC :: u64 where "KMEM_MAGIC = 0x4d43534f53484541"
definition SIZE_MAX :: u64 where "SIZE_MAX = 0xFFFFFFFFFFFFFFFF"

text \<open>The size and the fields of \<^verbatim>\<open>kmem_block_t\<close>.\<close>

definition sizeof_block :: u64 where "sizeof_block = 48"

definition blk_magic :: "ram \<Rightarrow> u64 \<Rightarrow> u64" where "blk_magic m p = ld64 m p"
definition blk_size :: "ram \<Rightarrow> u64 \<Rightarrow> u64" where "blk_size m p = ld64 m (p + 8)"
definition blk_free :: "ram \<Rightarrow> u64 \<Rightarrow> bool" where "blk_free m p \<longleftrightarrow> ld32 m (p + 16) \<noteq> 0"
definition blk_prev :: "ram \<Rightarrow> u64 \<Rightarrow> u64" where "blk_prev m p = ld64 m (p + 32)"
definition blk_next :: "ram \<Rightarrow> u64 \<Rightarrow> u64" where "blk_next m p = ld64 m (p + 40)"

definition put_magic :: "u64 \<Rightarrow> u64 \<Rightarrow> ram \<Rightarrow> ram" where "put_magic p v = st64 p v"
definition put_size :: "u64 \<Rightarrow> u64 \<Rightarrow> ram \<Rightarrow> ram" where "put_size p v = st64 (p + 8) v"
definition put_free :: "u64 \<Rightarrow> u32 \<Rightarrow> ram \<Rightarrow> ram" where "put_free p v = st32 (p + 16) v"
definition put_prev :: "u64 \<Rightarrow> u64 \<Rightarrow> ram \<Rightarrow> ram" where "put_prev p v = st64 (p + 32) v"
definition put_next :: "u64 \<Rightarrow> u64 \<Rightarrow> ram \<Rightarrow> ram" where "put_next p v = st64 (p + 40) v"

record kmem_heap =
  g_heap_base :: u64
  g_heap_end :: u64
  g_head :: u64
  g_initialized :: bool
  ram :: ram

section \<open>Operations\<close>

definition kmem_align_up_size :: "u64 \<Rightarrow> u64 \<Rightarrow> u64" where
  "kmem_align_up_size val align =
    (if align = 0 then val
     else let mask = align - 1 in
       if align AND mask \<noteq> 0 then 0
       else if val > SIZE_MAX - mask then 0
       else (val + mask) AND NOT mask)"

definition kmem_align_up_ptr :: "u64 \<Rightarrow> u64 \<Rightarrow> u64" where
  "kmem_align_up_ptr val align =
    (let mask = align - 1 in
     if align AND mask \<noteq> 0 then 0
     else if val > SIZE_MAX - mask then 0
     else (val + mask) AND NOT mask)"

function kmem_memset :: "u64 \<Rightarrow> u8 \<Rightarrow> u64 \<Rightarrow> ram \<Rightarrow> ram" where
  "kmem_memset p val bytes m = (if bytes > 0 then kmem_memset (p + 1) val (bytes - 1) (m(p := val)) else m)"
  by pat_completeness auto
termination
  by (relation "measure (\<lambda>(p, val, bytes, m). unat bytes)") (auto simp: unat_minus_one unat_gt_0)

declare kmem_memset.simps [simp del]

definition kmem_payload :: "u64 \<Rightarrow> u64" where
  "kmem_payload block = block + sizeof_block"

definition kmem_header_from_payload :: "u64 \<Rightarrow> u64" where
  "kmem_header_from_payload ptr = ptr - sizeof_block"

definition kmem_ptr_in_heap :: "kmem_heap \<Rightarrow> u64 \<Rightarrow> bool" where
  "kmem_ptr_in_heap h p \<longleftrightarrow> g_initialized h \<and> p \<ge> g_heap_base h \<and> p < g_heap_end h"

text \<open>The writes of a split.\<close>

definition kmem_split :: "u64 \<Rightarrow> u64 \<Rightarrow> u64 \<Rightarrow> u64 \<Rightarrow> ram \<Rightarrow> ram" where
  "kmem_split block wanted consumed new_block m =
    (let m = put_magic new_block KMEM_MAGIC m;
         m = put_size new_block (blk_size m block - consumed - sizeof_block) m;
         m = put_free new_block 1 m;
         m = put_prev new_block block m;
         m = put_next new_block (blk_next m block) m;
         m = (if blk_next m block \<noteq> 0 then put_prev (blk_next m block) new_block m else m);
         m = put_next block new_block m in
     put_size block wanted m)"

definition kmem_split_if_useful :: "kmem_heap \<Rightarrow> u64 \<Rightarrow> u64 \<Rightarrow> kmem_heap" where
  "kmem_split_if_useful h block wanted =
    (let header = kmem_align_up_size sizeof_block KMEM_ALIGN in
     if header = 0 then h
     else if blk_size (ram h) block < wanted + header + KMEM_MIN_SPLIT then h
     else
       let new_addr = kmem_align_up_ptr (kmem_payload block + wanted) KMEM_ALIGN in
       if new_addr = 0 then h
       else if new_addr + sizeof_block \<ge> g_heap_end h then h
       else
         let consumed = new_addr - kmem_payload block in
         if blk_size (ram h) block \<le> consumed + sizeof_block + KMEM_MIN_SPLIT then h
         else h\<lparr>ram := kmem_split block wanted consumed new_addr (ram h)\<rparr>)"

text \<open>One round of the coalescing loop: \<open>block\<close> swallows the block \<open>next\<close> after it.\<close>

definition kmem_merge :: "u64 \<Rightarrow> u64 \<Rightarrow> ram \<Rightarrow> ram" where
  "kmem_merge block next m =
    (let m = put_size block (blk_size m block + (sizeof_block + blk_size m next)) m;
         m = put_next block (blk_next m next) m;
         m = (if blk_next m next \<noteq> 0 then put_prev (blk_next m next) block m else m);
         m = put_magic next 0 m;
         m = put_size next 0 m;
         m = put_prev next 0 m in
     put_next next 0 m)"

partial_function (option) kmem_coalesce_forward :: "u64 \<Rightarrow> ram \<Rightarrow> ram option" where
  "kmem_coalesce_forward block m =
    (if block \<noteq> 0 \<and> blk_next m block \<noteq> 0 \<and> blk_free m (blk_next m block) then
       let next = blk_next m block;
           expected = kmem_align_up_ptr (kmem_payload block + blk_size m block) KMEM_ALIGN in
       if expected \<noteq> next then Some m
       else kmem_coalesce_forward block (kmem_merge block next m)
     else Some m)"

function kmem_validate_loop :: "kmem_heap \<Rightarrow> u64 \<Rightarrow> u64 \<Rightarrow> u64 \<Rightarrow> u64 \<Rightarrow> int" where
  "kmem_validate_loop h cur prev cursor guard =
    (if cur = 0 then 0
     else let guard = guard + 1 in
       if guard > 1048576 then -3
       else if cur \<noteq> cursor then -4
       else if cur < g_heap_base h \<or> cur + sizeof_block > g_heap_end h then -5
       else if blk_magic (ram h) cur \<noteq> KMEM_MAGIC then -6
       else if blk_prev (ram h) cur \<noteq> prev then -7
       else if blk_size (ram h) cur > g_heap_end h - kmem_payload cur then -8
       else
         let cursor = kmem_align_up_ptr (kmem_payload cur + blk_size (ram h) cur) KMEM_ALIGN in
         if cursor = 0 \<or> cursor > g_heap_end h then -9
         else kmem_validate_loop h (blk_next (ram h) cur) cur cursor guard)"
  by pat_completeness auto
termination
proof (relation "measure (\<lambda>(h, cur, prev, cursor, guard). if guard = -1 then 2 ^ 65 else 2 ^ 64 - unat guard)", goal_cases)
  case (2 h cur prev cursor guard x xa)
  show ?case
  proof (cases "guard = -1")
    case True
    then show ?thesis
      using 2 by simp
  next
    case False
    then have "unat (guard + 1) = unat guard + 1"
      by (metis add.inverse_inverse add_eq_0_iff unatSuc Suc_eq_plus1 add.commute)
    moreover have "guard + 1 \<noteq> -1"
    proof
      assume "guard + 1 = -1"
      moreover have "(1048576 :: u64) < -1"
        by simp
      ultimately show False
        using 2(2,3) by metis
    qed
    ultimately show ?thesis
      using 2(2,3) False by (simp add: word_less_nat_alt)
  qed
qed simp

declare kmem_validate_loop.simps [simp del]

definition kmem_validate :: "kmem_heap \<Rightarrow> int" where
  "kmem_validate h =
    (if \<not> g_initialized h \<or> g_heap_base h = 0 \<or> g_heap_end h \<le> g_heap_base h \<or> g_head h = 0 then -1
     else if g_head h \<noteq> g_heap_base h then -2
     else kmem_validate_loop h (g_head h) 0 (g_heap_base h) 0)"

definition kmem_init :: "kmem_heap \<Rightarrow> u64 \<Rightarrow> u64 \<Rightarrow> int \<times> kmem_heap" where
  "kmem_init h base bytes =
    (if base = 0 \<or> bytes < sizeof_block + KMEM_MIN_SPLIT then (-1, h)
     else
       let start = kmem_align_up_ptr base KMEM_ALIGN in
       if start = 0 \<or> start < base then (-2, h)
       else
         let lost = start - base in
         if bytes \<le> lost + sizeof_block + KMEM_MIN_SPLIT then (-3, h)
         else
           let usable = (bytes - lost) AND NOT (KMEM_ALIGN - 1) in
           if usable \<le> sizeof_block + KMEM_MIN_SPLIT then (-4, h)
           else
             let m = put_magic start KMEM_MAGIC (ram h);
                 m = put_size start (usable - sizeof_block) m;
                 m = put_free start 1 m;
                 m = put_prev start 0 m;
                 m = put_next start 0 m;
                 h = \<lparr>g_heap_base = start, g_heap_end = start + usable, g_head = start, g_initialized = True, ram = m\<rparr> in
             (kmem_validate h, h))"

partial_function (option) kmem_alloc_loop :: "kmem_heap \<Rightarrow> u64 \<Rightarrow> u64 \<Rightarrow> (u64 \<times> kmem_heap) option" where
  "kmem_alloc_loop h cur wanted =
    (if cur = 0 then Some (0, h)
     else if blk_magic (ram h) cur \<noteq> KMEM_MAGIC then Some (0, h)
     else if blk_free (ram h) cur \<and> blk_size (ram h) cur \<ge> wanted then
       let h = kmem_split_if_useful h cur wanted;
           h = h\<lparr>ram := put_free cur 0 (ram h)\<rparr> in
       Some (kmem_payload cur, h)
     else kmem_alloc_loop h (blk_next (ram h) cur) wanted)"

definition kmem_alloc :: "kmem_heap \<Rightarrow> u64 \<Rightarrow> (u64 \<times> kmem_heap) option" where
  "kmem_alloc h bytes =
    (if \<not> g_initialized h \<or> bytes = 0 then Some (0, h)
     else
       let wanted = kmem_align_up_size bytes KMEM_ALIGN in
       if wanted = 0 then Some (0, h)
       else kmem_alloc_loop h (g_head h) wanted)"

definition kmem_calloc :: "kmem_heap \<Rightarrow> u64 \<Rightarrow> u64 \<Rightarrow> (u64 \<times> kmem_heap) option" where
  "kmem_calloc h count bytes =
    (if count \<noteq> 0 \<and> bytes > SIZE_MAX div count then Some (0, h)
     else
       let total = count * bytes in
       case kmem_alloc h total of None \<Rightarrow> None | Some (ptr, h) \<Rightarrow>
         Some (ptr, if ptr \<noteq> 0 then h\<lparr>ram := kmem_memset ptr 0 total (ram h)\<rparr> else h))"

definition kmem_free_checked :: "kmem_heap \<Rightarrow> u64 \<Rightarrow> (int \<times> kmem_heap) option" where
  "kmem_free_checked h ptr =
    (if ptr = 0 then Some (0, h)
     else if \<not> kmem_ptr_in_heap h ptr then Some (-1, h)
     else if ptr AND (KMEM_ALIGN - 1) \<noteq> 0 then Some (-2, h)
     else
       let block = kmem_header_from_payload ptr in
       if \<not> kmem_ptr_in_heap h block \<or> blk_magic (ram h) block \<noteq> KMEM_MAGIC then Some (-3, h)
       else if blk_free (ram h) block then Some (-4, h)
       else case kmem_coalesce_forward block (put_free block 1 (ram h)) of None \<Rightarrow> None | Some m \<Rightarrow>
         (case (if blk_prev m block \<noteq> 0 \<and> blk_free m (blk_prev m block)
                then kmem_coalesce_forward (blk_prev m block) m else Some m) of None \<Rightarrow> None | Some m \<Rightarrow>
            let h = h\<lparr>ram := m\<rparr> in Some (kmem_validate h, h)))"

record kmem_stats =
  total_bytes :: u64
  used_bytes :: u64
  free_bytes :: u64
  block_count :: u64
  free_count :: u64
  largest_free :: u64

partial_function (option) kmem_stats_loop :: "ram \<Rightarrow> u64 \<Rightarrow> kmem_stats \<Rightarrow> kmem_stats option" where
  "kmem_stats_loop m cur out =
    (if cur = 0 then Some out
     else
       let out = out\<lparr>block_count := block_count out + 1\<rparr>;
           out = (if blk_free m cur then
               out\<lparr>free_count := free_count out + 1, free_bytes := free_bytes out + blk_size m cur,
                   largest_free := (if blk_size m cur > largest_free out then blk_size m cur else largest_free out)\<rparr>
             else out\<lparr>used_bytes := used_bytes out + blk_size m cur\<rparr>) in
       kmem_stats_loop m (blk_next m cur) out)"

definition kmem_get_stats :: "kmem_heap \<Rightarrow> kmem_stats option" where
  "kmem_get_stats h =
    (let out = \<lparr>total_bytes = 0, used_bytes = 0, free_bytes = 0, block_count = 0, free_count = 0, largest_free = 0\<rparr> in
     if \<not> g_initialized h then Some out
     else kmem_stats_loop (ram h) (g_head h) (out\<lparr>total_bytes := g_heap_end h - g_heap_base h\<rparr>))"

end
