(* ===== verification/Kmem_Correct.thy ===== *)
theory Kmem_Correct
  imports Kmem
begin

text \<open>
  Correctness of the kernel heap: the blocks tile the heap, no two neighbouring blocks are free, and
  the heap refines a map from pointers to objects. Neither an allocation nor a release touches an
  object in use, and a heap without objects is one free block again.
\<close>

section \<open>Headers\<close>

named_theorems header \<open>fields of block headers\<close>

definition fits :: "u64 \<Rightarrow> bool" where
  "fits p \<longleftrightarrow> unat p + 48 \<le> 2 ^ 64"

lemma field_addr:
  assumes "fits p"
  shows "unat (p + 8) = unat p + 8" "unat (p + 16) = unat p + 16" "unat (p + 32) = unat p + 32"
    "unat (p + 40) = unat p + 40"
  using assms unat_add_nowrap [of p 8] unat_add_nowrap [of p 16] unat_add_nowrap [of p 32] unat_add_nowrap [of p 40]
  by (simp_all add: fits_def)

lemmas header_defs = blk_magic_def blk_size_def blk_free_def blk_prev_def blk_next_def
  put_magic_def put_size_def put_free_def put_prev_def put_next_def

lemmas field_access = ld64_st64 ld32_st32 ld64_st32 ld32_st64

lemma same_header [header]:
  assumes "fits p"
  shows "blk_magic (put_magic p v m) p = v" "blk_magic (put_size p v m) p = blk_magic m p"
    "blk_magic (put_free p f m) p = blk_magic m p" "blk_magic (put_prev p v m) p = blk_magic m p"
    "blk_magic (put_next p v m) p = blk_magic m p"
    "blk_size (put_size p v m) p = v" "blk_size (put_magic p v m) p = blk_size m p"
    "blk_size (put_free p f m) p = blk_size m p" "blk_size (put_prev p v m) p = blk_size m p"
    "blk_size (put_next p v m) p = blk_size m p"
    "blk_free (put_free p f m) p \<longleftrightarrow> f \<noteq> 0" "blk_free (put_magic p v m) p = blk_free m p"
    "blk_free (put_size p v m) p = blk_free m p" "blk_free (put_prev p v m) p = blk_free m p"
    "blk_free (put_next p v m) p = blk_free m p"
    "blk_prev (put_prev p v m) p = v" "blk_prev (put_magic p v m) p = blk_prev m p"
    "blk_prev (put_size p v m) p = blk_prev m p" "blk_prev (put_free p f m) p = blk_prev m p"
    "blk_prev (put_next p v m) p = blk_prev m p"
    "blk_next (put_next p v m) p = v" "blk_next (put_magic p v m) p = blk_next m p"
    "blk_next (put_size p v m) p = blk_next m p" "blk_next (put_free p f m) p = blk_next m p"
    "blk_next (put_prev p v m) p = blk_next m p"
  using field_addr [OF assms] assms by (simp_all add: header_defs field_access apart_def fits_def)

text \<open>A write to a header changes nothing outside its 48 bytes.\<close>

lemma put_outside [header]:
  assumes "apart p 48 a k"
  shows "ld_bytes (put_magic p v m) a k = ld_bytes m a k" "ld_bytes (put_size p v m) a k = ld_bytes m a k"
    "ld_bytes (put_free p f m) a k = ld_bytes m a k" "ld_bytes (put_prev p v m) a k = ld_bytes m a k"
    "ld_bytes (put_next p v m) a k = ld_bytes m a k"
proof -
  have "fits p"
    using assms by (simp add: apart_def fits_def)
  note f = field_addr [OF this]
  have "apart p 8 a k" "apart (p + 8) 8 a k" "apart (p + 16) 4 a k" "apart (p + 32) 8 a k" "apart (p + 40) 8 a k"
    using assms f by (auto simp: apart_def)
  then show "ld_bytes (put_magic p v m) a k = ld_bytes m a k" "ld_bytes (put_size p v m) a k = ld_bytes m a k"
    "ld_bytes (put_free p f m) a k = ld_bytes m a k" "ld_bytes (put_prev p v m) a k = ld_bytes m a k"
    "ld_bytes (put_next p v m) a k = ld_bytes m a k"
    by (simp_all add: header_defs ld_bytes_st)
qed

text \<open>The fields are read from the 48 bytes of the header.\<close>

lemma ld64_inside: "k + 8 \<le> n \<Longrightarrow> ld64 m (p + of_nat k) = rd64 (ld_bytes m p n) k"
  by (simp add: ld64_def rd64_def rd32_def ld_bytes_def algebra_simps)

lemma ld32_inside: "k + 4 \<le> n \<Longrightarrow> ld32 m (p + of_nat k) = rd32 (ld_bytes m p n) k"
  by (simp add: ld32_def rd32_def ld_bytes_def algebra_simps)

lemma header_cong:
  assumes "ld_bytes m' p 48 = ld_bytes m p 48"
  shows "blk_magic m' p = blk_magic m p" "blk_size m' p = blk_size m p" "blk_free m' p = blk_free m p"
    "blk_prev m' p = blk_prev m p" "blk_next m' p = blk_next m p"
  using assms ld64_inside [of 0 48] ld64_inside [of 8 48] ld32_inside [of 16 48] ld64_inside [of 32 48]
    ld64_inside [of 40 48]
  by (simp_all add: header_defs)

lemma other_header [header]:
  assumes "apart p 48 q 48"
  shows
    "blk_magic (put_magic p v m) q = blk_magic m q" "blk_magic (put_size p v m) q = blk_magic m q" "blk_magic (put_free p f m) q = blk_magic m q"
    "blk_magic (put_prev p v m) q = blk_magic m q" "blk_magic (put_next p v m) q = blk_magic m q"
    "blk_size (put_magic p v m) q = blk_size m q" "blk_size (put_size p v m) q = blk_size m q" "blk_size (put_free p f m) q = blk_size m q"
    "blk_size (put_prev p v m) q = blk_size m q" "blk_size (put_next p v m) q = blk_size m q"
    "blk_free (put_magic p v m) q = blk_free m q" "blk_free (put_size p v m) q = blk_free m q" "blk_free (put_free p f m) q = blk_free m q"
    "blk_free (put_prev p v m) q = blk_free m q" "blk_free (put_next p v m) q = blk_free m q"
    "blk_prev (put_magic p v m) q = blk_prev m q" "blk_prev (put_size p v m) q = blk_prev m q" "blk_prev (put_free p f m) q = blk_prev m q"
    "blk_prev (put_prev p v m) q = blk_prev m q" "blk_prev (put_next p v m) q = blk_prev m q"
    "blk_next (put_magic p v m) q = blk_next m q" "blk_next (put_size p v m) q = blk_next m q" "blk_next (put_free p f m) q = blk_next m q"
    "blk_next (put_prev p v m) q = blk_next m q" "blk_next (put_next p v m) q = blk_next m q"
  by (rule header_cong put_outside assms)+

lemma apart_sym: "apart p n q k \<longleftrightarrow> apart q k p n"
  by (auto simp: apart_def)

section \<open>Chains of blocks\<close>

record chunk =
  c_addr :: u64
  c_size :: u64
  c_free :: bool

definition hdr :: "ram \<Rightarrow> chunk \<Rightarrow> u64 \<Rightarrow> u64 \<Rightarrow> bool" where
  "hdr m c prev next \<longleftrightarrow> blk_magic m (c_addr c) = KMEM_MAGIC \<and> blk_size m (c_addr c) = c_size c \<and>
     (blk_free m (c_addr c) \<longleftrightarrow> c_free c) \<and> blk_prev m (c_addr c) = prev \<and> blk_next m (c_addr c) = next"

definition first_addr :: "chunk list \<Rightarrow> u64" where
  "first_addr cs = (case cs of [] \<Rightarrow> 0 | c # _ \<Rightarrow> c_addr c)"

fun chain :: "ram \<Rightarrow> u64 \<Rightarrow> chunk list \<Rightarrow> u64 \<Rightarrow> bool" where
  "chain m prev [] next \<longleftrightarrow> True"
| "chain m prev (c # cs) next \<longleftrightarrow> hdr m c prev (if cs = [] then next else first_addr cs) \<and> chain m (c_addr c) cs next"

definition last_addr :: "chunk list \<Rightarrow> u64 \<Rightarrow> u64" where
  "last_addr cs prev = (if cs = [] then prev else c_addr (last cs))"

lemma first_addr_simps [simp]: "first_addr [] = 0" "first_addr (c # cs) = c_addr c"
  by (simp_all add: first_addr_def)

lemma last_addr_simps [simp]: "last_addr [] p = p" "last_addr (c # cs) p = last_addr cs (c_addr c)"
  "last_addr (cs @ [c]) p = c_addr c"
  by (simp_all add: last_addr_def)

lemma chain_append:
  "chain m p (xs @ ys) n \<longleftrightarrow> chain m p xs (if ys = [] then n else first_addr ys) \<and> chain m (last_addr xs p) ys n"
  by (induction xs arbitrary: p) (auto simp: first_addr_def split: list.split)

lemma hdr_cong: "ld_bytes m' (c_addr c) 48 = ld_bytes m (c_addr c) 48 \<Longrightarrow> hdr m' c p n = hdr m c p n"
  using header_cong [of m' "c_addr c" m] by (simp add: hdr_def)

lemma chain_cong:
  "(\<And>c. c \<in> set cs \<Longrightarrow> ld_bytes m' (c_addr c) 48 = ld_bytes m (c_addr c) 48) \<Longrightarrow> chain m' p cs n = chain m p cs n"
proof (induction cs arbitrary: p)
  case (Cons c cs)
  have "chain m' (c_addr c) cs n = chain m (c_addr c) cs n"
    by (rule Cons.IH) (rule Cons.prems, simp)
  moreover have "hdr m' c p x = hdr m c p x" for x
    by (rule hdr_cong) (rule Cons.prems, simp)
  ultimately show ?case
    by (simp only: chain.simps)
qed simp

text \<open>The blocks lie one after the other from \<open>a\<close> to \<open>e\<close>.\<close>

fun tiled :: "nat \<Rightarrow> chunk list \<Rightarrow> nat \<Rightarrow> bool" where
  "tiled a [] e \<longleftrightarrow> a = e"
| "tiled a (c # cs) e \<longleftrightarrow> unat (c_addr c) = a \<and> 16 dvd unat (c_size c) \<and> 0 < unat (c_size c) \<and>
     tiled (a + 48 + unat (c_size c)) cs e"

lemma tiled_append: "tiled a (xs @ ys) e \<longleftrightarrow> (\<exists>b. tiled a xs b \<and> tiled b ys e)"
  by (induction xs arbitrary: a) auto

lemma tiled_le: "tiled a cs e \<Longrightarrow> a \<le> e"
  by (induction cs arbitrary: a) force+

lemma tiled_inside: "tiled a cs e \<Longrightarrow> c \<in> set cs \<Longrightarrow> a \<le> unat (c_addr c) \<and> unat (c_addr c) + 48 + unat (c_size c) \<le> e"
proof (induction cs arbitrary: a)
  case (Cons d cs)
  then show ?case
    using tiled_le [of "a + 48 + unat (c_size d)" cs e] by fastforce
qed simp

lemma tiled_aligned: "tiled a cs e \<Longrightarrow> 16 dvd a \<Longrightarrow> c \<in> set cs \<Longrightarrow> 16 dvd unat (c_addr c) \<and> 16 dvd unat (c_size c) \<and> 0 < unat (c_size c)"
proof (induction cs arbitrary: a)
  case (Cons d cs)
  have "16 dvd a + 48 + unat (c_size d)"
    using Cons.prems by (simp add: dvd_add)
  then show ?case
    using Cons by fastforce
qed simp

text \<open>The place of a block in the tiling: everything before it ends where it starts.\<close>

lemma tiled_at:
  assumes "tiled a (xs @ c # ys) e"
  shows "tiled a xs (unat (c_addr c))" "tiled (unat (c_addr c) + 48 + unat (c_size c)) ys e"
    "16 dvd unat (c_size c)" "0 < unat (c_size c)"
  using assms by (auto simp: tiled_append)

lemma tiled_sep:
  assumes "tiled a (xs @ c # ys) e" and "d \<in> set xs \<union> set ys"
  shows "unat (c_addr d) + 48 + unat (c_size d) \<le> unat (c_addr c) \<or> unat (c_addr c) + 48 + unat (c_size c) \<le> unat (c_addr d)"
  using tiled_at [OF assms(1)] tiled_inside assms(2) by blast

section \<open>Splitting and merging\<close>

lemma kmem_split_effect:
  fixes m :: ram
  defines "m' b w k q \<equiv> kmem_split b w k q m"
  assumes "fits b" and "fits q" and "apart b 48 q 48" and "blk_next m b = nx"
    and "nx \<noteq> 0 \<Longrightarrow> apart nx 48 b 48 \<and> apart nx 48 q 48"
  shows
    "hdr (m' b w k q) \<lparr>c_addr = b, c_size = w, c_free = f\<rparr> p q \<longleftrightarrow>
       blk_magic m b = KMEM_MAGIC \<and> (blk_free m b \<longleftrightarrow> f) \<and> blk_prev m b = p"
    "hdr (m' b w k q) \<lparr>c_addr = q, c_size = blk_size m b - k - 48, c_free = True\<rparr> b nx"
    "nx \<noteq> 0 \<Longrightarrow> c_addr c = nx \<Longrightarrow> hdr m c b n \<Longrightarrow> hdr (m' b w k q) c q n"
    "apart b 48 a l \<Longrightarrow> apart q 48 a l \<Longrightarrow> (nx \<noteq> 0 \<Longrightarrow> apart nx 48 a l) \<Longrightarrow>
       ld_bytes (m' b w k q) a l = ld_bytes m a l"
proof -
  have ap: "apart q 48 b 48" "apart b 48 q 48"
    using assms(4) apart_sym by blast+
  have nx: "fits nx" "apart nx 48 b 48" "apart nx 48 q 48" "apart b 48 nx 48" "apart q 48 nx 48" if "nx \<noteq> 0"
    using assms(6) [OF that] apart_sym by (auto simp: apart_def fits_def)
  note h = assms(2-5) ap nx
  show "hdr (m' b w k q) \<lparr>c_addr = b, c_size = w, c_free = f\<rparr> p q \<longleftrightarrow>
       blk_magic m b = KMEM_MAGIC \<and> (blk_free m b \<longleftrightarrow> f) \<and> blk_prev m b = p"
    using h by (cases "nx = 0") (simp_all add: m'_def kmem_split_def Let_def header hdr_def)
  show "hdr (m' b w k q) \<lparr>c_addr = q, c_size = blk_size m b - k - 48, c_free = True\<rparr> b nx"
    using h by (cases "nx = 0") (simp_all add: m'_def kmem_split_def Let_def header hdr_def sizeof_block_def)
  show "nx \<noteq> 0 \<Longrightarrow> c_addr c = nx \<Longrightarrow> hdr m c b n \<Longrightarrow> hdr (m' b w k q) c q n"
    using h by (simp add: m'_def kmem_split_def Let_def header hdr_def)
  show "apart b 48 a l \<Longrightarrow> apart q 48 a l \<Longrightarrow> (nx \<noteq> 0 \<Longrightarrow> apart nx 48 a l) \<Longrightarrow>
       ld_bytes (m' b w k q) a l = ld_bytes m a l"
    using h by (cases "nx = 0") (simp_all add: m'_def kmem_split_def Let_def header)
qed

lemma kmem_merge_effect:
  fixes m :: ram
  defines "m' b q \<equiv> kmem_merge b q m"
  assumes "fits b" and "fits q" and "apart b 48 q 48" and "blk_next m q = nx"
    and "nx \<noteq> 0 \<Longrightarrow> apart nx 48 b 48 \<and> apart nx 48 q 48"
  shows
    "hdr (m' b q) \<lparr>c_addr = b, c_size = blk_size m b + (48 + blk_size m q), c_free = f\<rparr> p nx \<longleftrightarrow>
       blk_magic m b = KMEM_MAGIC \<and> (blk_free m b \<longleftrightarrow> f) \<and> blk_prev m b = p"
    "blk_magic (m' b q) q = 0"
    "nx \<noteq> 0 \<Longrightarrow> c_addr c = nx \<Longrightarrow> hdr m c q n \<Longrightarrow> hdr (m' b q) c b n"
    "apart b 48 a l \<Longrightarrow> apart q 48 a l \<Longrightarrow> (nx \<noteq> 0 \<Longrightarrow> apart nx 48 a l) \<Longrightarrow>
       ld_bytes (m' b q) a l = ld_bytes m a l"
proof -
  have ap: "apart q 48 b 48" "apart b 48 q 48"
    using assms(4) apart_sym by blast+
  have nx: "fits nx" "apart nx 48 b 48" "apart nx 48 q 48" "apart b 48 nx 48" "apart q 48 nx 48" if "nx \<noteq> 0"
    using assms(6) [OF that] apart_sym by (auto simp: apart_def fits_def)
  note h = assms(2-5) ap nx
  show "hdr (m' b q) \<lparr>c_addr = b, c_size = blk_size m b + (48 + blk_size m q), c_free = f\<rparr> p nx \<longleftrightarrow>
       blk_magic m b = KMEM_MAGIC \<and> (blk_free m b \<longleftrightarrow> f) \<and> blk_prev m b = p"
    using h by (cases "nx = 0") (simp_all add: m'_def kmem_merge_def Let_def header hdr_def sizeof_block_def)
  show "blk_magic (m' b q) q = 0"
    using h by (simp add: m'_def kmem_merge_def Let_def header)
  show "nx \<noteq> 0 \<Longrightarrow> c_addr c = nx \<Longrightarrow> hdr m c q n \<Longrightarrow> hdr (m' b q) c b n"
    using h by (simp add: m'_def kmem_merge_def Let_def header hdr_def)
  show "apart b 48 a l \<Longrightarrow> apart q 48 a l \<Longrightarrow> (nx \<noteq> 0 \<Longrightarrow> apart nx 48 a l) \<Longrightarrow>
       ld_bytes (m' b q) a l = ld_bytes m a l"
    using h by (cases "nx = 0") (simp_all add: m'_def kmem_merge_def Let_def header)
qed

text \<open>What changes lies in the headers of \<open>cs\<close>.\<close>

definition agree :: "chunk list \<Rightarrow> ram \<Rightarrow> ram \<Rightarrow> bool" where
  "agree cs m m' \<longleftrightarrow> (\<forall>a k. (\<forall>c\<in>set cs. apart (c_addr c) 48 a k) \<longrightarrow> ld_bytes m' a k = ld_bytes m a k)"

lemma agree_trans:
  assumes "agree cs m m'" and "agree ds m' m''" and "c_addr ` set ds \<subseteq> c_addr ` set cs"
  shows "agree cs m m''"
  unfolding agree_def
proof (intro allI impI)
  fix a k assume ap: "\<forall>c\<in>set cs. apart (c_addr c) 48 a k"
  then have "\<forall>d\<in>set ds. apart (c_addr d) 48 a k"
    using assms(3) by fastforce
  then show "ld_bytes m'' a k = ld_bytes m a k"
    using ap assms(1,2) unfolding agree_def by metis
qed

lemma tiled_apart:
  assumes "tiled a (xs @ c # ys) e" and "e < 2 ^ 64" and "d \<in> set xs \<union> set ys"
  shows "apart (c_addr c) 48 (c_addr d) 48"
  using tiled_sep [OF assms(1,3)] tiled_inside [OF assms(1), of c] tiled_inside [OF assms(1), of d] assms(2,3)
  by (auto simp: apart_def)

lemma tiled_fits: "tiled a cs e \<Longrightarrow> e < 2 ^ 64 \<Longrightarrow> c \<in> set cs \<Longrightarrow> fits (c_addr c)"
  using tiled_inside [of a cs e c] by (simp add: fits_def)

lemma first_addr_null: "tiled a cs e \<Longrightarrow> 0 < a \<Longrightarrow> first_addr cs = 0 \<longleftrightarrow> cs = []"
  by (cases cs) auto

lemma chain_relink:
  assumes "chain m q ys 0" and "\<And>c. c \<in> set (tl ys) \<Longrightarrow> ld_bytes m' (c_addr c) 48 = ld_bytes m (c_addr c) 48"
    and "\<And>c n. ys \<noteq> [] \<Longrightarrow> c = hd ys \<Longrightarrow> hdr m c q n \<Longrightarrow> hdr m' c q' n"
  shows "chain m' q' ys 0"
  using assms chain_cong [of "tl ys" m' m] by (cases ys) auto

lemma kmem_split_chain:
  assumes ch: "chain m 0 (xs @ c # ys) 0" and ti: "tiled a (xs @ c # ys) e" and e: "e < 2 ^ 64" "0 < a"
    and q: "unat q = unat (c_addr c) + 48 + unat w" and w: "16 dvd unat w" "0 < unat w" "unat w + 48 < unat (c_size c)"
  defines "cs \<equiv> xs @ c\<lparr>c_size := w\<rparr> # \<lparr>c_addr = q, c_size = c_size c - w - 48, c_free = True\<rparr> # ys"
    and "m' \<equiv> kmem_split (c_addr c) w w q m"
  shows "chain m' 0 cs 0" "tiled a cs e" "agree cs m m'"
proof -
  let ?b = "c_addr c" and ?nx = "first_addr ys"
  have hc: "hdr m c (last_addr xs 0) ?nx" and xs: "chain m 0 xs ?b" and ys: "chain m ?b ys 0"
    using ch by (auto simp: chain_append split: if_splits)
  note at = tiled_at [OF ti]
  have nx0: "?nx = 0 \<longleftrightarrow> ys = []"
    using first_addr_null [OF at(2)] by simp
  have ci: "unat ?b + 48 + unat (c_size c) \<le> e"
    using tiled_inside [OF ti, of c] by simp
  have sz: "unat (c_size c - w - 48) = unat (c_size c) - unat w - 48"
    using w(3) by (simp add: unat_sub_if_size)
  have bq: "apart ?b 48 q 48"
    using q w ci e by (simp add: apart_def)
  have apq: "apart q 48 (c_addr d) 48" if "d \<in> set xs \<union> set ys" for d
    using tiled_sep [OF ti that] tiled_inside [OF ti, of d] that q w ci e by (auto simp: apart_def)
  have apb: "apart ?b 48 (c_addr d) 48" if "d \<in> set xs \<union> set ys" for d
    using tiled_apart [OF ti e(1) that] .
  have nx: "apart ?nx 48 ?b 48 \<and> apart ?nx 48 q 48" if "?nx \<noteq> 0"
    using that apq apb apart_sym by (cases ys) auto
  have nxt: "blk_next m ?b = ?nx"
    using hc by (simp add: hdr_def)
  have fb: "fits ?b" "fits q"
    using bq by (auto simp: apart_def fits_def)
  note eff = kmem_split_effect [OF fb bq nxt nx, where w = w and k = w, folded m'_def]
  have frame: "ld_bytes m' (c_addr d) 48 = ld_bytes m (c_addr d) 48" if "d \<in> set xs \<union> set (tl ys)" for d
  proof (rule eff(4))
    show "apart ?b 48 (c_addr d) 48" "apart q 48 (c_addr d) 48"
      using that apb apq by (cases ys; auto)+
    show "apart ?nx 48 (c_addr d) 48" if "?nx \<noteq> 0"
    proof (cases ys)
      case (Cons y zs)
      have "tiled a ((xs @ [c]) @ y # zs) e"
        using ti Cons by simp
      then show ?thesis
        using tiled_apart [of a "xs @ [c]" y zs e d] e \<open>d \<in> set xs \<union> set (tl ys)\<close> Cons by simp
    qed (use that in simp)
  qed
  have "chain m' q ys 0"
  proof (rule chain_relink [OF ys])
    show "hdr m' d q n" if "ys \<noteq> []" "d = hd ys" "hdr m d ?b n" for d n
      using eff(3) [of d n] that nx0 by (cases ys) auto
  qed (use frame in auto)
  moreover have "chain m' 0 xs ?b"
    using xs chain_cong [of xs m' m] frame by simp
  moreover have "hdr m' (c\<lparr>c_size := w\<rparr>) (last_addr xs 0) q"
    using eff(1) [of "c_free c" "last_addr xs 0"] hc by (simp add: hdr_def)
  moreover have "hdr m' \<lparr>c_addr = q, c_size = c_size c - w - 48, c_free = True\<rparr> ?b ?nx"
    using eff(2) hc by (simp add: hdr_def)
  ultimately show "chain m' 0 cs 0"
    using nx0 by (auto simp: cs_def chain_append)
  have "16 dvd unat (c_size c) - unat w - 48"
    using at(3) w(1) by (simp add: dvd_diff_nat)
  then show "tiled a cs e"
    using at w q sz by (auto simp: cs_def tiled_append add.assoc)
  show "agree cs m m'"
    unfolding agree_def
  proof (intro allI impI)
    fix a l assume ap: "\<forall>c\<in>set cs. apart (c_addr c) 48 a l"
    show "ld_bytes m' a l = ld_bytes m a l"
    proof (rule eff(4))
      show "apart ?nx 48 a l" if "?nx \<noteq> 0"
        using that ap by (cases ys) (auto simp: cs_def)
    qed (use ap in \<open>auto simp: cs_def\<close>)
  qed
qed

lemma kmem_merge_chain:
  assumes ch: "chain m 0 (xs @ c # d # ys) 0" and ti: "tiled a (xs @ c # d # ys) e" and e: "e < 2 ^ 64" "0 < a"
  defines "cs \<equiv> xs @ c\<lparr>c_size := c_size c + (48 + c_size d)\<rparr> # ys"
    and "m' \<equiv> kmem_merge (c_addr c) (c_addr d) m"
  shows "chain m' 0 cs 0" "tiled a cs e" "agree (xs @ c # d # ys) m m'" "blk_magic m' (c_addr d) = 0"
proof -
  let ?b = "c_addr c" and ?q = "c_addr d" and ?nx = "first_addr ys"
  have hc: "hdr m c (last_addr xs 0) ?q" and hd: "hdr m d ?b ?nx" and xs: "chain m 0 xs ?b" and ys: "chain m ?q ys 0"
    using ch by (auto simp: chain_append split: if_splits)
  have ti': "tiled a ((xs @ [c]) @ d # ys) e"
    using ti by simp
  note at = tiled_at [OF ti] and at' = tiled_at [OF ti']
  have nx0: "?nx = 0 \<longleftrightarrow> ys = []"
    using first_addr_null [OF at'(2)] by simp
  have adj: "unat ?q = unat ?b + 48 + unat (c_size c)"
    using at(2) by simp
  have di: "unat ?q + 48 + unat (c_size d) \<le> e"
    using tiled_inside [OF ti, of d] by simp
  have "unat (48 + c_size d) = 48 + unat (c_size d)"
    using di e by (subst unat_add_nowrap) simp_all
  then have sz: "unat (c_size c + (48 + c_size d)) = unat (c_size c) + 48 + unat (c_size d)"
    using di adj e by (subst unat_add_nowrap) simp_all
  have apb: "apart ?b 48 (c_addr x) 48" if "x \<in> set xs \<union> set (d # ys)" for x
    using tiled_apart [OF ti e(1) that] .
  have apq: "apart ?q 48 (c_addr x) 48" if "x \<in> set xs \<union> set ys" for x
    using tiled_apart [OF ti' e(1), of x] that by auto
  have bq: "apart ?b 48 ?q 48"
    using apb by simp
  have nx: "apart ?nx 48 ?b 48 \<and> apart ?nx 48 ?q 48" if "?nx \<noteq> 0"
    using that apq apb apart_sym by (cases ys) auto
  have nxt: "blk_next m ?q = ?nx"
    using hd by (simp add: hdr_def)
  have fb: "fits ?b" "fits ?q"
    using bq by (auto simp: apart_def fits_def)
  note eff = kmem_merge_effect [OF fb bq nxt nx, folded m'_def]
  have frame: "ld_bytes m' (c_addr x) 48 = ld_bytes m (c_addr x) 48" if "x \<in> set xs \<union> set (tl ys)" for x
  proof (rule eff(4))
    show "apart ?b 48 (c_addr x) 48" "apart ?q 48 (c_addr x) 48"
      using that apb apq by (cases ys; auto)+
    show "apart ?nx 48 (c_addr x) 48" if "?nx \<noteq> 0"
    proof (cases ys)
      case (Cons y zs)
      have "tiled a ((xs @ [c, d]) @ y # zs) e"
        using ti Cons by simp
      then show ?thesis
        using tiled_apart [of a "xs @ [c, d]" y zs e x] e \<open>x \<in> set xs \<union> set (tl ys)\<close> Cons by simp
    qed (use that in simp)
  qed
  have "chain m' ?b ys 0"
  proof (rule chain_relink [OF ys])
    show "hdr m' x ?b n" if "ys \<noteq> []" "x = hd ys" "hdr m x ?q n" for x n
      using eff(3) [of x n] that nx0 by (cases ys) auto
  qed (use frame in auto)
  moreover have "chain m' 0 xs ?b"
    using xs chain_cong [of xs m' m] frame by simp
  moreover have "hdr m' (c\<lparr>c_size := c_size c + (48 + c_size d)\<rparr>) (last_addr xs 0) ?nx"
    using eff(1) [of "c_free c" "last_addr xs 0"] hc hd by (simp add: hdr_def)
  ultimately show "chain m' 0 cs 0"
    using nx0 by (auto simp: cs_def chain_append)
  show "tiled a cs e"
    using at at' adj sz by (auto simp: cs_def tiled_append algebra_simps)
  show "agree (xs @ c # d # ys) m m'"
    unfolding agree_def
  proof (intro allI impI)
    fix a l assume ap: "\<forall>x\<in>set (xs @ c # d # ys). apart (c_addr x) 48 a l"
    show "ld_bytes m' a l = ld_bytes m a l"
    proof (rule eff(4))
      show "apart ?nx 48 a l" if "?nx \<noteq> 0"
        using that ap by (cases ys) auto
    qed (use ap in auto)
  qed
  show "blk_magic m' ?q = 0"
    by (rule eff(2))
qed

section \<open>Alignment\<close>

lemma kmem_align_up_ptr_nat:
  "unat (kmem_align_up_ptr v KMEM_ALIGN) = (if unat v \<le> 2 ^ 64 - 16 then (unat v + 15) div 16 * 16 else 0)"
proof -
  have "15 = (mask 4 :: u64)"
    by (simp add: mask_eq_exp_minus_1)
  then have "unat ((v + 15) AND NOT 15) = unat (v + 15) div 16 * 16"
    using unat_and_not_mask [of "v + 15" 4] by (simp add: minus_mod_eq_div_mult)
  moreover have "unat (v + 15) = unat v + 15" if "unat v \<le> 2 ^ 64 - 16"
    using that by (subst unat_add_nowrap) simp_all
  ultimately show ?thesis
    by (simp add: kmem_align_up_ptr_def KMEM_ALIGN_def SIZE_MAX_def Let_def word_less_nat_alt)
qed

lemma kmem_align_up_size_eq: "kmem_align_up_size v KMEM_ALIGN = kmem_align_up_ptr v KMEM_ALIGN"
  by (simp add: kmem_align_up_size_def kmem_align_up_ptr_def KMEM_ALIGN_def)

lemma kmem_align_up_aligned:
  assumes "16 dvd unat v"
  shows "kmem_align_up_ptr v KMEM_ALIGN = v"
proof -
  obtain k where k: "unat v = 16 * k"
    using assms by blast
  have "unat v < 2 ^ 64"
    using unsigned_less [of v, where 'a = nat] by simp
  then have "unat (kmem_align_up_ptr v KMEM_ALIGN) = unat v"
    unfolding kmem_align_up_ptr_nat k by simp
  then show ?thesis
    by (simp add: word_unat_eq_iff)
qed

section \<open>Coalescing\<close>

lemma payload_end:
  assumes "tiled a (xs @ c # ys) e" and "e < 2 ^ 64"
  shows "unat (kmem_payload (c_addr c)) = unat (c_addr c) + 48"
    "unat (kmem_payload (c_addr c) + c_size c) = unat (c_addr c) + 48 + unat (c_size c)"
proof -
  have ci: "unat (c_addr c) + 48 + unat (c_size c) \<le> e"
    using tiled_inside [OF assms(1), of c] by simp
  show pay: "unat (kmem_payload (c_addr c)) = unat (c_addr c) + 48"
    using ci assms(2) by (simp add: kmem_payload_def sizeof_block_def unat_add_nowrap)
  show "unat (kmem_payload (c_addr c) + c_size c) = unat (c_addr c) + 48 + unat (c_size c)"
    using ci assms(2) pay by (subst unat_add_nowrap) simp_all
qed

lemma coalesce_stop:
  assumes "chain m 0 (xs @ c # ys) 0" and "ys = [] \<or> \<not> c_free (hd ys)"
  shows "kmem_coalesce_forward (c_addr c) m = Some m"
proof -
  have "blk_next m (c_addr c) = 0 \<or> \<not> blk_free m (blk_next m (c_addr c))"
    using assms by (cases ys) (auto simp: chain_append hdr_def)
  then show ?thesis
    by (subst kmem_coalesce_forward.simps) auto
qed

lemma coalesce_step:
  assumes ch: "chain m 0 (xs @ c # d # ys) 0" and ti: "tiled a (xs @ c # d # ys) e" and e: "e < 2 ^ 64" "0 < a"
    and a: "16 dvd a" and d: "c_free d"
  shows "kmem_coalesce_forward (c_addr c) m = kmem_coalesce_forward (c_addr c) (kmem_merge (c_addr c) (c_addr d) m)"
proof -
  have f: "blk_next m (c_addr c) = c_addr d" "blk_free m (c_addr d)" "blk_size m (c_addr c) = c_size c"
    using ch d by (auto simp: chain_append hdr_def)
  have "0 < unat (c_addr c)" "0 < unat (c_addr d)"
    using tiled_inside [OF ti, of c] tiled_inside [OF ti, of d] e(2) by auto
  then have nz: "c_addr c \<noteq> 0" "c_addr d \<noteq> 0"
    by auto
  have "unat (kmem_payload (c_addr c) + c_size c) = unat (c_addr d)"
    using payload_end(2) [OF ti e(1)] tiled_at(2) [OF ti] by simp
  then have "kmem_payload (c_addr c) + c_size c = c_addr d"
    by (simp add: word_unat_eq_iff)
  moreover have "16 dvd unat (c_addr d)"
    using tiled_aligned [OF ti a, of d] by simp
  ultimately have "kmem_align_up_ptr (kmem_payload (c_addr c) + blk_size m (c_addr c)) KMEM_ALIGN = c_addr d"
    using kmem_align_up_aligned [of "c_addr d"] f by simp
  then show ?thesis
    using f nz by (subst kmem_coalesce_forward.simps) (simp add: Let_def)
qed

lemma put_free_chain:
  assumes ch: "chain m 0 (xs @ c # ys) 0" and ti: "tiled a (xs @ c # ys) e" and e: "e < 2 ^ 64"
  shows "chain (put_free (c_addr c) v m) 0 (xs @ c\<lparr>c_free := v \<noteq> 0\<rparr> # ys) 0" "agree (xs @ c # ys) m (put_free (c_addr c) v m)"
proof -
  have frame: "ld_bytes (put_free (c_addr c) v m) (c_addr d) 48 = ld_bytes m (c_addr d) 48" if "d \<in> set xs \<union> set ys" for d
    using tiled_apart [OF ti e that] by (rule put_outside)
  have "hdr (put_free (c_addr c) v m) (c\<lparr>c_free := v \<noteq> 0\<rparr>) p n" if "hdr m c p n" for p n
    using that tiled_fits [OF ti e, of c] by (simp add: hdr_def header)
  then show "chain (put_free (c_addr c) v m) 0 (xs @ c\<lparr>c_free := v \<noteq> 0\<rparr> # ys) 0"
    using ch chain_cong [of xs "put_free (c_addr c) v m" m] chain_cong [of ys "put_free (c_addr c) v m" m] frame
    by (auto simp: chain_append)
  show "agree (xs @ c # ys) m (put_free (c_addr c) v m)"
    by (simp add: agree_def header)
qed

section \<open>The invariant and the objects\<close>

definition kmem_inv :: "kmem_heap \<Rightarrow> chunk list \<Rightarrow> bool" where
  "kmem_inv h cs \<longleftrightarrow> g_initialized h \<and> 0 < unat (g_heap_base h) \<and> 16 dvd unat (g_heap_base h) \<and>
     g_head h = g_heap_base h \<and> cs \<noteq> [] \<and> unat (g_heap_end h) - unat (g_heap_base h) < 2 ^ 63 \<and>
     tiled (unat (g_heap_base h)) cs (unat (g_heap_end h)) \<and> chain (ram h) 0 cs 0 \<and>
     successively (\<lambda>c d. \<not> (c_free c \<and> c_free d)) cs"

definition used :: "chunk list \<Rightarrow> chunk set" where
  "used cs = {c \<in> set cs. \<not> c_free c}"

lemma used_simps: "used [] = {}" "used (c # cs) = (if c_free c then used cs else insert c (used cs))"
  "used (cs @ ds) = used cs \<union> used ds"
  by (auto simp: used_def)

definition object_at :: "ram \<Rightarrow> chunk \<Rightarrow> bytes" where
  "object_at m c = ld_bytes m (kmem_payload (c_addr c)) (unat (c_size c))"

text \<open>The objects in use: the pointer that the client has and the bytes of the block.\<close>

definition objs :: "ram \<Rightarrow> chunk list \<Rightarrow> u64 \<rightharpoonup> bytes" where
  "objs m cs = map_of (map (\<lambda>c. (kmem_payload (c_addr c), object_at m c)) (filter (\<lambda>c. \<not> c_free c) cs))"

lemma kmem_payload_inj [simp]: "kmem_payload p = kmem_payload q \<longleftrightarrow> p = q"
  by (simp add: kmem_payload_def)

lemma tiled_distinct: "tiled a cs e \<Longrightarrow> distinct (map c_addr cs)"
proof (induction cs arbitrary: a)
  case (Cons c cs)
  then show ?case
    using tiled_inside [of "a + 48 + unat (c_size c)" cs e] by fastforce
qed simp

lemma objs_iff:
  assumes "tiled a cs e"
  shows "objs m cs p = Some bs \<longleftrightarrow> (\<exists>c\<in>used cs. p = kmem_payload (c_addr c) \<and> bs = object_at m c)"
proof -
  have "distinct (map (kmem_payload \<circ> c_addr) (filter (\<lambda>c. \<not> c_free c) cs))"
    using tiled_distinct [OF assms] by (auto simp: distinct_map inj_on_def)
  then have "distinct (map fst (map (\<lambda>c. (kmem_payload (c_addr c), object_at m c)) (filter (\<lambda>c. \<not> c_free c) cs)))"
    by (simp add: comp_def)
  then show ?thesis
    by (auto simp: objs_def used_def map_of_eq_Some_iff)
qed

lemma map_eqI: "(\<And>p x. f p = Some x \<longleftrightarrow> g p = Some x) \<Longrightarrow> f = g"
  by (rule ext) (metis not_Some_eq)

text \<open>An object lies outside all headers, and objects do not overlap.\<close>

lemma payload_apart:
  assumes ti: "tiled a cs e" and e: "e < 2 ^ 64" and c: "c \<in> set cs" and d: "d \<in> set cs"
  shows "apart (c_addr d) 48 (kmem_payload (c_addr c)) (unat (c_size c))"
proof -
  obtain xs ys where cs: "cs = xs @ c # ys"
    using c by (meson split_list)
  have "unat (kmem_payload (c_addr c)) = unat (c_addr c) + 48"
    using payload_end(1) [of a xs c ys e] ti e cs by simp
  moreover have "d = c \<or> d \<in> set xs \<union> set ys"
    using d cs by auto
  ultimately show ?thesis
    using tiled_sep [of a xs c ys e d] ti tiled_inside [OF ti c] tiled_inside [OF ti d] e cs by (auto simp: apart_def)
qed

lemma payload_disjoint:
  assumes ti: "tiled a cs e" and e: "e < 2 ^ 64" and c: "c \<in> set cs" and d: "d \<in> set cs" and "c_addr c \<noteq> c_addr d"
  shows "apart (kmem_payload (c_addr d)) (unat (c_size d)) (kmem_payload (c_addr c)) (unat (c_size c))"
proof -
  obtain xs ys where cs: "cs = xs @ c # ys"
    using c by (meson split_list)
  obtain us vs where cs': "cs = us @ d # vs"
    using d by (meson split_list)
  have "unat (kmem_payload (c_addr c)) = unat (c_addr c) + 48" "unat (kmem_payload (c_addr d)) = unat (c_addr d) + 48"
    using payload_end(1) [of a xs c ys e] payload_end(1) [of a us d vs e] ti e cs cs' by simp_all
  moreover have "d \<in> set xs \<union> set ys"
    using d cs assms(5) by auto
  ultimately show ?thesis
    using tiled_sep [of a xs c ys e d] ti tiled_inside [OF ti c] tiled_inside [OF ti d] e cs by (auto simp: apart_def)
qed

lemma object_kept:
  assumes "agree ds m m'" and "tiled a cs e" and "e < 2 ^ 64" and "c \<in> set cs" and "c_addr ` set ds \<subseteq> c_addr ` set cs"
  shows "object_at m' c = object_at m c"
proof -
  have "\<forall>d\<in>set ds. apart (c_addr d) 48 (kmem_payload (c_addr c)) (unat (c_size c))"
    using payload_apart [OF assms(2-4)] assms(5) by fastforce
  then show ?thesis
    using assms(1) by (simp add: object_at_def agree_def)
qed

lemma objs_insert:
  assumes "tiled a cs e" and "tiled a cs' e" and "used cs' = insert c (used cs)"
    and "c_addr c \<notin> c_addr ` used cs" and "\<And>d. d \<in> used cs \<Longrightarrow> object_at m' d = object_at m d"
  shows "objs m' cs' = (objs m cs)(kmem_payload (c_addr c) \<mapsto> object_at m' c)"
proof (rule map_eqI)
  fix p bs
  show "objs m' cs' p = Some bs \<longleftrightarrow> ((objs m cs)(kmem_payload (c_addr c) \<mapsto> object_at m' c)) p = Some bs"
    using assms(3-5) by (auto simp: objs_iff [OF assms(2)] objs_iff [OF assms(1)])
qed

lemma objs_delete:
  assumes "tiled a cs e" and "tiled a cs' e" and "used cs' = used cs - {c}" and "c \<in> used cs"
    and "\<And>d. d \<in> used cs' \<Longrightarrow> object_at m' d = object_at m d"
  shows "objs m' cs' = (objs m cs)(kmem_payload (c_addr c) := None)"
proof (rule map_eqI)
  fix p bs
  have uniq: "d = c" if "d \<in> used cs" "c_addr d = c_addr c" for d
    using that assms(4) tiled_distinct [OF assms(1)] by (auto simp: used_def distinct_map inj_on_def)
  have old: "objs m' cs' p = Some bs \<longleftrightarrow> (\<exists>d\<in>used cs - {c}. p = kmem_payload (c_addr d) \<and> bs = object_at m d)"
    using assms(5) unfolding objs_iff [OF assms(2)] assms(3) by (metis assms(3))
  show "objs m' cs' p = Some bs \<longleftrightarrow> ((objs m cs)(kmem_payload (c_addr c) := None)) p = Some bs"
  proof (cases "p = kmem_payload (c_addr c)")
    case True
    then show ?thesis
      using old uniq by auto
  next
    case False
    then show ?thesis
      using old by (auto simp: objs_iff [OF assms(1)])
  qed
qed

section \<open>Allocation\<close>

lemma split_cases:
  assumes ch: "chain (ram h) 0 (xs @ c # ys) 0" and ti: "tiled a (xs @ c # ys) (unat (g_heap_end h))"
    and a: "16 dvd a" "0 < a" and w: "16 dvd unat w" "unat w \<le> unat (c_size c)" and sz: "unat (c_size c) < 2 ^ 63"
  shows "kmem_split_if_useful h (c_addr c) w = h \<or>
    (\<exists>q. unat q = unat (c_addr c) + 48 + unat w \<and> unat w + 48 < unat (c_size c) \<and>
       kmem_split_if_useful h (c_addr c) w = h\<lparr>ram := kmem_split (c_addr c) w w q (ram h)\<rparr>)"
proof -
  let ?q = "kmem_payload (c_addr c) + w"
  have e: "unat (g_heap_end h) < 2 ^ 64"
    using unsigned_less [of "g_heap_end h", where 'a = nat] by simp
  have size: "blk_size (ram h) (c_addr c) = c_size c"
    using ch by (simp add: chain_append hdr_def)
  have q: "unat ?q = unat (c_addr c) + 48 + unat w"
    using payload_end [OF ti e] tiled_inside [OF ti, of c] w e by (subst unat_add_nowrap) simp_all
  have "16 dvd unat (c_addr c)"
    using tiled_aligned [OF ti a(1), of c] by simp
  then have al: "kmem_align_up_ptr ?q KMEM_ALIGN = ?q"
    using q w(1) by (intro kmem_align_up_aligned) simp
  have "unat (w + 48 + 32) = unat w + 80"
    using w sz by (simp add: unat_word_ariths)
  moreover have "kmem_align_up_size sizeof_block KMEM_ALIGN = 48"
    using kmem_align_up_aligned [of sizeof_block] by (simp add: kmem_align_up_size_eq sizeof_block_def)
  moreover have "?q - kmem_payload (c_addr c) = w"
    by simp
  ultimately show ?thesis
    using q by (auto simp: kmem_split_if_useful_def size al Let_def KMEM_MIN_SPLIT_def sizeof_block_def word_less_nat_alt
        intro!: exI [of _ ?q])
qed

lemma successively_replace:
  assumes "successively P (xs @ c # ys)" and "\<And>d. P d c \<Longrightarrow> P d c'" and "\<And>d. P c d \<Longrightarrow> P c' d"
  shows "successively P (xs @ c' # ys)"
  using assms by (auto simp: successively_append_iff successively_Cons)

text \<open>Taking a free block, split or whole.\<close>

lemma alloc_at:
  assumes inv: "kmem_inv h (xs @ c # ys)" and c: "c_free c" and w: "16 dvd unat w" "0 < unat w" "unat w \<le> unat (c_size c)"
  defines "h1 \<equiv> kmem_split_if_useful h (c_addr c) w"
  defines "h' \<equiv> h1\<lparr>ram := put_free (c_addr c) 0 (ram h1)\<rparr>"
  shows "\<exists>cs' bs. kmem_inv h' cs' \<and> h' = h\<lparr>ram := ram h'\<rparr> \<and> unat w \<le> length bs \<and> objs (ram h) (xs @ c # ys) (kmem_payload (c_addr c)) = None \<and>
    objs (ram h') cs' = (objs (ram h) (xs @ c # ys))(kmem_payload (c_addr c) \<mapsto> bs)"
proof -
  let ?a = "unat (g_heap_base h)" and ?e = "unat (g_heap_end h)"
  have e: "?e < 2 ^ 64"
    using unsigned_less [of "g_heap_end h", where 'a = nat] by simp
  have ch: "chain (ram h) 0 (xs @ c # ys) 0" and ti: "tiled ?a (xs @ c # ys) ?e" and a: "16 dvd ?a" "0 < ?a"
    and su: "successively (\<lambda>c d. \<not> (c_free c \<and> c_free d)) (xs @ c # ys)" and lim: "?e - ?a < 2 ^ 63"
    using inv by (auto simp: kmem_inv_def)
  have sz: "unat (c_size c) < 2 ^ 63"
    using tiled_inside [OF ti, of c] lim by auto
  have fresh: "c_addr c \<notin> c_addr ` used (xs @ c # ys)"
    using tiled_distinct [OF ti] c by (auto simp: used_def rev_image_eqI)
  then have notin: "objs (ram h) (xs @ c # ys) (kmem_payload (c_addr c)) = None"
    using objs_iff [OF ti, of "ram h" "kmem_payload (c_addr c)"] by (cases "objs (ram h) (xs @ c # ys) (kmem_payload (c_addr c))") auto
  obtain c1 vs m1 where cs1: "chain m1 0 (xs @ c1 # vs) 0" "tiled ?a (xs @ c1 # vs) ?e"
    "agree (xs @ c1 # vs) (ram h) m1" "c_addr c1 = c_addr c" "unat w \<le> unat (c_size c1)" "c_free c1"
    and h1: "h1 = h\<lparr>ram := m1\<rparr>"
    and vs: "set ys \<subseteq> set vs" "\<And>d. d \<in> set vs \<Longrightarrow> d \<in> set ys \<or> c_free d"
    "successively (\<lambda>c d. \<not> (c_free c \<and> c_free d)) vs" "c_addr ` set (c # ys) \<subseteq> c_addr ` set (c1 # vs)"
  proof -
    from split_cases [OF ch ti a w(1,3) sz] consider "h1 = h" |
      q where "unat q = unat (c_addr c) + 48 + unat w" "unat w + 48 < unat (c_size c)"
        "h1 = h\<lparr>ram := kmem_split (c_addr c) w w q (ram h)\<rparr>"
      unfolding h1_def by blast
    then show ?thesis
    proof cases
      case 1
      show ?thesis
      proof (rule that [of "ram h" c ys])
        show "successively (\<lambda>c d. \<not> (c_free c \<and> c_free d)) ys"
          using su by (auto simp: successively_append_iff successively_Cons)
      qed (use 1 ch ti c w in \<open>simp_all add: agree_def\<close>)
    next
      case (2 q)
      note s = kmem_split_chain [OF ch ti e a(2) 2(1) w(1,2) 2(2)]
      show ?thesis
      proof (rule that [of "kmem_split (c_addr c) w w q (ram h)" "c\<lparr>c_size := w\<rparr>" "\<lparr>c_addr = q, c_size = c_size c - w - 48, c_free = True\<rparr> # ys"])
        show "successively (\<lambda>c d. \<not> (c_free c \<and> c_free d)) (\<lparr>c_addr = q, c_size = c_size c - w - 48, c_free = True\<rparr> # ys)"
          using su c by (auto simp: successively_append_iff successively_Cons)
      qed (use 2 s c in \<open>auto\<close>)
    qed
  qed
  let ?c' = "c1\<lparr>c_free := False\<rparr>" let ?cs = "xs @ ?c' # vs"
  note f = put_free_chain [OF cs1(1,2) e, of 0]
  have ti': "tiled ?a ?cs ?e"
    using cs1(2) by (auto simp: tiled_append)
  have "successively (\<lambda>c d. \<not> (c_free c \<and> c_free d)) ?cs"
    using su vs(3) by (auto simp: successively_append_iff successively_Cons)
  then have "kmem_inv h' ?cs"
    using inv f(1) ti' cs1(4) by (simp add: kmem_inv_def h'_def h1)
  moreover have "objs (ram h') ?cs = (objs (ram h) (xs @ c # ys))(kmem_payload (c_addr ?c') \<mapsto> object_at (ram h') ?c')"
  proof (rule objs_insert [OF ti ti'])
    show "used ?cs = insert ?c' (used (xs @ c # ys))"
      using vs(1,2) c by (auto simp: used_def)
    show "c_addr ?c' \<notin> c_addr ` used (xs @ c # ys)"
      using fresh cs1(4) by simp
    fix d assume "d \<in> used (xs @ c # ys)"
    then have d: "d \<in> set (xs @ c1 # vs)"
      using vs(1) c by (auto simp: used_def)
    have "agree (xs @ c1 # vs) (ram h) (ram h')"
      using agree_trans [OF cs1(3) f(2)] cs1(4) by (simp add: h'_def h1)
    then show "object_at (ram h') d = object_at (ram h) d"
      using object_kept [OF _ cs1(2) e d] by blast
  qed
  ultimately show ?thesis
    using notin cs1(4,5) by (intro exI [of _ ?cs] exI [of _ "object_at (ram h') ?c'"]) (simp add: object_at_def h'_def h1)
qed

definition fitting :: "u64 \<Rightarrow> chunk \<Rightarrow> bool" where
  "fitting w c \<longleftrightarrow> c_free c \<and> w \<le> c_size c"

lemma alloc_loop_first_fit:
  assumes "chain (ram h) 0 (xs @ ys) 0" and "tiled a (xs @ ys) e" and "0 < a"
  shows "kmem_alloc_loop h (first_addr ys) w = (case find (fitting w) ys of None \<Rightarrow> Some (0, h)
    | Some c \<Rightarrow> let h1 = kmem_split_if_useful h (c_addr c) w in
        Some (kmem_payload (c_addr c), h1\<lparr>ram := put_free (c_addr c) 0 (ram h1)\<rparr>))"
  using assms
proof (induction ys arbitrary: xs)
  case Nil
  then show ?case
    by (simp add: kmem_alloc_loop.simps)
next
  case (Cons c ys)
  have hc: "blk_magic (ram h) (c_addr c) = KMEM_MAGIC" "blk_free (ram h) (c_addr c) = c_free c"
    "blk_size (ram h) (c_addr c) = c_size c" "blk_next (ram h) (c_addr c) = first_addr ys"
    using Cons.prems(1) by (auto simp: chain_append hdr_def)
  have "c_addr c \<noteq> 0"
    using tiled_inside [OF Cons.prems(2), of c] Cons.prems(3) by auto
  moreover have "kmem_alloc_loop h (first_addr ys) w = (case find (fitting w) ys of None \<Rightarrow> Some (0, h)
    | Some c \<Rightarrow> let h1 = kmem_split_if_useful h (c_addr c) w in
        Some (kmem_payload (c_addr c), h1\<lparr>ram := put_free (c_addr c) 0 (ram h1)\<rparr>))"
    using Cons.IH [of "xs @ [c]"] Cons.prems by simp
  ultimately show ?case
    using hc by (subst kmem_alloc_loop.simps) (simp add: fitting_def Let_def)
qed

lemma fitting_rounded:
  assumes "16 dvd unat (c_size c)" and "bytes \<noteq> 0" and "unat (c_size c) < 2 ^ 63"
  defines "w \<equiv> kmem_align_up_size bytes KMEM_ALIGN"
  shows "w \<noteq> 0 \<and> w \<le> c_size c \<longleftrightarrow> bytes \<le> c_size c"
    "bytes \<le> c_size c \<Longrightarrow> 16 dvd unat w \<and> unat bytes \<le> unat w"
proof -
  obtain k where k: "unat (c_size c) = 16 * k"
    using assms(1) by blast
  have w: "unat w = (if unat bytes \<le> 2 ^ 64 - 16 then (unat bytes + 15) div 16 * 16 else 0)"
    by (simp only: w_def kmem_align_up_size_eq kmem_align_up_ptr_nat)
  have "0 < unat bytes"
    using assms(2) by (simp add: unat_gt_0)
  then have nz: "w \<noteq> 0 \<longleftrightarrow> unat bytes \<le> 2 ^ 64 - 16"
    using w by (auto simp: word_unat_eq_iff)
  have lim: "unat bytes \<le> 16 * k \<Longrightarrow> unat bytes \<le> 2 ^ 64 - 16"
    using assms(3) k by simp
  have "(unat bytes + 15) div 16 * 16 \<le> 16 * k \<longleftrightarrow> (unat bytes + 15) div 16 < Suc k"
    by linarith
  also have "\<dots> \<longleftrightarrow> unat bytes \<le> 16 * k"
    by (subst div_less_iff_less_mult) auto
  finally have "(unat bytes + 15) div 16 * 16 \<le> 16 * k \<longleftrightarrow> unat bytes \<le> 16 * k" .
  then show "w \<noteq> 0 \<and> w \<le> c_size c \<longleftrightarrow> bytes \<le> c_size c"
    using nz lim w by (auto simp: word_le_nat_alt k)
  assume "bytes \<le> c_size c"
  then have "unat w = (unat bytes + 15) div 16 * 16"
    using lim w by (auto simp: word_le_nat_alt k)
  then show "16 dvd unat w \<and> unat bytes \<le> unat w"
    by simp
qed

lemma kmem_inv_facts:
  assumes "kmem_inv h cs"
  shows "tiled (unat (g_heap_base h)) cs (unat (g_heap_end h))" "chain (ram h) 0 cs 0" "16 dvd unat (g_heap_base h)"
    "0 < unat (g_heap_base h)" "unat (g_heap_end h) < 2 ^ 64" "g_head h = first_addr cs" "g_initialized h" "cs \<noteq> []"
    "successively (\<lambda>c d. \<not> (c_free c \<and> c_free d)) cs"
    "c \<in> set cs \<Longrightarrow> 16 dvd unat (c_size c) \<and> unat (c_size c) < 2 ^ 63 \<and> 16 dvd unat (c_addr c) \<and> 0 < unat (c_addr c)"
proof -
  show ti: "tiled (unat (g_heap_base h)) cs (unat (g_heap_end h))" and "chain (ram h) 0 cs 0"
    and a: "16 dvd unat (g_heap_base h)" and "0 < unat (g_heap_base h)" and "g_initialized h" and "cs \<noteq> []"
    and "successively (\<lambda>c d. \<not> (c_free c \<and> c_free d)) cs"
    using assms by (auto simp: kmem_inv_def)
  show "unat (g_heap_end h) < 2 ^ 64"
    using unsigned_less [of "g_heap_end h", where 'a = nat] by simp
  show "g_head h = first_addr cs"
    using assms by (cases cs) (auto simp: kmem_inv_def word_unat_eq_iff)
  show "16 dvd unat (c_size c) \<and> unat (c_size c) < 2 ^ 63 \<and> 16 dvd unat (c_addr c) \<and> 0 < unat (c_addr c)" if "c \<in> set cs"
    using tiled_inside [OF ti that] tiled_aligned [OF ti a that] assms by (auto simp: kmem_inv_def)
qed

lemma alloc_spec:
  assumes inv: "kmem_inv h cs"
  shows "\<exists>p h' cs'. kmem_alloc h bytes = Some (p, h') \<and> kmem_inv h' cs' \<and> h' = h\<lparr>ram := ram h'\<rparr> \<and>
    (if bytes \<noteq> 0 \<and> (\<exists>c\<in>set cs. fitting bytes c)
     then p \<noteq> 0 \<and> 16 dvd unat p \<and> objs (ram h) cs p = None \<and>
       (\<exists>bs. unat bytes \<le> length bs \<and> objs (ram h') cs' = (objs (ram h) cs)(p \<mapsto> bs))
     else p = 0 \<and> h' = h \<and> cs' = cs)"
proof -
  let ?w = "kmem_align_up_size bytes KMEM_ALIGN"
  note f = kmem_inv_facts [OF inv]
  have round: "?w \<noteq> 0 \<and> fitting ?w c \<longleftrightarrow> fitting bytes c" if "bytes \<noteq> 0" "c \<in> set cs" for c
    using fitting_rounded(1) [of c bytes] f(10) [of c] that by (auto simp: fitting_def)
  show ?thesis
  proof (cases "bytes \<noteq> 0 \<and> (\<exists>c\<in>set cs. fitting bytes c)")
    case False
    have "find (fitting ?w) cs = None" if "bytes \<noteq> 0" "?w \<noteq> 0"
      using False that round by (auto simp: find_None_iff)
    then have "kmem_alloc h bytes = Some (0, h)"
      using alloc_loop_first_fit [of h "[]" cs, OF _ _ f(4)] f(1,2,6) by (simp add: kmem_alloc_def Let_def)
    then show ?thesis
      using False inv by (intro exI [of _ 0] exI [of _ h] exI [of _ cs]) auto
  next
    case True
    then have "?w \<noteq> 0" "find (fitting ?w) cs \<noteq> None"
      using round by (auto simp: find_None_iff)
    then obtain c where c: "find (fitting ?w) cs = Some c"
      by blast
    then have cf: "fitting ?w c" "c \<in> set cs"
      by (auto simp: find_Some_iff)
    then have fit: "fitting bytes c"
      using True round \<open>?w \<noteq> 0\<close> by blast
    obtain xs ys where cs: "cs = xs @ c # ys"
      using cf(2) by (meson split_list)
    have w: "16 dvd unat ?w" "unat bytes \<le> unat ?w" "0 < unat ?w" "unat ?w \<le> unat (c_size c)" "c_free c"
      using fitting_rounded(2) [of c bytes] f(10) [OF cf(2)] True fit cf(1) \<open>?w \<noteq> 0\<close>
      by (auto simp: fitting_def word_le_nat_alt unat_gt_0)
    define h1 where "h1 = kmem_split_if_useful h (c_addr c) ?w"
    define h' where "h' = h1\<lparr>ram := put_free (c_addr c) 0 (ram h1)\<rparr>"
    have run: "kmem_alloc h bytes = Some (kmem_payload (c_addr c), h')"
      using alloc_loop_first_fit [of h "[]" cs, OF _ _ f(4)] f(1,2,6,7) True \<open>?w \<noteq> 0\<close> c
      by (simp add: kmem_alloc_def Let_def h1_def h'_def)
    have "unat (kmem_payload (c_addr c)) = unat (c_addr c) + 48"
      using payload_end(1) [of _ xs c ys] f(1,5) cs by simp
    then have "kmem_payload (c_addr c) \<noteq> 0 \<and> 16 dvd unat (kmem_payload (c_addr c))"
      using f(10) [OF cf(2)] by (auto simp: unat_gt_0 [symmetric] simp del: unat_gt_0)
    moreover have "\<exists>cs' bs. kmem_inv h' cs' \<and> h' = h\<lparr>ram := ram h'\<rparr> \<and> unat ?w \<le> length bs \<and>
      objs (ram h) cs (kmem_payload (c_addr c)) = None \<and> objs (ram h') cs' = (objs (ram h) cs)(kmem_payload (c_addr c) \<mapsto> bs)"
      using alloc_at [of h xs c ys ?w, folded h1_def, folded h'_def] inv w cs by simp
    ultimately show ?thesis
      using True run w(2) by (auto intro: order_trans)
  qed
qed

section \<open>Validation\<close>

lemma validate_loop_chain:
  assumes "chain (ram h) p ys 0" and "tiled a ys (unat (g_heap_end h))" and "unat (g_heap_base h) \<le> a" and "16 dvd a"
    and "0 < a" and "unat guard \<le> 1048576" and "ys = [] \<or> unat cursor = a"
  shows "kmem_validate_loop h (first_addr ys) p cursor guard = (if unat guard + length ys \<le> 1048576 then 0 else -3)"
  using assms
proof (induction ys arbitrary: p a guard cursor)
  case Nil
  then show ?case
    by (simp add: kmem_validate_loop.simps)
next
  case (Cons c ys)
  let ?b = "c_addr c" and ?e = "unat (g_heap_end h)"
  have e: "?e < 2 ^ 64"
    using unsigned_less [of "g_heap_end h", where 'a = nat] by simp
  have hc: "blk_magic (ram h) ?b = KMEM_MAGIC" "blk_prev (ram h) ?b = p" "blk_size (ram h) ?b = c_size c"
    "blk_next (ram h) ?b = first_addr ys" and ch: "chain (ram h) ?b ys 0"
    using Cons.prems(1) by (auto simp: hdr_def)
  note ti = Cons.prems(2) and inside = tiled_inside [OF Cons.prems(2), of c]
  have b: "unat ?b = a" "?b \<noteq> 0" "cursor = ?b"
    using ti Cons.prems(5,7) by (auto simp: word_unat_eq_iff)
  have pay: "unat (kmem_payload ?b) = a + 48" "unat (kmem_payload ?b + c_size c) = a + 48 + unat (c_size c)"
    using payload_end [of a "[]" c ys ?e] ti e b by simp_all
  have next16: "16 dvd a + 48 + unat (c_size c)"
    using ti Cons.prems(4) by (simp add: dvd_add)
  have cur: "kmem_align_up_ptr (kmem_payload ?b + c_size c) KMEM_ALIGN = kmem_payload ?b + c_size c"
    using next16 pay by (intro kmem_align_up_aligned) simp
  have "unat (?b + sizeof_block) = a + 48"
    using pay by (simp add: kmem_payload_def)
  then have ok: "\<not> ?b < g_heap_base h" "\<not> ?b + sizeof_block > g_heap_end h"
    using b Cons.prems(3) inside by (auto simp: word_less_nat_alt)
  have "unat (g_heap_end h - kmem_payload ?b) = ?e - (a + 48)"
    using inside b pay by (simp add: unat_sub_if_size)
  then have size: "\<not> c_size c > g_heap_end h - kmem_payload ?b"
    using inside b by (auto simp: word_less_nat_alt)
  have cursor: "kmem_payload ?b + c_size c \<noteq> 0" "\<not> kmem_payload ?b + c_size c > g_heap_end h"
    using pay inside b by (auto simp: word_less_nat_alt word_unat_eq_iff)
  have g: "unat (guard + 1) = unat guard + 1"
    using Cons.prems(6) by (subst unat_add_nowrap) simp_all
  have step: "kmem_validate_loop h ?b p cursor guard =
    (if guard + 1 > 1048576 then -3 else kmem_validate_loop h (first_addr ys) ?b (kmem_payload ?b + c_size c) (guard + 1))"
    using b hc ok size cursor cur by (subst kmem_validate_loop.simps) (simp add: Let_def)
  show ?case
  proof (cases "unat guard + 1 \<le> 1048576")
    case True
    have "kmem_validate_loop h (first_addr ys) ?b (kmem_payload ?b + c_size c) (guard + 1) =
        (if unat (guard + 1) + length ys \<le> 1048576 then 0 else -3)"
    proof (rule Cons.IH [OF ch])
      show "tiled (a + 48 + unat (c_size c)) ys ?e"
        using ti by simp
    qed (use Cons.prems(3,5) next16 g True pay in auto)
    then show ?thesis
      using step True g b by (simp add: word_less_nat_alt)
  next
    case False
    then show ?thesis
      using step g b by (simp add: word_less_nat_alt)
  qed
qed

lemma validate_inv:
  assumes "kmem_inv h cs"
  shows "kmem_validate h = (if length cs \<le> 1048576 then 0 else -3)"
proof -
  note f = kmem_inv_facts [OF assms]
  have "unat (g_heap_base h) < unat (g_heap_end h)"
    using f(1,8) tiled_inside [OF f(1), of "hd cs"] by auto
  then have "g_heap_base h < g_heap_end h" "g_heap_base h \<noteq> 0"
    using f(4) by (auto simp: word_less_nat_alt)
  moreover have "kmem_validate_loop h (first_addr cs) 0 (g_heap_base h) 0 = (if unat (0 :: u64) + length cs \<le> 1048576 then 0 else -3)"
    using f by (intro validate_loop_chain) auto
  moreover have "g_head h = g_heap_base h"
    using assms by (simp add: kmem_inv_def)
  ultimately show ?thesis
    using f(6,7) by (simp add: kmem_validate_def)
qed

section \<open>Release\<close>

definition no_free_pair :: "chunk list \<Rightarrow> bool" where
  "no_free_pair cs \<longleftrightarrow> successively (\<lambda>c d. \<not> (c_free c \<and> c_free d)) cs"

text \<open>A free block swallows the block after it when that is free, and no other.\<close>

lemma coalesce_once:
  assumes ch: "chain m 0 (xs @ c # ys) 0" and ti: "tiled a (xs @ c # ys) e" and e: "e < 2 ^ 64" "0 < a" and a: "16 dvd a"
    and su: "no_free_pair ys" and c: "c_free c"
  shows "\<exists>m' c' ys'. kmem_coalesce_forward (c_addr c) m = Some m' \<and> chain m' 0 (xs @ c' # ys') 0 \<and> tiled a (xs @ c' # ys') e \<and>
    agree (xs @ c # ys) m m' \<and> c_addr c' = c_addr c \<and> c_free c' \<and> used ys' = used ys \<and> no_free_pair (c' # ys') \<and>
    set ys' \<subseteq> set ys \<and> length ys' \<le> length ys \<and> (ys \<noteq> [] \<and> c_free (hd ys) \<longrightarrow> blk_magic m' (c_addr (hd ys)) = 0)"
proof (cases "ys = [] \<or> \<not> c_free (hd ys)")
  case True
  have "no_free_pair (c # ys)"
    using True su by (cases ys) (auto simp: no_free_pair_def successively_Cons)
  then show ?thesis
    using coalesce_stop [OF ch True] ch ti c True by (intro exI [of _ m] exI [of _ c] exI [of _ ys]) (auto simp: agree_def)
next
  case False
  then obtain d zs where ys: "ys = d # zs" "c_free d"
    by (cases ys) auto
  let ?c = "c\<lparr>c_size := c_size c + (48 + c_size d)\<rparr>" and ?m = "kmem_merge (c_addr c) (c_addr d) m"
  have ch': "chain m 0 (xs @ c # d # zs) 0" and ti': "tiled a (xs @ c # d # zs) e"
    using ch ti ys by auto
  note mc = kmem_merge_chain [OF ch' ti' e]
  have zs: "zs = [] \<or> \<not> c_free (hd zs)" "no_free_pair zs"
    using su ys by (auto simp: no_free_pair_def successively_Cons)
  have "kmem_coalesce_forward (c_addr c) ?m = Some ?m"
    using coalesce_stop [OF mc(1) zs(1)] by simp
  then have "kmem_coalesce_forward (c_addr c) m = Some ?m"
    using coalesce_step [OF ch' ti' e a ys(2)] by simp
  moreover have "no_free_pair (?c # zs)"
    using zs by (cases zs) (auto simp: no_free_pair_def successively_Cons)
  moreover have "used zs = used ys"
    using ys by (auto simp: used_def)
  ultimately show ?thesis
    using mc ys c by (intro exI [of _ ?m] exI [of _ ?c] exI [of _ zs]) auto
qed

text \<open>The list of blocks after a release and what became of the released block's header.\<close>

lemma release_chain:
  assumes ch: "chain m 0 (xs @ c # ys) 0" and ti: "tiled a (xs @ c # ys) e" and e: "e < 2 ^ 64" "0 < a" and a: "16 dvd a"
    and su: "no_free_pair (xs @ c # ys)" and c: "\<not> c_free c"
  shows "\<exists>m2 m3 cs'. kmem_coalesce_forward (c_addr c) (put_free (c_addr c) 1 m) = Some m2 \<and>
    (if blk_prev m2 (c_addr c) \<noteq> 0 \<and> blk_free m2 (blk_prev m2 (c_addr c))
     then kmem_coalesce_forward (blk_prev m2 (c_addr c)) m2 else Some m2) = Some m3 \<and>
    chain m3 0 cs' 0 \<and> tiled a cs' e \<and> no_free_pair cs' \<and> cs' \<noteq> [] \<and> agree (xs @ c # ys) m m3 \<and>
    used cs' = used (xs @ c # ys) - {c} \<and> length cs' \<le> length (xs @ c # ys) \<and>
    (blk_magic m3 (c_addr c) = 0 \<or> blk_free m3 (c_addr c))"
proof -
  let ?c1 = "c\<lparr>c_free := True\<rparr>"
  note pf = put_free_chain [OF ch ti e(1), of 1]
  have sub: "no_free_pair xs" "no_free_pair ys"
    using su by (auto simp: no_free_pair_def successively_append_iff successively_Cons)
  have ch1: "chain (put_free (c_addr c) 1 m) 0 (xs @ ?c1 # ys) 0"
    using pf(1) by simp
  have ti1: "tiled a (xs @ ?c1 # ys) e"
    using ti by (auto simp: tiled_append)
  obtain m2 c2 ys2 where r2: "kmem_coalesce_forward (c_addr c) (put_free (c_addr c) 1 m) = Some m2"
    "chain m2 0 (xs @ c2 # ys2) 0" "tiled a (xs @ c2 # ys2) e" "agree (xs @ ?c1 # ys) (put_free (c_addr c) 1 m) m2"
    "c_addr c2 = c_addr c" "c_free c2" "used ys2 = used ys" "no_free_pair (c2 # ys2)" "set ys2 \<subseteq> set ys"
    "length ys2 \<le> length ys"
    using coalesce_once [OF ch1 ti1 e a sub(2)] by auto
  have ag2: "agree (xs @ c # ys) m m2"
    using agree_trans [OF pf(2) r2(4)] by auto
  have cnot: "c \<notin> set xs \<union> set ys"
    using tiled_distinct [OF ti] by auto
  have prev: "blk_prev m2 (c_addr c) = last_addr xs 0" "blk_free m2 (c_addr c)"
    using r2(2,5,6) by (auto simp: chain_append hdr_def)
  have used_old: "used (xs @ c # ys) - {c} = used xs \<union> used ys"
    using cnot c by (auto simp: used_def)
  show ?thesis
  proof (cases "xs \<noteq> [] \<and> c_free (last xs)")
    case False
    have "\<not> (blk_prev m2 (c_addr c) \<noteq> 0 \<and> blk_free m2 (blk_prev m2 (c_addr c)))" (is "\<not> ?join")
    proof (cases "xs = []")
      case False
      then obtain us p where xs: "xs = us @ [p]"
        by (metis append_butlast_last_id)
      have "hdr m2 p (last_addr us 0) (c_addr c)"
        using r2(2,5) xs by (auto simp: chain_append)
      then show ?thesis
        using prev xs \<open>\<not> (xs \<noteq> [] \<and> c_free (last xs))\<close> by (simp add: hdr_def)
    qed (use prev in simp)
    then have "(if ?join then kmem_coalesce_forward (blk_prev m2 (c_addr c)) m2 else Some m2) = Some m2"
      by (rule if_not_P)
    moreover have "no_free_pair (xs @ c2 # ys2)"
      using sub(1) r2(8) False by (auto simp: no_free_pair_def successively_append_iff)
    moreover have "used (xs @ c2 # ys2) = used (xs @ c # ys) - {c}"
      using used_old r2(6,7) by (auto simp: used_def)
    ultimately show ?thesis
      using r2 ag2 prev(2) by (intro exI [of _ m2] exI [of _ m2] exI [of _ "xs @ c2 # ys2"]) simp
  next
    case True
    then obtain us p where xs: "xs = us @ [p]" and p: "c_free p"
      by (metis append_butlast_last_id last_snoc)
    have hp: "blk_free m2 (c_addr p)" and ch2: "chain m2 0 (us @ p # c2 # ys2) 0" and ti2: "tiled a (us @ p # c2 # ys2) e"
      using r2(2,3) xs p by (auto simp: chain_append hdr_def)
    have "c_addr p \<noteq> 0"
      using tiled_inside [OF ti2, of p] e(2) by auto
    obtain m3 p3 ys3 where r3: "kmem_coalesce_forward (c_addr p) m2 = Some m3" "chain m3 0 (us @ p3 # ys3) 0"
      "tiled a (us @ p3 # ys3) e" "agree (us @ p # c2 # ys2) m2 m3" "c_free p3" "used ys3 = used (c2 # ys2)"
      "no_free_pair (p3 # ys3)" "length ys3 \<le> length (c2 # ys2)" "blk_magic m3 (c_addr c2) = 0"
      using coalesce_once [OF ch2 ti2 e a r2(8) p] r2(6) by auto
    have "no_free_pair (us @ p3 # ys3)"
      using sub(1) xs p r3(5,7) by (auto simp: no_free_pair_def successively_append_iff successively_Cons)
    moreover have "used (us @ p3 # ys3) = used (xs @ c # ys) - {c}"
      using used_old r2(6,7) r3(5,6) xs p by (simp add: used_simps)
    moreover have "agree (xs @ c # ys) m m3"
      using r2(5,9) xs by (intro agree_trans [OF ag2 r3(4)]) auto
    moreover have "blk_prev m2 (c_addr c) = c_addr p"
      using prev xs by simp
    ultimately show ?thesis
      using r2(1,5,10) r3 hp \<open>c_addr p \<noteq> 0\<close> xs
      by (intro exI [of _ m2] exI [of _ m3] exI [of _ "us @ p3 # ys3"]) simp
  qed
qed

lemma heap_pointer:
  assumes inv: "kmem_inv h cs" and c: "c \<in> set cs"
  shows "kmem_ptr_in_heap h (c_addr c)" "kmem_ptr_in_heap h (kmem_payload (c_addr c))" "kmem_payload (c_addr c) \<noteq> 0"
    "kmem_payload (c_addr c) AND (KMEM_ALIGN - 1) = 0" "kmem_header_from_payload (kmem_payload (c_addr c)) = c_addr c"
proof -
  note f = kmem_inv_facts [OF inv]
  obtain xs ys where cs: "cs = xs @ c # ys"
    using c by (meson split_list)
  have pay: "unat (kmem_payload (c_addr c)) = unat (c_addr c) + 48"
    using payload_end(1) [of _ xs c ys] f(1,5) cs by simp
  have "0 < unat (c_size c)"
    using tiled_aligned [OF f(1,3) c] by simp
  then show "kmem_ptr_in_heap h (c_addr c)" "kmem_ptr_in_heap h (kmem_payload (c_addr c))"
    using tiled_inside [OF f(1) c] f(7) pay by (auto simp: kmem_ptr_in_heap_def word_le_nat_alt word_less_nat_alt)
  show "kmem_payload (c_addr c) \<noteq> 0"
    using pay by (auto simp: word_unat_eq_iff)
  have "unat (kmem_payload (c_addr c) AND mask 4) = 0"
    using pay f(10) [OF c] by (simp add: unat_and_mask mod_eq_0_iff_dvd)
  then show "kmem_payload (c_addr c) AND (KMEM_ALIGN - 1) = 0"
    by (simp add: KMEM_ALIGN_def mask_eq_exp_minus_1 word_unat_eq_iff)
  show "kmem_header_from_payload (kmem_payload (c_addr c)) = c_addr c"
    by (simp add: kmem_header_from_payload_def kmem_payload_def)
qed

lemma free_spec:
  assumes inv: "kmem_inv h cs" and p: "p \<in> dom (objs (ram h) cs)"
  shows "\<exists>h' cs' err. kmem_free_checked h p = Some (if length cs' \<le> 1048576 then 0 else -3, h') \<and> kmem_inv h' cs' \<and>
    h' = h\<lparr>ram := ram h'\<rparr> \<and> objs (ram h') cs' = (objs (ram h) cs)(p := None) \<and> length cs' \<le> length cs \<and>
    kmem_free_checked h' p = Some (err, h') \<and> (err = -3 \<or> err = -4)"
proof -
  note f = kmem_inv_facts [OF inv]
  obtain c where c: "c \<in> set cs" "\<not> c_free c" "p = kmem_payload (c_addr c)"
    using p objs_iff [OF f(1)] by (auto simp: used_def)
  obtain xs ys where cs: "cs = xs @ c # ys"
    using c(1) by (meson split_list)
  have su: "no_free_pair (xs @ c # ys)"
    using f(9) cs by (simp add: no_free_pair_def)
  obtain m2 m3 cs' where r: "kmem_coalesce_forward (c_addr c) (put_free (c_addr c) 1 (ram h)) = Some m2"
    "(if blk_prev m2 (c_addr c) \<noteq> 0 \<and> blk_free m2 (blk_prev m2 (c_addr c))
      then kmem_coalesce_forward (blk_prev m2 (c_addr c)) m2 else Some m2) = Some m3"
    "chain m3 0 cs' 0" "tiled (unat (g_heap_base h)) cs' (unat (g_heap_end h))" "no_free_pair cs'" "cs' \<noteq> []"
    "agree cs (ram h) m3" "used cs' = used cs - {c}" "length cs' \<le> length cs"
    "blk_magic m3 (c_addr c) = 0 \<or> blk_free m3 (c_addr c)"
    using release_chain [of "ram h" xs c ys, OF _ _ f(5,4,3) su c(2)] f(1,2) unfolding cs by blast
  let ?h = "h\<lparr>ram := m3\<rparr>"
  note hp = heap_pointer [OF inv c(1)]
  have hc: "blk_magic (ram h) (c_addr c) = KMEM_MAGIC" "\<not> blk_free (ram h) (c_addr c)"
    using f(2) c(2) cs by (auto simp: chain_append hdr_def)
  have inv': "kmem_inv ?h cs'"
    using inv r(3-6) by (simp add: kmem_inv_def no_free_pair_def)
  have "kmem_free_checked h p = Some (kmem_validate ?h, ?h)"
    using hp hc r(1,2) c(3) by (simp add: kmem_free_checked_def Let_def)
  moreover have "objs (ram ?h) cs' = (objs (ram h) cs)(p := None)"
    unfolding c(3)
  proof (rule objs_delete [OF f(1) r(4,8)])
    show "c \<in> used cs"
      using c by (simp add: used_def)
    show "object_at (ram ?h) d = object_at (ram h) d" if "d \<in> used cs'" for d
    proof -
      have "d \<in> used cs"
        using that r(8) by simp
      then show ?thesis
        using object_kept [OF r(7) f(1,5), of d] by (simp add: used_def)
    qed
  qed
  moreover have "kmem_ptr_in_heap ?h x = kmem_ptr_in_heap h x" for x
    by (simp add: kmem_ptr_in_heap_def)
  then have "kmem_free_checked ?h p = Some (if blk_magic m3 (c_addr c) \<noteq> KMEM_MAGIC then -3 else -4, ?h)"
    using hp c(3) r(10) by (auto simp: kmem_free_checked_def Let_def KMEM_MAGIC_def)
  ultimately show ?thesis
    using inv' validate_inv [OF inv'] r(9)
    by (intro exI [of _ ?h] exI [of _ cs'] exI [of _ "if blk_magic m3 (c_addr c) \<noteq> KMEM_MAGIC then -3 else -4"]) simp
qed

section \<open>Statistics\<close>

definition chunk_sizes :: "(chunk \<Rightarrow> bool) \<Rightarrow> chunk list \<Rightarrow> nat" where
  "chunk_sizes P cs = sum_list (map (\<lambda>c. if P c then unat (c_size c) else 0) cs)"

definition largest :: "chunk list \<Rightarrow> nat" where
  "largest cs = fold max (map (\<lambda>c. if c_free c then unat (c_size c) else 0) cs) 0"

lemma tiled_total:
  "tiled a cs e \<Longrightarrow> e = a + 48 * length cs + chunk_sizes c_free cs + chunk_sizes (\<lambda>c. \<not> c_free c) cs"
proof (induction cs arbitrary: a)
  case (Cons c cs)
  then have "e = a + 48 + unat (c_size c) + 48 * length cs + chunk_sizes c_free cs + chunk_sizes (\<lambda>c. \<not> c_free c) cs"
    by (metis tiled.simps(2))
  then show ?case
    by (simp add: chunk_sizes_def)
qed (simp add: chunk_sizes_def)

lemma stats_loop_chain:
  assumes "chain m p cs 0" and "tiled a cs e" and "0 < a"
    and "unat (used_bytes out) + chunk_sizes (\<lambda>c. \<not> c_free c) cs < 2 ^ 64"
    and "unat (free_bytes out) + chunk_sizes c_free cs < 2 ^ 64" and "unat (block_count out) + length cs < 2 ^ 64"
  shows "\<exists>st. kmem_stats_loop m (first_addr cs) out = Some st \<and> total_bytes st = total_bytes out \<and>
    unat (used_bytes st) = unat (used_bytes out) + chunk_sizes (\<lambda>c. \<not> c_free c) cs \<and>
    unat (free_bytes st) = unat (free_bytes out) + chunk_sizes c_free cs \<and>
    unat (block_count st) = unat (block_count out) + length cs \<and>
    unat (largest_free st) = fold max (map (\<lambda>c. if c_free c then unat (c_size c) else 0) cs) (unat (largest_free out))"
  using assms
proof (induction cs arbitrary: p a out)
  case Nil
  then show ?case
    by (simp add: kmem_stats_loop.simps chunk_sizes_def)
next
  case (Cons c cs)
  have hc: "blk_free m (c_addr c) = c_free c" "blk_size m (c_addr c) = c_size c" "blk_next m (c_addr c) = first_addr cs"
    using Cons.prems(1) by (auto simp: hdr_def)
  have nz: "c_addr c \<noteq> 0"
    using Cons.prems(2,3) by auto
  define out1 where "out1 = (let out = out\<lparr>block_count := block_count out + 1\<rparr> in if c_free c then
      out\<lparr>free_count := free_count out + 1, free_bytes := free_bytes out + c_size c,
          largest_free := (if c_size c > largest_free out then c_size c else largest_free out)\<rparr>
    else out\<lparr>used_bytes := used_bytes out + c_size c\<rparr>)"
  have step: "kmem_stats_loop m (first_addr (c # cs)) out = kmem_stats_loop m (first_addr cs) out1"
    using hc nz by (subst kmem_stats_loop.simps) (simp add: out1_def Let_def)
  have cnt: "unat (block_count out + 1) = unat (block_count out) + 1"
    using Cons.prems(6) by (subst unat_add_nowrap) simp_all
  have fr: "c_free c \<Longrightarrow> unat (free_bytes out + c_size c) = unat (free_bytes out) + unat (c_size c)"
    and us: "\<not> c_free c \<Longrightarrow> unat (used_bytes out + c_size c) = unat (used_bytes out) + unat (c_size c)"
    using Cons.prems(4,5) by (subst unat_add_nowrap; simp add: chunk_sizes_def)+
  have o: "total_bytes out1 = total_bytes out" "unat (block_count out1) = unat (block_count out) + 1"
    "unat (used_bytes out1) = unat (used_bytes out) + (if \<not> c_free c then unat (c_size c) else 0)"
    "unat (free_bytes out1) = unat (free_bytes out) + (if c_free c then unat (c_size c) else 0)"
    "unat (largest_free out1) = max (if c_free c then unat (c_size c) else 0) (unat (largest_free out))"
    using cnt fr us by (simp_all add: out1_def Let_def word_less_nat_alt)
  have "\<exists>st. kmem_stats_loop m (first_addr cs) out1 = Some st \<and> total_bytes st = total_bytes out1 \<and>
    unat (used_bytes st) = unat (used_bytes out1) + chunk_sizes (\<lambda>c. \<not> c_free c) cs \<and>
    unat (free_bytes st) = unat (free_bytes out1) + chunk_sizes c_free cs \<and>
    unat (block_count st) = unat (block_count out1) + length cs \<and>
    unat (largest_free st) = fold max (map (\<lambda>c. if c_free c then unat (c_size c) else 0) cs) (unat (largest_free out1))"
  proof (rule Cons.IH)
    show "chain m (c_addr c) cs 0" "tiled (a + 48 + unat (c_size c)) cs e" "0 < a + 48 + unat (c_size c)"
      using Cons.prems(1,2) by auto
  qed (use Cons.prems(4-6) in \<open>auto simp: chunk_sizes_def o\<close>)
  then show ?case
    unfolding step o by (simp add: chunk_sizes_def add.assoc)
qed

lemma largest_fits:
  assumes "0 < n"
  shows "n \<le> largest cs \<longleftrightarrow> (\<exists>c\<in>set cs. c_free c \<and> n \<le> unat (c_size c))"
proof -
  have "n \<le> fold max xs z \<longleftrightarrow> n \<le> z \<or> (\<exists>x\<in>set xs. n \<le> x)" for xs :: "nat list" and z
    by (induction xs arbitrary: z) (auto simp: le_max_iff_disj)
  then show ?thesis
    using assms by (auto simp: largest_def split: if_splits)
qed

lemma stats_spec:
  assumes inv: "kmem_inv h cs"
  shows "\<exists>st. kmem_get_stats h = Some st \<and> unat (total_bytes st) = unat (g_heap_end h) - unat (g_heap_base h) \<and>
    unat (used_bytes st) = chunk_sizes (\<lambda>c. \<not> c_free c) cs \<and> unat (free_bytes st) = chunk_sizes c_free cs \<and>
    unat (block_count st) = length cs \<and> unat (largest_free st) = largest cs"
proof -
  note f = kmem_inv_facts [OF inv]
  let ?out = "\<lparr>total_bytes = g_heap_end h - g_heap_base h, used_bytes = 0, free_bytes = 0, block_count = 0,
    free_count = 0, largest_free = 0\<rparr>"
  note tot = tiled_total [OF f(1)]
  have "\<exists>st. kmem_stats_loop (ram h) (first_addr cs) ?out = Some st \<and> total_bytes st = total_bytes ?out \<and>
    unat (used_bytes st) = unat (used_bytes ?out) + chunk_sizes (\<lambda>c. \<not> c_free c) cs \<and>
    unat (free_bytes st) = unat (free_bytes ?out) + chunk_sizes c_free cs \<and>
    unat (block_count st) = unat (block_count ?out) + length cs \<and>
    unat (largest_free st) = fold max (map (\<lambda>c. if c_free c then unat (c_size c) else 0) cs) (unat (largest_free ?out))"
    using tot f(5) by (intro stats_loop_chain [OF f(2,1,4)]) simp_all
  moreover have "unat (g_heap_end h - g_heap_base h) = unat (g_heap_end h) - unat (g_heap_base h)"
    using tiled_le [OF f(1)] by (simp add: unat_sub_if_size)
  ultimately show ?thesis
    using f(6,7) by (auto simp: kmem_get_stats_def Let_def largest_def)
qed

section \<open>Writing to objects\<close>

lemma ld_bytes_store_inside:
  assumes "off + length bs \<le> n" and "unat p + n < 2 ^ 64"
  shows "ld_bytes (st_bytes (p + of_nat off) bs m) p n =
    take off (ld_bytes m p n) @ bs @ drop (off + length bs) (ld_bytes m p n)"
proof (rule nth_equalityI)
  fix i assume "i < length (ld_bytes (st_bytes (p + of_nat off) bs m) p n)"
  then have i: "i < n"
    by simp
  have "p + of_nat i - (p + of_nat off) = (of_nat i - of_nat off :: u64)"
    by simp
  moreover have "unat (of_nat i - of_nat off :: u64) = (if off \<le> i then i - off else i + 2 ^ 64 - off)"
    using assms i by (simp add: unat_sub_if_size unat_of_nat_small word_size)
  ultimately show "ld_bytes (st_bytes (p + of_nat off) bs m) p n ! i =
    (take off (ld_bytes m p n) @ bs @ drop (off + length bs) (ld_bytes m p n)) ! i"
    using assms i by (simp add: ld_bytes_def st_bytes_def nth_append min_def) auto
qed (use assms in simp)

lemma store_object:
  assumes inv: "kmem_inv h cs" and p: "objs (ram h) cs p = Some old" and fit: "off + length bs \<le> length old"
  defines "h' \<equiv> h\<lparr>ram := st_bytes (p + of_nat off) bs (ram h)\<rparr>"
  shows "kmem_inv h' cs" "objs (ram h') cs = (objs (ram h) cs)(p \<mapsto> take off old @ bs @ drop (off + length bs) old)"
proof -
  note f = kmem_inv_facts [OF inv]
  obtain c where c: "c \<in> used cs" "p = kmem_payload (c_addr c)" "old = object_at (ram h) c"
    using p objs_iff [OF f(1)] by blast
  then have c': "c \<in> set cs"
    by (simp add: used_def)
  have len: "off + length bs \<le> unat (c_size c)"
    using fit c(3) by (simp add: object_at_def)
  obtain xs ys where cs: "cs = xs @ c # ys"
    using c' by (meson split_list)
  have lim: "unat p + unat (c_size c) < 2 ^ 64"
    using payload_end(1) [of _ xs c ys] tiled_inside [OF f(1) c'] f(1,5) cs c(2) by simp
  have start: "unat (p + of_nat off) = unat p + off" if "bs \<noteq> []"
  proof -
    have "unat p + off < 2 ^ 64"
      using that len lim by (cases bs) simp_all
    then show ?thesis
      by (subst unat_add_nowrap) (simp_all add: unat_of_nat_small)
  qed
  have out: "ld_bytes (ram h') a k = ld_bytes (ram h) a k" if "apart p (unat (c_size c)) a k" for a k
  proof (cases "bs = []")
    case True
    then show ?thesis
      by (simp add: h'_def st_bytes_def)
  next
    case False
    then have "apart (p + of_nat off) (length bs) a k"
      using that len start by (auto simp: apart_def)
    then show ?thesis
      by (simp add: h'_def ld_st_other)
  qed
  have "chain (ram h') 0 cs 0 = chain (ram h) 0 cs 0"
  proof (rule chain_cong)
    show "ld_bytes (ram h') (c_addr d) 48 = ld_bytes (ram h) (c_addr d) 48" if "d \<in> set cs" for d
      using payload_apart [OF f(1,5) c' that] c(2) apart_sym by (intro out) blast
  qed
  then show "kmem_inv h' cs"
    using inv by (simp add: kmem_inv_def h'_def)
  have "object_at (ram h') c = take off old @ bs @ drop (off + length bs) old"
    using ld_bytes_store_inside [OF len lim] c(2,3) by (simp add: object_at_def h'_def)
  moreover have "object_at (ram h') d = object_at (ram h) d" if "d \<in> used cs" "d \<noteq> c" for d
  proof -
    have "c_addr d \<noteq> c_addr c"
      using that c(1) tiled_distinct [OF f(1)] by (auto simp: used_def distinct_map inj_on_def)
    then have "apart p (unat (c_size c)) (kmem_payload (c_addr d)) (unat (c_size d))"
      using payload_disjoint [OF f(1,5), of d c] that c(1,2) by (simp add: used_def)
    then show ?thesis
      unfolding object_at_def by (rule out)
  qed
  moreover have "c_addr d \<noteq> c_addr c" if "d \<in> used cs" "d \<noteq> c" for d
    using that c(1) tiled_distinct [OF f(1)] by (auto simp: used_def distinct_map inj_on_def)
  ultimately have "objs (ram h') cs x = Some y \<longleftrightarrow>
    ((objs (ram h) cs)(p \<mapsto> take off old @ bs @ drop (off + length bs) old)) x = Some y" for x y
    using c by (cases "x = p") (simp_all add: objs_iff [OF f(1)], metis+)
  then show "objs (ram h') cs = (objs (ram h) cs)(p \<mapsto> take off old @ bs @ drop (off + length bs) old)"
    by (rule map_eqI)
qed

lemma kmem_memset_eq: "kmem_memset p v n m = st_bytes p (replicate (unat n) v) m"
proof -
  have "kmem_memset p v n m x = (if unat (x - p) < unat n then v else m x)" for x
  proof (induction p v n m rule: kmem_memset.induct)
    case (1 p v n m)
    show ?case
    proof (cases "n > 0")
      case True
      then have n: "unat (n - 1) = unat n - 1" "0 < unat n"
        by (auto simp: unat_minus_one unat_gt_0)
      have ih: "kmem_memset p v n m x = (if unat (x - (p + 1)) < unat (n - 1) then v else (m(p := v)) x)"
        using 1 [OF True] True by (simp add: kmem_memset.simps [of p v n m] del: fun_upd_apply)
      show ?thesis
      proof (cases "x = p")
        case False
        then have "x - p \<noteq> 0"
          by simp
        then have "unat (x - (p + 1)) = unat (x - p) - 1" "0 < unat (x - p)"
          using unat_minus_one [of "x - p"] by (simp_all add: unat_gt_0 diff_diff_eq)
        then show ?thesis
          using ih n False by auto
      qed (use ih n in simp)
    next
      case False
      then have "n = 0"
        using word_neq_0_conv by blast
      then show ?thesis
        by (simp add: kmem_memset.simps)
    qed
  qed
  then show ?thesis
    by (simp add: fun_eq_iff st_bytes_def)
qed

section \<open>Initialisation\<close>

lemma init_spec:
  assumes base: "base \<noteq> 0" and lim: "unat base + unat bytes < 2 ^ 64" and bytes: "128 \<le> unat bytes" "unat bytes < 2 ^ 63"
  shows "\<exists>h' c. kmem_init h base bytes = (0, h') \<and> kmem_inv h' [c] \<and> c_free c \<and>
    unat base \<le> unat (g_heap_base h') \<and> unat (g_heap_end h') \<le> unat base + unat bytes \<and>
    unat bytes \<le> unat (g_heap_end h') - unat (g_heap_base h') + 30"
proof -
  define start where "start = kmem_align_up_ptr base KMEM_ALIGN"
  define lost where "lost = start - base"
  define usable where "usable = (bytes - lost) AND NOT (KMEM_ALIGN - 1)"
  have start: "unat start = (unat base + 15) div 16 * 16"
    using lim bytes by (simp add: start_def kmem_align_up_ptr_nat)
  then have ge: "unat base \<le> unat start" "unat start \<le> unat base + 15" "16 dvd unat start"
    by auto
  have pos: "0 < unat base"
    using base by (simp add: unat_gt_0)
  have lost: "unat lost = unat start - unat base"
    using ge(1) by (simp add: lost_def unat_sub_if_size)
  have "KMEM_ALIGN - 1 = (mask 4 :: u64)"
    by (simp add: KMEM_ALIGN_def mask_eq_exp_minus_1)
  then have "unat usable = unat (bytes - lost) div 16 * 16"
    using unat_and_not_mask [of "bytes - lost" 4] by (simp add: usable_def)
  moreover have "unat (bytes - lost) = unat bytes - unat lost"
    using bytes lost ge by (simp add: unat_sub_if_size)
  ultimately have us: "unat usable \<le> unat bytes - unat lost" "unat bytes - unat lost \<le> unat usable + 15" "16 dvd unat usable"
    by auto
  have bnd: "unat usable < 2 ^ 63" "80 < unat usable" "unat start + unat usable \<le> unat base + unat bytes"
    "unat bytes \<le> unat usable + 30"
    using us(1,2) ge(1,2) lost bytes by linarith+
  define m where "m = put_next start 0 (put_prev start 0 (put_free start 1 (put_size start (usable - sizeof_block)
    (put_magic start KMEM_MAGIC (ram h)))))"
  define c where "c = \<lparr>c_addr = start, c_size = usable - 48, c_free = True\<rparr>"
  define h' where "h' = \<lparr>g_heap_base = start, g_heap_end = start + usable, g_head = start, g_initialized = True, ram = m\<rparr>"
  have endv: "unat (start + usable) = unat start + unat usable"
    using us ge lost lim bytes by (subst unat_add_nowrap) simp_all
  have fit: "fits start"
    using us ge lost lim bytes by (simp add: fits_def)
  then have "hdr m c 0 0"
    by (simp add: hdr_def m_def c_def header sizeof_block_def)
  moreover have sz: "unat (usable - 48) = unat usable - 48"
    using us lost ge bytes by (simp add: unat_sub_if_size)
  moreover have "16 dvd unat usable - 48"
    using us(3) by (simp add: dvd_diff_nat)
  ultimately have inv: "kmem_inv h' [c]"
    using ge pos bnd endv by (simp add: kmem_inv_def h'_def c_def)
  have cmp: "\<not> bytes < sizeof_block + KMEM_MIN_SPLIT" "\<not> usable \<le> sizeof_block + KMEM_MIN_SPLIT"
    "start \<noteq> 0" "\<not> start < base"
    using bytes us lost ge pos by (auto simp: word_less_nat_alt word_le_nat_alt sizeof_block_def KMEM_MIN_SPLIT_def word_unat_eq_iff)
  have "unat (lost + sizeof_block + KMEM_MIN_SPLIT) = unat lost + 80"
    using lost ge by (simp add: sizeof_block_def KMEM_MIN_SPLIT_def unat_word_ariths)
  then have cmp2: "\<not> bytes \<le> lost + sizeof_block + KMEM_MIN_SPLIT"
    using bytes lost ge by (simp add: word_le_nat_alt)
  have "kmem_init h base bytes = (kmem_validate h', h')"
    using base cmp cmp2 unfolding kmem_init_def Let_def start_def [symmetric] lost_def [symmetric] usable_def [symmetric]
    by (simp add: h'_def m_def)
  then show ?thesis
    using inv validate_inv [OF inv] ge(1) bnd endv
    by (intro exI [of _ h'] exI [of _ c]) (simp add: c_def h'_def)
qed

lemma objs_empty: "objs m [c] = Map.empty \<longleftrightarrow> c_free c"
  by (auto simp: objs_def)

text \<open>Without objects the heap is one free block.\<close>

lemma no_objects:
  assumes inv: "kmem_inv h cs" and "objs (ram h) cs = Map.empty"
  obtains c where "cs = [c]" "c_free c" "unat (c_size c) + 48 = unat (g_heap_end h) - unat (g_heap_base h)"
proof -
  note f = kmem_inv_facts [OF inv]
  have free: "c_free c" if "c \<in> set cs" for c
    using assms(2) that objs_iff [OF f(1), of "ram h" "kmem_payload (c_addr c)"] by (auto simp: used_def)
  obtain c ds where cs: "cs = c # ds"
    using f(8) by (cases cs) auto
  then have "ds = []"
    using f(9) free by (cases ds) auto
  then show ?thesis
    using that [of c] cs f(1) free by auto
qed

section \<open>The heap as a map of objects\<close>

text \<open>The calls of a client; a store goes to an offset inside one of its objects.\<close>

datatype kmem_call = Alloc u64 | Calloc u64 u64 | Free u64 | Store u64 nat bytes

fun kmem_call_run :: "kmem_call \<Rightarrow> kmem_heap \<Rightarrow> ((int + u64) \<times> kmem_heap) option" where
  "kmem_call_run (Alloc n) h = map_option (\<lambda>(p, h). (Inr p, h)) (kmem_alloc h n)"
| "kmem_call_run (Calloc k n) h = map_option (\<lambda>(p, h). (Inr p, h)) (kmem_calloc h k n)"
| "kmem_call_run (Free p) h = map_option (\<lambda>(rc, h). (Inl rc, h)) (kmem_free_checked h p)"
| "kmem_call_run (Store p off bs) h = Some (Inl 0, h\<lparr>ram := st_bytes (p + of_nat off) bs (ram h)\<rparr>)"

text \<open>What the client may do: release and write only objects that it has.\<close>

fun permitted :: "kmem_call \<Rightarrow> (u64 \<rightharpoonup> bytes) \<Rightarrow> bool" where
  "permitted (Alloc n) M \<longleftrightarrow> True"
| "permitted (Calloc k n) M \<longleftrightarrow> True"
| "permitted (Free p) M \<longleftrightarrow> p = 0 \<or> p \<in> dom M"
| "permitted (Store p off bs) M \<longleftrightarrow> (\<exists>old. M p = Some old \<and> off + length bs \<le> length old)"

text \<open>The specification: objects appear at fresh aligned pointers, change only by stores, and disappear when released.\<close>

definition new_object :: "nat \<Rightarrow> u64 \<Rightarrow> bytes \<Rightarrow> (u64 \<rightharpoonup> bytes) \<Rightarrow> bool" where
  "new_object n p bs M \<longleftrightarrow> p \<noteq> 0 \<and> 16 dvd unat p \<and> M p = None \<and> n \<le> length bs"

fun obj_call :: "kmem_call \<Rightarrow> (u64 \<rightharpoonup> bytes) \<Rightarrow> int + u64 \<Rightarrow> (u64 \<rightharpoonup> bytes) \<Rightarrow> bool" where
  "obj_call (Alloc n) M r M' \<longleftrightarrow> r = Inr 0 \<and> M' = M \<or>
     (\<exists>p bs. r = Inr p \<and> new_object (unat n) p bs M \<and> M' = M(p \<mapsto> bs))"
| "obj_call (Calloc k n) M r M' \<longleftrightarrow> r = Inr 0 \<and> M' = M \<or>
     (\<exists>p bs. r = Inr p \<and> new_object (unat k * unat n) p bs M \<and>
        take (unat k * unat n) bs = replicate (unat k * unat n) 0 \<and> M' = M(p \<mapsto> bs))"
| "obj_call (Free p) M r M' \<longleftrightarrow> r = Inl 0 \<and> M' = M(p := None)"
| "obj_call (Store p off bs) M r M' \<longleftrightarrow> r = Inl 0 \<and>
     M' = M(p \<mapsto> take off (the (M p)) @ bs @ drop (off + length bs) (the (M p)))"

text \<open>The heap represents a map of objects. At most 64 MB is at most 2 ^ 20 blocks, which validation accepts.\<close>

definition represents :: "kmem_heap \<Rightarrow> (u64 \<rightharpoonup> bytes) \<Rightarrow> bool" where
  "represents h M \<longleftrightarrow> unat (g_heap_end h) - unat (g_heap_base h) \<le> 2 ^ 26 \<and> (\<exists>cs. kmem_inv h cs \<and> M = objs (ram h) cs)"

lemma tiled_count: "tiled a cs e \<Longrightarrow> a + 64 * length cs \<le> e"
proof (induction cs arbitrary: a)
  case (Cons c cs)
  then have "16 \<le> unat (c_size c)"
    by (auto dest: dvd_imp_le)
  then show ?case
    using Cons by fastforce
qed simp

lemma represents_count: "represents h M \<Longrightarrow> kmem_inv h cs \<Longrightarrow> length cs \<le> 1048576"
  using tiled_count [OF kmem_inv_facts(1)] by (fastforce simp: represents_def)

lemma objs_nonnull: "kmem_inv h cs \<Longrightarrow> objs (ram h) cs 0 = None"
  using heap_pointer(3) [of h cs] objs_iff [OF kmem_inv_facts(1), of h cs "ram h" 0]
  by (cases "objs (ram h) cs 0") (auto simp: used_def)

lemma alloc_represents:
  assumes "represents h M"
  obtains p h' M' where "kmem_alloc h n = Some (p, h')" "represents h' M'"
    "p = 0 \<and> h' = h \<and> M' = M \<or> (\<exists>bs. new_object (unat n) p bs M \<and> M' = M(p \<mapsto> bs))"
proof -
  obtain cs where inv: "kmem_inv h cs" and M: "M = objs (ram h) cs"
    using assms by (auto simp: represents_def)
  obtain p h' cs' where a: "kmem_alloc h n = Some (p, h')" "kmem_inv h' cs'" "h' = h\<lparr>ram := ram h'\<rparr>"
    "if n \<noteq> 0 \<and> (\<exists>c\<in>set cs. fitting n c)
     then p \<noteq> 0 \<and> 16 dvd unat p \<and> objs (ram h) cs p = None \<and>
       (\<exists>bs. unat n \<le> length bs \<and> objs (ram h') cs' = (objs (ram h) cs)(p \<mapsto> bs))
     else p = 0 \<and> h' = h \<and> cs' = cs"
    using alloc_spec [OF inv, of n] by blast
  have "g_heap_base h' = g_heap_base h" "g_heap_end h' = g_heap_end h"
    using a(3) by (metis kmem_heap.select_convs(1,2) kmem_heap.surjective kmem_heap.update_convs(5))+
  then have "represents h' (objs (ram h') cs')"
    using assms a(2) by (auto simp: represents_def)
  moreover have "p = 0 \<and> h' = h \<and> objs (ram h') cs' = M \<or> (\<exists>bs. new_object (unat n) p bs M \<and> objs (ram h') cs' = M(p \<mapsto> bs))"
    using a(4) by (auto simp: M new_object_def split: if_splits)
  ultimately show ?thesis
    using that a(1) by blast
qed

lemma store_represents:
  assumes "represents h M" and "M p = Some old" and "off + length bs \<le> length old"
  shows "represents (h\<lparr>ram := st_bytes (p + of_nat off) bs (ram h)\<rparr>) (M(p \<mapsto> take off old @ bs @ drop (off + length bs) old))"
proof -
  obtain cs where inv: "kmem_inv h cs" and M: "M = objs (ram h) cs"
    using assms by (auto simp: represents_def)
  show ?thesis
    using store_object [OF inv _ assms(3), of p] assms(1,2) unfolding represents_def M by (simp, metis)
qed

lemma calloc_product:
  assumes "\<not> (k \<noteq> 0 \<and> n > SIZE_MAX div k)"
  shows "unat (k * n) = unat k * unat n"
proof (cases "k = 0")
  case False
  then have "unat n \<le> (2 ^ 64 - 1) div unat k"
    using assms by (simp add: word_less_nat_alt unat_div SIZE_MAX_def)
  then have "unat n * unat k \<le> 2 ^ 64 - 1"
    by (meson div_times_less_eq_dividend mult_le_mono1 order_trans)
  then show ?thesis
    by (intro unat_mult_nowrap) (simp add: mult.commute)
qed simp

text \<open>
  Property C3. The heap implements a map from pointers to objects. Every call of a client that releases
  and writes only its own objects returns, and does what the map does: an allocation gives NULL and
  changes nothing or adds an object of at least the requested size at a fresh aligned pointer,
  \<^verbatim>\<open>kmem_calloc\<close> gives zeroes, a release returns 0 and removes the object, and no call changes the
  bytes of any other object. Block headers and objects live in the same memory.
\<close>

theorem kmem_refines_objects:
  assumes "represents h M" and "permitted call M"
  shows "\<exists>r h' M'. kmem_call_run call h = Some (r, h') \<and> obj_call call M r M' \<and> represents h' M'"
proof (cases call)
  case (Alloc n)
  show ?thesis
    by (rule alloc_represents [OF assms(1), of n]) (auto simp: Alloc)
next
  case (Calloc k n)
  show ?thesis
  proof (cases "k \<noteq> 0 \<and> n > SIZE_MAX div k")
    case True
    then show ?thesis
      using assms(1) Calloc by (auto simp: kmem_calloc_def)
  next
    case False
    let ?t = "k * n"
    obtain p h1 M1 where a: "kmem_alloc h ?t = Some (p, h1)" "represents h1 M1"
      "p = 0 \<and> h1 = h \<and> M1 = M \<or> (\<exists>bs. new_object (unat ?t) p bs M \<and> M1 = M(p \<mapsto> bs))"
      by (rule alloc_represents [OF assms(1), of ?t])
    from a(3) show ?thesis
    proof (elim disjE exE conjE)
      assume "p = 0" "h1 = h" "M1 = M"
      then show ?thesis
        using a False Calloc by (auto simp: kmem_calloc_def)
    next
      fix bs assume bs: "new_object (unat ?t) p bs M" "M1 = M(p \<mapsto> bs)"
      let ?z = "replicate (unat ?t) 0 :: bytes"
      have "represents (h1\<lparr>ram := st_bytes (p + of_nat 0) ?z (ram h1)\<rparr>)
          (M1(p \<mapsto> take 0 bs @ ?z @ drop (0 + length ?z) bs))"
        using a(2) bs by (intro store_represents) (simp_all add: new_object_def)
      then show ?thesis
        using a(1) bs False Calloc calloc_product [OF False]
        by (intro exI [of _ "Inr p"] exI [of _ "h1\<lparr>ram := st_bytes p ?z (ram h1)\<rparr>"]
            exI [of _ "M(p \<mapsto> ?z @ drop (unat ?t) bs)"])
          (auto simp: kmem_calloc_def new_object_def kmem_memset_eq Let_def intro!: exI [of _ "?z @ drop (unat ?t) bs"])
    qed
  qed
next
  case (Free p)
  obtain cs where inv: "kmem_inv h cs" and M: "M = objs (ram h) cs"
    using assms(1) by (auto simp: represents_def)
  show ?thesis
  proof (cases "p = 0")
    case True
    then show ?thesis
      using Free assms(1) fun_upd_idem [of "objs (ram h) cs" 0 None] objs_nonnull [OF inv] M by (simp add: kmem_free_checked_def)
  next
    case False
    then have "p \<in> dom (objs (ram h) cs)"
      using assms(2) Free M by simp
    then obtain h' cs' where r: "kmem_free_checked h p = Some (if length cs' \<le> 1048576 then 0 else -3, h')" "kmem_inv h' cs'"
      "h' = h\<lparr>ram := ram h'\<rparr>" "objs (ram h') cs' = M(p := None)" "length cs' \<le> length cs"
      using free_spec [OF inv, of p] M by blast
    have "g_heap_base h' = g_heap_base h" "g_heap_end h' = g_heap_end h"
      using r(3) by (metis kmem_heap.select_convs(1,2) kmem_heap.surjective kmem_heap.update_convs(5))+
    then have "represents h' (M(p := None))"
      using assms(1) r(2,4) by (auto simp: represents_def)
    moreover have "length cs' \<le> 1048576"
      using represents_count [OF assms(1) inv] r(5) by simp
    ultimately show ?thesis
      using r(1) Free by auto
  qed
next
  case (Store p off bs)
  then show ?thesis
    using store_represents [OF assms(1), of p _ off bs] assms(2) by auto
qed

text \<open>
  Property C10. \<^verbatim>\<open>kmem_free_checked\<close> on the pointer of an object removes the object and leaves all
  others as they are, with no two neighbouring free blocks; it returns 0, except that in a heap of more
  than 2 ^ 20 blocks it returns -3 although the heap is intact. A second release of the pointer is refused with -3 or
  -4 and changes nothing.
\<close>

theorem kmem_free_once:
  assumes "kmem_inv h cs" and "p \<in> dom (objs (ram h) cs)"
  shows "\<exists>h' cs' err. kmem_free_checked h p = Some (if length cs' \<le> 1048576 then 0 else -3, h') \<and> kmem_inv h' cs' \<and>
    objs (ram h') cs' = (objs (ram h) cs)(p := None) \<and>
    kmem_free_checked h' p = Some (err, h') \<and> (err = -3 \<or> err = -4)"
  using free_spec [OF assms] by blast

text \<open>
  Property C38. The statistics are exact and predict allocation: the heap is the used and free bytes
  and 48 bytes for each block, \<^verbatim>\<open>kmem_alloc\<close> succeeds exactly for sizes from 1 to \<^verbatim>\<open>largest_free\<close>, and
  when every object has been released, \<^verbatim>\<open>largest_free\<close> is the whole heap but one header.
\<close>

theorem kmem_alloc_succeeds:
  assumes "kmem_inv h cs"
  shows "\<exists>st p h'. kmem_get_stats h = Some st \<and> kmem_alloc h bytes = Some (p, h') \<and>
    (p \<noteq> 0 \<longleftrightarrow> 0 < bytes \<and> bytes \<le> largest_free st) \<and>
    unat (total_bytes st) = unat (used_bytes st) + unat (free_bytes st) + 48 * unat (block_count st) \<and>
    (if objs (ram h) cs = Map.empty then unat (largest_free st) + 48 = unat (g_heap_end h) - unat (g_heap_base h) else True)"
proof -
  note f = kmem_inv_facts [OF assms]
  obtain st where st: "kmem_get_stats h = Some st" "unat (total_bytes st) = unat (g_heap_end h) - unat (g_heap_base h)"
    "unat (used_bytes st) = chunk_sizes (\<lambda>c. \<not> c_free c) cs" "unat (free_bytes st) = chunk_sizes c_free cs"
    "unat (block_count st) = length cs" "unat (largest_free st) = largest cs"
    using stats_spec [OF assms] by blast
  obtain p h' where a: "kmem_alloc h bytes = Some (p, h')" "p \<noteq> 0 \<longleftrightarrow> bytes \<noteq> 0 \<and> (\<exists>c\<in>set cs. fitting bytes c)"
    using alloc_spec [OF assms, of bytes] by (auto split: if_splits)
  have "0 < bytes \<and> bytes \<le> largest_free st \<longleftrightarrow> bytes \<noteq> 0 \<and> (\<exists>c\<in>set cs. fitting bytes c)"
  proof (cases "bytes = 0")
    case False
    then have "0 < unat bytes" "0 < bytes"
      by (auto simp: unat_gt_0 word_gt_0)
    then show ?thesis
      using False largest_fits [of "unat bytes" cs] st(6) by (simp add: word_le_nat_alt fitting_def)
  qed simp
  moreover have "unat (largest_free st) + 48 = unat (g_heap_end h) - unat (g_heap_base h)" if empty: "objs (ram h) cs = Map.empty"
  proof -
    obtain c where "cs = [c]" "c_free c" "unat (c_size c) + 48 = unat (g_heap_end h) - unat (g_heap_base h)"
      by (rule no_objects [OF assms empty])
    then show ?thesis
      using st(6) by (simp add: largest_def)
  qed
  ultimately show ?thesis
    using st(1-5) a tiled_total [OF f(1)] by auto
qed

text \<open>
  Property C39. \<^verbatim>\<open>kmem_init\<close> on a region of at least 128 bytes and at most 64 MB succeeds, whatever the memory holds
  and however the region is aligned. The heap lies in the region, loses at most 30 bytes to alignment, and has no objects.
\<close>

theorem kmem_init_empty:
  assumes "base \<noteq> 0" and "unat base + unat bytes < 2 ^ 64" and "128 \<le> unat bytes" and "unat bytes \<le> 2 ^ 26"
  shows "\<exists>h'. kmem_init h base bytes = (0, h') \<and> represents h' Map.empty \<and> unat base \<le> unat (g_heap_base h') \<and>
    unat (g_heap_end h') \<le> unat base + unat bytes \<and> unat bytes \<le> unat (g_heap_end h') - unat (g_heap_base h') + 30"
proof -
  obtain h' c where "kmem_init h base bytes = (0, h')" "kmem_inv h' [c]" "c_free c" "unat base \<le> unat (g_heap_base h')"
    "unat (g_heap_end h') \<le> unat base + unat bytes" "unat bytes \<le> unat (g_heap_end h') - unat (g_heap_base h') + 30"
    using init_spec [OF assms(1-3)] assms(4) by fastforce
  moreover from this have "represents h' Map.empty"
    using assms(4) objs_empty [of "ram h'" c] by (auto simp: represents_def intro!: exI [of _ "[c]"])
  ultimately show ?thesis
    by blast
qed

section \<open>A concrete heap\<close>

definition kmem_boot :: kmem_heap where
  "kmem_boot = \<lparr>g_heap_base = 0, g_heap_end = 0, g_head = 0, g_initialized = False, ram = \<lambda>_. 0\<rparr>"

theorem kmem_init_empty_witness:
  "\<exists>h'. kmem_init kmem_boot 0x1001 0x4000 = (0, h') \<and> represents h' Map.empty"
  using kmem_init_empty [where base = "0x1001" and bytes = "0x4000" and h = kmem_boot] by auto

lemma sample_heap:
  obtains h c where "kmem_init kmem_boot 0x1000 0x4000 = (0, h)" "kmem_inv h [c]" "represents h Map.empty" "c_free c"
proof -
  obtain h c where h: "kmem_init kmem_boot 0x1000 0x4000 = (0, h)" "kmem_inv h [c]" "c_free c"
    "unat (g_heap_end h) \<le> 0x5000" "0x1000 \<le> unat (g_heap_base h)"
    using init_spec [where base = "0x1000" and bytes = "0x4000" and h = kmem_boot] by auto
  then have "represents h Map.empty"
    using objs_empty [of "ram h" c] by (auto simp: represents_def intro!: exI [of _ "[c]"])
  then show ?thesis
    using that h by blast
qed

theorem kmem_refines_objects_witness:
  "\<exists>h r h' M'. kmem_init kmem_boot 0x1000 0x4000 = (0, h) \<and> kmem_call_run (Calloc 3 100) h = Some (r, h') \<and>
     obj_call (Calloc 3 100) Map.empty r M' \<and> represents h' M'"
proof -
  obtain h c where h: "kmem_init kmem_boot 0x1000 0x4000 = (0, h)" "represents h Map.empty"
    by (rule sample_heap, rule that)
  then show ?thesis
    using kmem_refines_objects [OF h(2), of "Calloc 3 100"] by auto
qed

lemma sample_object:
  obtains h p cs where "kmem_inv h cs" "kmem_alloc (snd (kmem_init kmem_boot 0x1000 0x4000)) 100 = Some (p, h)"
    "p \<in> dom (objs (ram h) cs)" "length cs \<le> 1048576"
proof -
  obtain h0 c where h0: "kmem_init kmem_boot 0x1000 0x4000 = (0, h0)" "kmem_inv h0 [c]" "represents h0 Map.empty" "c_free c"
    by (rule sample_heap, rule that)
  obtain p h M where a: "kmem_alloc h0 100 = Some (p, h)" "represents h M"
    "p = 0 \<and> h = h0 \<and> M = Map.empty \<or> (\<exists>bs. new_object (unat (100 :: u64)) p bs Map.empty \<and> M = [p \<mapsto> bs])"
    by (rule alloc_represents [OF h0(3), of 100])
  obtain st p' h'' where "kmem_get_stats h0 = Some st" "kmem_alloc h0 100 = Some (p', h'')" "p' \<noteq> 0"
  proof -
    have "unat (c_size c) + 48 = unat (g_heap_end h0) - unat (g_heap_base h0)"
      using kmem_inv_facts(1) [OF h0(2)] by auto
    moreover have "unat (0x4000 :: u64) \<le> unat (g_heap_end h0) - unat (g_heap_base h0) + 30"
      using init_spec [where base = "0x1000" and bytes = "0x4000" and h = kmem_boot] h0(1) by auto
    ultimately have "fitting 100 c"
      using h0(4) by (simp add: fitting_def word_le_nat_alt)
    then show ?thesis
      using alloc_spec [OF h0(2), of 100] stats_spec [OF h0(2)] that by auto
  qed
  then have "p \<in> dom M"
    using a by auto
  then show ?thesis
    using that a(1,2) h0(1) represents_count [OF a(2)] by (auto simp: represents_def)
qed

theorem kmem_free_once_witness:
  "\<exists>h p h' err. kmem_alloc (snd (kmem_init kmem_boot 0x1000 0x4000)) 100 = Some (p, h) \<and>
     (\<exists>rc. kmem_free_checked h p = Some (rc, h')) \<and> kmem_free_checked h' p = Some (err, h') \<and> (err = -3 \<or> err = -4)"
proof -
  obtain h p cs where o: "kmem_inv h cs" "kmem_alloc (snd (kmem_init kmem_boot 0x1000 0x4000)) 100 = Some (p, h)"
    "p \<in> dom (objs (ram h) cs)"
    by (rule sample_object, rule that)
  then show ?thesis
    using kmem_free_once [OF o(1,3)] by blast
qed

theorem kmem_alloc_succeeds_witness:
  "\<exists>h p h'. kmem_init kmem_boot 0x1000 0x4000 = (0, h) \<and> kmem_alloc h 100 = Some (p, h') \<and> p \<noteq> 0"
proof -
  obtain h c where h: "kmem_init kmem_boot 0x1000 0x4000 = (0, h)" "kmem_inv h [c]" "c_free c"
    by (rule sample_heap, rule that)
  have "unat (0x4000 :: u64) \<le> unat (g_heap_end h) - unat (g_heap_base h) + 30"
    using init_spec [where base = "0x1000" and bytes = "0x4000" and h = kmem_boot] h(1) by auto
  moreover obtain st p h' where "kmem_get_stats h = Some st" "kmem_alloc h 100 = Some (p, h')" "p \<noteq> 0 \<longleftrightarrow> 0 < (100 :: u64) \<and> 100 \<le> largest_free st"
    "if objs (ram h) [c] = Map.empty then unat (largest_free st) + 48 = unat (g_heap_end h) - unat (g_heap_base h) else True"
    using kmem_alloc_succeeds [OF h(2), of 100] by blast
  moreover have "objs (ram h) [c] = Map.empty"
    using h(3) by (simp add: objs_empty)
  ultimately show ?thesis
    using h(1) by (auto simp: word_le_nat_alt)
qed

end
