(* ===== verification/Vfs.thy ===== *)
theory Vfs
  imports Layout
begin

text \<open>
  The in-memory file system and the file descriptors: \<^verbatim>\<open>src/kernel/vfs/ramfs.c\<close>, \<^verbatim>\<open>src/kernel/vfs/fd.c\<close> and
  \<^verbatim>\<open>src/include/mcs_vfs.h\<close>. A path is the list of its characters, with a terminating zero behind the
  last. A pointer to a node of a file system is the node's index; a pointer to a file system is its
  address, 0 for NULL.
\<close>

section \<open>Data\<close>

definition MCS_MAX_NAME :: nat where "MCS_MAX_NAME = 32"
definition MCS_MAX_PATH :: nat where "MCS_MAX_PATH = 128"
definition MCS_MAX_NODES :: nat where "MCS_MAX_NODES = 64"
definition MCS_MAX_OPEN_FILES :: nat where "MCS_MAX_OPEN_FILES = 16"
definition MCS_RAMFS_DATA_BYTES :: nat where "MCS_RAMFS_DATA_BYTES = 8192"

definition MCS_O_RDONLY :: u32 where "MCS_O_RDONLY = 0x0001"
definition MCS_O_WRONLY :: u32 where "MCS_O_WRONLY = 0x0002"
definition MCS_O_RDWR :: u32 where "MCS_O_RDWR = 0x0004"
definition MCS_O_CREAT :: u32 where "MCS_O_CREAT = 0x0100"
definition MCS_O_TRUNC :: u32 where "MCS_O_TRUNC = 0x0200"
definition MCS_O_APPEND :: u32 where "MCS_O_APPEND = 0x0400"

definition MCS_SEEK_SET :: int where "MCS_SEEK_SET = 0"
definition MCS_SEEK_CUR :: int where "MCS_SEEK_CUR = 1"
definition MCS_SEEK_END :: int where "MCS_SEEK_END = 2"

definition MCS_OK :: int where "MCS_OK = 0"
definition MCS_ENOENT :: int where "MCS_ENOENT = -2"
definition MCS_EBADF :: int where "MCS_EBADF = -9"
definition MCS_EACCES :: int where "MCS_EACCES = -13"
definition MCS_ENOTDIR :: int where "MCS_ENOTDIR = -20"
definition MCS_EISDIR :: int where "MCS_EISDIR = -21"
definition MCS_EINVAL :: int where "MCS_EINVAL = -22"
definition MCS_ENFILE :: int where "MCS_ENFILE = -23"
definition MCS_ENOSPC :: int where "MCS_ENOSPC = -28"
definition MCS_ENAMETOOLONG :: int where "MCS_ENAMETOOLONG = -36"

datatype mcs_vnode_type = MCS_VNODE_DIR | MCS_VNODE_FILE

record mcs_vnode =
  vn_used :: bool
  vn_id :: u32
  vn_parent :: u32
  vn_type :: mcs_vnode_type
  vn_name :: bytes
  vn_size :: u64
  vn_data_offset :: u64
  vn_data_capacity :: u64

record mcs_ramfs =
  fs_nodes :: "mcs_vnode list"
  fs_node_count :: u64
  fs_data :: bytes
  fs_data_used :: u64

record mcs_file =
  f_used :: bool
  f_flags :: u32
  f_offset :: u64
  f_node :: "(u64 \<times> nat) option"
  f_fs :: u64

type_synonym mcs_fd_table = "mcs_file list"

record mcs_process =
  p_pid :: u32
  p_fd_table :: mcs_fd_table

section \<open>Names and paths\<close>

text \<open>\<^verbatim>\<open>'/'\<close>\<close>

definition slash :: u8 where "slash = 0x2F"

definition mcs_strlen :: "bytes \<Rightarrow> nat" where
  "mcs_strlen s = length (takeWhile (\<lambda>c. c \<noteq> 0) s)"

definition mcs_streq_n :: "bytes \<Rightarrow> bytes \<Rightarrow> nat \<Rightarrow> bool" where
  "mcs_streq_n a b n \<longleftrightarrow> list_all (\<lambda>i. char_at a i = b ! i) [0..<n] \<and> b ! n = 0"

definition mcs_copy_bytes :: "bytes \<Rightarrow> nat \<Rightarrow> bytes \<Rightarrow> nat \<Rightarrow> bytes" where
  "mcs_copy_bytes dst off src n = copy_loop dst off src 0 n"

definition mcs_copy_name :: "bytes \<Rightarrow> bytes \<Rightarrow> nat \<Rightarrow> bytes" where
  "mcs_copy_name dst src n =
    fold (\<lambda>i d. if i < n then d[i := char_at src i] else d) [0..<MCS_MAX_NAME - 1]
      (fold (\<lambda>i d. d[i := 0]) [0..<MCS_MAX_NAME] dst)"

text \<open>The end of the path component that starts at \<open>seg\<close>.\<close>

definition mcs_seg_end :: "bytes \<Rightarrow> nat \<Rightarrow> nat" where
  "mcs_seg_end path seg = seg + length (takeWhile (\<lambda>c. c \<noteq> slash \<and> c \<noteq> 0) (drop seg path))"

section \<open>The file system\<close>

definition mcs_find_child :: "mcs_ramfs \<Rightarrow> u32 \<Rightarrow> bytes \<Rightarrow> nat \<Rightarrow> int + nat" where
  "mcs_find_child fs parent name name_len =
    (if name_len = 0 \<or> name_len \<ge> MCS_MAX_NAME then Inl MCS_EINVAL
     else case find (\<lambda>i. vn_used (fs_nodes fs ! i) \<and> vn_parent (fs_nodes fs ! i) = parent \<and>
                      mcs_streq_n name (vn_name (fs_nodes fs ! i)) name_len) [0..<unat (fs_node_count fs)] of
       Some i \<Rightarrow> Inr i
     | None \<Rightarrow> Inl MCS_ENOENT)"

lemma seg_end_less: "char_at path (mcs_seg_end path seg) \<noteq> 0 \<Longrightarrow> mcs_seg_end path seg < length path"
  by (auto simp: char_at_def split: if_splits)

lemma seg_end_ge: "seg \<le> mcs_seg_end path seg"
  by (simp add: mcs_seg_end_def)

text \<open>The loop of \<^verbatim>\<open>mcs_split_parent_leaf\<close>: the parent, the start of the leaf name and its length.\<close>

function mcs_split_loop :: "mcs_ramfs \<Rightarrow> bytes \<Rightarrow> nat \<Rightarrow> nat \<Rightarrow> int + nat \<times> nat \<times> nat" where
  "mcs_split_loop fs path cur seg =
    (let next = mcs_seg_end path seg; seg_len = next - seg in
     if seg_len = 0 \<or> seg_len \<ge> MCS_MAX_NAME then Inl MCS_EINVAL
     else if char_at path next = 0 then Inr (cur, seg, seg_len)
     else case mcs_find_child fs (vn_id (fs_nodes fs ! cur)) (drop seg path) seg_len of
       Inl rc \<Rightarrow> Inl rc
     | Inr cur \<Rightarrow>
         if vn_type (fs_nodes fs ! cur) \<noteq> MCS_VNODE_DIR then Inl MCS_ENOTDIR
         else mcs_split_loop fs path cur (next + 1))"
  by pat_completeness auto
termination
proof (relation "measure (\<lambda>(fs, path, cur, seg). length path - seg)", goal_cases)
  case (2 fs path cur seg nxt seg_len cur')
  then show ?case
    using seg_end_less [of path seg] seg_end_ge [of seg path] by simp
qed simp

declare mcs_split_loop.simps [simp del]

definition mcs_split_parent_leaf :: "mcs_ramfs \<Rightarrow> bytes \<Rightarrow> int + nat \<times> nat \<times> nat" where
  "mcs_split_parent_leaf fs path =
    (if char_at path 0 \<noteq> slash then Inl MCS_EINVAL
     else if char_at path 1 = 0 then Inl MCS_EINVAL
     else if mcs_strlen path \<ge> MCS_MAX_PATH then Inl MCS_ENAMETOOLONG
     else mcs_split_loop fs path 0 1)"

definition mcs_alloc_node ::
  "mcs_ramfs \<Rightarrow> u32 \<Rightarrow> mcs_vnode_type \<Rightarrow> bytes \<Rightarrow> nat \<Rightarrow> u64 \<Rightarrow> (int + nat) \<times> mcs_ramfs" where
  "mcs_alloc_node fs parent type name name_len capacity =
    (if name_len = 0 \<or> name_len \<ge> MCS_MAX_NAME then (Inl MCS_EINVAL, fs)
     else if unat (fs_node_count fs) \<ge> MCS_MAX_NODES then (Inl MCS_ENOSPC, fs)
     else if type = MCS_VNODE_FILE \<and> unat (fs_data_used fs + capacity) > MCS_RAMFS_DATA_BYTES then (Inl MCS_ENOSPC, fs)
     else
       let i = unat (fs_node_count fs);
           node = (fs_nodes fs ! i)\<lparr>vn_used := True, vn_id := ucast (fs_node_count fs), vn_parent := parent,
             vn_type := type, vn_name := mcs_copy_name (vn_name (fs_nodes fs ! i)) name name_len,
             vn_size := 0, vn_data_offset := 0, vn_data_capacity := 0\<rparr>;
           (node, data_used) = (if type = MCS_VNODE_FILE
             then (node\<lparr>vn_data_offset := fs_data_used fs, vn_data_capacity := capacity\<rparr>, fs_data_used fs + capacity)
             else (node, fs_data_used fs)) in
       (Inr i, fs\<lparr>fs_nodes := (fs_nodes fs)[i := node], fs_data_used := data_used, fs_node_count := fs_node_count fs + 1\<rparr>))"

definition mcs_ramfs_init :: "mcs_ramfs option \<Rightarrow> mcs_ramfs option" where
  "mcs_ramfs_init fs = (case fs of None \<Rightarrow> None | Some fs \<Rightarrow>
     let nodes = fold (\<lambda>i ns. ns[i := (ns ! i)\<lparr>vn_used := False, vn_id := 0, vn_parent := 0, vn_type := MCS_VNODE_FILE,
                   vn_name := (vn_name (ns ! i))[0 := 0], vn_size := 0, vn_data_offset := 0, vn_data_capacity := 0\<rparr>])
                 [0..<MCS_MAX_NODES] (fs_nodes fs);
         data = fold (\<lambda>i d. d[i := 0]) [0..<MCS_RAMFS_DATA_BYTES] (fs_data fs);
         root = (nodes ! 0)\<lparr>vn_used := True, vn_id := 0, vn_parent := 0, vn_type := MCS_VNODE_DIR,
                   vn_name := (vn_name (nodes ! 0))[0 := slash, 1 := 0]\<rparr> in
     Some \<lparr>fs_nodes = nodes[0 := root], fs_node_count = 1, fs_data = data, fs_data_used = 0\<rparr>)"

text \<open>The loop of \<^verbatim>\<open>mcs_ramfs_lookup\<close>.\<close>

function mcs_lookup_loop :: "mcs_ramfs \<Rightarrow> bytes \<Rightarrow> nat \<Rightarrow> nat \<Rightarrow> int + nat" where
  "mcs_lookup_loop fs path cur seg =
    (if char_at path seg = 0 then Inl MCS_EINVAL
     else
       let next = mcs_seg_end path seg; seg_len = next - seg in
       if seg_len = 0 \<or> seg_len \<ge> MCS_MAX_NAME then Inl MCS_EINVAL
       else case mcs_find_child fs (vn_id (fs_nodes fs ! cur)) (drop seg path) seg_len of
         Inl rc \<Rightarrow> Inl rc
       | Inr cur \<Rightarrow>
           if char_at path next = 0 then Inr cur
           else if vn_type (fs_nodes fs ! cur) \<noteq> MCS_VNODE_DIR then Inl MCS_ENOTDIR
           else mcs_lookup_loop fs path cur (next + 1))"
  by pat_completeness auto
termination
proof (relation "measure (\<lambda>(fs, path, cur, seg). length path - seg)", goal_cases)
  case (2 fs path cur seg nxt seg_len cur')
  then show ?case
    using seg_end_less [of path seg] seg_end_ge [of seg path] by simp
qed simp

declare mcs_lookup_loop.simps [simp del]

definition mcs_ramfs_lookup :: "mcs_ramfs \<Rightarrow> bytes \<Rightarrow> int + nat" where
  "mcs_ramfs_lookup fs path =
    (if char_at path 0 \<noteq> slash then Inl MCS_EINVAL
     else if mcs_strlen path \<ge> MCS_MAX_PATH then Inl MCS_ENAMETOOLONG
     else if char_at path 1 = 0 then Inr 0
     else mcs_lookup_loop fs path 0 1)"

definition mcs_ramfs_create_file :: "mcs_ramfs \<Rightarrow> bytes \<Rightarrow> (int + nat) \<times> mcs_ramfs" where
  "mcs_ramfs_create_file fs path =
    (case mcs_ramfs_lookup fs path of
       Inr existing \<Rightarrow>
         if vn_type (fs_nodes fs ! existing) \<noteq> MCS_VNODE_FILE then (Inl MCS_EISDIR, fs) else (Inr existing, fs)
     | Inl _ \<Rightarrow>
         (case mcs_split_parent_leaf fs path of
            Inl rc \<Rightarrow> (Inl rc, fs)
          | Inr (parent, leaf, leaf_len) \<Rightarrow>
              if vn_type (fs_nodes fs ! parent) \<noteq> MCS_VNODE_DIR then (Inl MCS_ENOTDIR, fs)
              else mcs_alloc_node fs (vn_id (fs_nodes fs ! parent)) MCS_VNODE_FILE (drop leaf path) leaf_len 256))"

definition set_node_size :: "nat \<Rightarrow> u64 \<Rightarrow> mcs_ramfs \<Rightarrow> mcs_ramfs" where
  "set_node_size i sz fs = fs\<lparr>fs_nodes := (fs_nodes fs)[i := (fs_nodes fs ! i)\<lparr>vn_size := sz\<rparr>]\<rparr>"

definition mcs_ramfs_seed_file :: "mcs_ramfs option \<Rightarrow> bytes option \<Rightarrow> bytes option \<Rightarrow> u64 \<Rightarrow> int \<times> mcs_ramfs option" where
  "mcs_ramfs_seed_file fs path data len =
    (case (fs, path) of
       (Some fs, Some path) \<Rightarrow>
         if data = None \<and> len \<noteq> 0 then (MCS_EINVAL, Some fs)
         else
           let (r, fs) = mcs_ramfs_create_file fs path in
           (case r of Inl rc \<Rightarrow> (rc, Some fs) | Inr node \<Rightarrow>
              if len > vn_data_capacity (fs_nodes fs ! node) then (MCS_ENOSPC, Some fs)
              else
                let fs = fs\<lparr>fs_data := mcs_copy_bytes (fs_data fs) (unat (vn_data_offset (fs_nodes fs ! node)))
                              (case data of None \<Rightarrow> [] | Some d \<Rightarrow> d) (unat len)\<rparr> in
                (MCS_OK, Some (set_node_size node len fs)))
     | _ \<Rightarrow> (MCS_EINVAL, fs))"

section \<open>File descriptors\<close>

text \<open>The file systems in memory and the descriptor table of the caller; \<open>None\<close> is a NULL table.\<close>

record vfs =
  v_fs :: "u64 \<Rightarrow> mcs_ramfs"
  v_table :: "mcs_fd_table option"

definition mcs_can_read :: "u32 \<Rightarrow> bool" where
  "mcs_can_read flags \<longleftrightarrow> flags AND MCS_O_RDONLY \<noteq> 0 \<or> flags AND MCS_O_RDWR \<noteq> 0"

definition mcs_can_write :: "u32 \<Rightarrow> bool" where
  "mcs_can_write flags \<longleftrightarrow> flags AND MCS_O_WRONLY \<noteq> 0 \<or> flags AND MCS_O_RDWR \<noteq> 0"

definition mcs_file_closed :: mcs_file where
  "mcs_file_closed = \<lparr>f_used = False, f_flags = 0, f_offset = 0, f_node = None, f_fs = 0\<rparr>"

definition mcs_fd_table_init :: "mcs_fd_table option \<Rightarrow> mcs_fd_table option" where
  "mcs_fd_table_init table = (case table of None \<Rightarrow> None | Some t \<Rightarrow>
     Some (fold (\<lambda>i t. t[i := mcs_file_closed]) [0..<MCS_MAX_OPEN_FILES] t))"

text \<open>The open file of a descriptor.\<close>

definition mcs_fd_get :: "mcs_fd_table option \<Rightarrow> int \<Rightarrow> mcs_file option" where
  "mcs_fd_get table fd = (case table of None \<Rightarrow> None | Some t \<Rightarrow>
     if fd < 0 \<or> nat fd \<ge> MCS_MAX_OPEN_FILES then None
     else if \<not> f_used (t ! nat fd) then None
     else Some (t ! nat fd))"

definition upd_file :: "nat \<Rightarrow> (mcs_file \<Rightarrow> mcs_file) \<Rightarrow> mcs_fd_table \<Rightarrow> mcs_fd_table" where
  "upd_file i f t = t[i := f (t ! i)]"

definition mcs_fd_alloc :: "mcs_fd_table \<Rightarrow> int \<times> mcs_fd_table" where
  "mcs_fd_alloc t = (case find (\<lambda>i. \<not> f_used (t ! i)) [0..<MCS_MAX_OPEN_FILES] of
     Some i \<Rightarrow> (int i, upd_file i (\<lambda>f. f\<lparr>f_used := True\<rparr>) t)
   | None \<Rightarrow> (MCS_ENFILE, t))"

text \<open>The part of \<^verbatim>\<open>mcs_vfs_open\<close> after the node has been found.\<close>

definition mcs_open_node :: "mcs_fd_table \<Rightarrow> u64 \<Rightarrow> nat \<Rightarrow> u32 \<Rightarrow> vfs \<Rightarrow> int \<times> vfs" where
  "mcs_open_node t fs node flags v =
    (let n = fs_nodes (v_fs v fs) ! node in
     if vn_type n = MCS_VNODE_DIR \<and> mcs_can_write flags then (MCS_EISDIR, v)
     else
       let (fd, t) = mcs_fd_alloc t in
       if fd < 0 then (fd, v\<lparr>v_table := Some t\<rparr>)
       else
         let t = upd_file (nat fd) (\<lambda>f. f\<lparr>f_flags := flags, f_node := Some (fs, node), f_fs := fs,
                   f_offset := (if flags AND MCS_O_APPEND \<noteq> 0 then vn_size n else 0)\<rparr>) t in
         if flags AND MCS_O_TRUNC \<noteq> 0 then
           if \<not> mcs_can_write flags then
             (MCS_EACCES, v\<lparr>v_table := Some (upd_file (nat fd) (\<lambda>f. f\<lparr>f_used := False, f_node := None, f_fs := 0\<rparr>) t)\<rparr>)
           else
             (fd, v\<lparr>v_fs := (v_fs v)(fs := set_node_size node 0 (v_fs v fs)),
                    v_table := Some (upd_file (nat fd) (\<lambda>f. f\<lparr>f_offset := 0\<rparr>) t)\<rparr>)
         else (fd, v\<lparr>v_table := Some t\<rparr>))"

definition mcs_vfs_open :: "u64 \<Rightarrow> bytes option \<Rightarrow> u32 \<Rightarrow> vfs \<Rightarrow> int \<times> vfs" where
  "mcs_vfs_open fs path flags v =
    (case (v_table v, path) of
       (Some t, Some path) \<Rightarrow>
         if fs = 0 then (MCS_EINVAL, v)
         else
           let flags = (if flags AND (MCS_O_RDONLY OR MCS_O_WRONLY OR MCS_O_RDWR) = 0 then flags OR MCS_O_RDONLY
                        else flags) in
           (case mcs_ramfs_lookup (v_fs v fs) path of
              Inr node \<Rightarrow> mcs_open_node t fs node flags v
            | Inl rc \<Rightarrow>
                if flags AND MCS_O_CREAT = 0 then (rc, v)
                else
                  let (r, fs') = mcs_ramfs_create_file (v_fs v fs) path;
                      v = v\<lparr>v_fs := (v_fs v)(fs := fs')\<rparr> in
                  (case r of Inl rc \<Rightarrow> (rc, v) | Inr node \<Rightarrow> mcs_open_node t fs node flags v))
     | _ \<Rightarrow> (MCS_EINVAL, v))"

definition mcs_min_size :: "u64 \<Rightarrow> u64 \<Rightarrow> u64" where
  "mcs_min_size a b = (if a < b then a else b)"

definition mcs_copy_to_user :: "bytes \<Rightarrow> bytes \<Rightarrow> nat \<Rightarrow> nat \<Rightarrow> bytes" where
  "mcs_copy_to_user dst src off n = copy_loop dst 0 src off n"

definition mcs_copy_from_user :: "bytes \<Rightarrow> nat \<Rightarrow> bytes \<Rightarrow> nat \<Rightarrow> bytes" where
  "mcs_copy_from_user dst off src n = copy_loop dst off src 0 n"

text \<open>A read returns the caller's buffer; \<^verbatim>\<open>len\<close> is the size that the caller gives for it.\<close>

definition mcs_vfs_read :: "int \<Rightarrow> bytes option \<Rightarrow> u64 \<Rightarrow> vfs \<Rightarrow> int \<times> bytes option \<times> vfs" where
  "mcs_vfs_read fd buf len v =
    (if buf = None \<and> len \<noteq> 0 then (MCS_EINVAL, buf, v)
     else case mcs_fd_get (v_table v) fd of None \<Rightarrow> (MCS_EBADF, buf, v) | Some f \<Rightarrow>
       if \<not> mcs_can_read (f_flags f) then (MCS_EACCES, buf, v)
       else if f_node f = None \<or> f_fs f = 0 then (MCS_EINVAL, buf, v)
       else
         let (a, i) = the (f_node f); n = fs_nodes (v_fs v a) ! i in
         if vn_type n = MCS_VNODE_DIR then (MCS_EISDIR, buf, v)
         else if f_offset f \<ge> vn_size n then (0, buf, v)
         else
           let remain = vn_size n - f_offset f;
               k = mcs_min_size len remain in
           (sint k,
            map_option (\<lambda>b. mcs_copy_to_user b (fs_data (v_fs v (f_fs f))) (unat (vn_data_offset n + f_offset f)) (unat k)) buf,
            v\<lparr>v_table := map_option (upd_file (nat fd) (\<lambda>f. f\<lparr>f_offset := f_offset f + k\<rparr>)) (v_table v)\<rparr>))"

definition mcs_vfs_write :: "int \<Rightarrow> bytes option \<Rightarrow> u64 \<Rightarrow> vfs \<Rightarrow> int \<times> vfs" where
  "mcs_vfs_write fd buf len v =
    (if buf = None \<and> len \<noteq> 0 then (MCS_EINVAL, v)
     else case mcs_fd_get (v_table v) fd of None \<Rightarrow> (MCS_EBADF, v) | Some f \<Rightarrow>
       if \<not> mcs_can_write (f_flags f) then (MCS_EACCES, v)
       else if f_node f = None \<or> f_fs f = 0 then (MCS_EINVAL, v)
       else
         let (a, i) = the (f_node f); n = fs_nodes (v_fs v a) ! i in
         if vn_type n = MCS_VNODE_DIR then (MCS_EISDIR, v)
         else
           let off = (if f_flags f AND MCS_O_APPEND \<noteq> 0 then vn_size n else f_offset f);
               v = v\<lparr>v_table := map_option (upd_file (nat fd) (\<lambda>f. f\<lparr>f_offset := off\<rparr>)) (v_table v)\<rparr> in
           if off > vn_data_capacity n then (MCS_EINVAL, v)
           else
             let k = mcs_min_size len (vn_data_capacity n - off) in
             if k < len then (MCS_ENOSPC, v)
             else
               let fs = v_fs v (f_fs f);
                   fs = fs\<lparr>fs_data := mcs_copy_from_user (fs_data fs) (unat (vn_data_offset n + off))
                             (case buf of None \<Rightarrow> [] | Some b \<Rightarrow> b) (unat k)\<rparr>;
                   v = v\<lparr>v_fs := (v_fs v)(f_fs f := fs)\<rparr>;
                   v = v\<lparr>v_table := map_option (upd_file (nat fd) (\<lambda>f. f\<lparr>f_offset := off + k\<rparr>)) (v_table v)\<rparr>;
                   v = (if off + k > vn_size n
                        then v\<lparr>v_fs := (v_fs v)(a := set_node_size i (off + k) (v_fs v a))\<rparr> else v) in
               (sint k, v))"

text \<open>
  \<^verbatim>\<open>long\<close> is a signed word of 64 bits. \<open>None\<close> is the overflow of \<^verbatim>\<open>base + offset\<close>, which C does not define. The new
  offset is returned as an \<^verbatim>\<open>int\<close> of 32 bits.
\<close>

definition mcs_vfs_lseek :: "int \<Rightarrow> int \<Rightarrow> int \<Rightarrow> vfs \<Rightarrow> (int \<times> vfs) option" where
  "mcs_vfs_lseek fd offset whence v =
    (case mcs_fd_get (v_table v) fd of None \<Rightarrow> Some (MCS_EBADF, v) | Some f \<Rightarrow>
       if f_node f = None then Some (MCS_EISDIR, v)
       else
         let (a, i) = the (f_node f); n = fs_nodes (v_fs v a) ! i in
         if vn_type n = MCS_VNODE_DIR then Some (MCS_EISDIR, v)
         else if whence \<noteq> MCS_SEEK_SET \<and> whence \<noteq> MCS_SEEK_CUR \<and> whence \<noteq> MCS_SEEK_END then Some (MCS_EINVAL, v)
         else
           let base = (if whence = MCS_SEEK_SET then 0
                       else if whence = MCS_SEEK_CUR then sint (f_offset f) else sint (vn_size n));
               next = base + offset in
           if next < - (2 ^ 63) \<or> next \<ge> 2 ^ 63 then None
           else if next < 0 then Some (MCS_EINVAL, v)
           else Some (sint (ucast (of_int next :: u64) :: u32),
             v\<lparr>v_table := map_option (upd_file (nat fd) (\<lambda>f. f\<lparr>f_offset := of_int next\<rparr>)) (v_table v)\<rparr>))"

definition mcs_vfs_close :: "int \<Rightarrow> vfs \<Rightarrow> int \<times> vfs" where
  "mcs_vfs_close fd v = (case mcs_fd_get (v_table v) fd of None \<Rightarrow> (MCS_EBADF, v) | Some _ \<Rightarrow>
     (MCS_OK, v\<lparr>v_table := map_option (upd_file (nat fd) (\<lambda>_. mcs_file_closed)) (v_table v)\<rparr>))"

definition mcs_vfs_dup :: "int \<Rightarrow> vfs \<Rightarrow> int \<times> vfs" where
  "mcs_vfs_dup fd v = (case (mcs_fd_get (v_table v) fd, v_table v) of
     (Some f, Some t) \<Rightarrow>
       let (newfd, t) = mcs_fd_alloc t in
       if newfd < 0 then (newfd, v\<lparr>v_table := Some t\<rparr>)
       else (newfd, v\<lparr>v_table := Some (upd_file (nat newfd) (\<lambda>g. g\<lparr>f_flags := f_flags f, f_offset := f_offset f,
               f_node := f_node f, f_fs := f_fs f\<rparr>) t)\<rparr>)
   | _ \<Rightarrow> (MCS_EBADF, v))"

text \<open>
  The system calls of a process: its descriptor table is the table of the call, and the process has the table
  afterwards.
\<close>

record vfs_sys =
  s_fs :: "u64 \<Rightarrow> mcs_ramfs"
  s_proc :: "mcs_process option"

definition sys_vfs :: "vfs_sys \<Rightarrow> vfs" where
  "sys_vfs s = \<lparr>v_fs = s_fs s, v_table = map_option p_fd_table (s_proc s)\<rparr>"

definition vfs_sys_of :: "vfs_sys \<Rightarrow> vfs \<Rightarrow> vfs_sys" where
  "vfs_sys_of s v = s\<lparr>s_fs := v_fs v,
     s_proc := map_option (\<lambda>p. p\<lparr>p_fd_table := (case v_table v of None \<Rightarrow> p_fd_table p | Some t \<Rightarrow> t)\<rparr>) (s_proc s)\<rparr>"

definition mcs_sys_open :: "u64 \<Rightarrow> bytes option \<Rightarrow> u32 \<Rightarrow> vfs_sys \<Rightarrow> int \<times> vfs_sys" where
  "mcs_sys_open fs user_path flags s =
    (if s_proc s = None \<or> fs = 0 \<or> user_path = None then (MCS_EINVAL, s)
     else let (r, v) = mcs_vfs_open fs user_path flags (sys_vfs s) in (r, vfs_sys_of s v))"

definition mcs_sys_read :: "int \<Rightarrow> bytes option \<Rightarrow> u64 \<Rightarrow> vfs_sys \<Rightarrow> int \<times> bytes option \<times> vfs_sys" where
  "mcs_sys_read fd user_buf len s =
    (if s_proc s = None \<or> user_buf = None \<and> len \<noteq> 0 then (MCS_EINVAL, user_buf, s)
     else let (r, b, v) = mcs_vfs_read fd user_buf len (sys_vfs s) in (r, b, vfs_sys_of s v))"

definition mcs_sys_write :: "int \<Rightarrow> bytes option \<Rightarrow> u64 \<Rightarrow> vfs_sys \<Rightarrow> int \<times> vfs_sys" where
  "mcs_sys_write fd user_buf len s =
    (if s_proc s = None \<or> user_buf = None \<and> len \<noteq> 0 then (MCS_EINVAL, s)
     else let (r, v) = mcs_vfs_write fd user_buf len (sys_vfs s) in (r, vfs_sys_of s v))"

definition mcs_sys_close :: "int \<Rightarrow> vfs_sys \<Rightarrow> int \<times> vfs_sys" where
  "mcs_sys_close fd s =
    (if s_proc s = None then (MCS_EINVAL, s)
     else let (r, v) = mcs_vfs_close fd (sys_vfs s) in (r, vfs_sys_of s v))"

definition mcs_sys_lseek :: "int \<Rightarrow> int \<Rightarrow> int \<Rightarrow> vfs_sys \<Rightarrow> (int \<times> vfs_sys) option" where
  "mcs_sys_lseek fd offset whence s =
    (if s_proc s = None then Some (MCS_EINVAL, s)
     else map_option (\<lambda>(r, v). (r, vfs_sys_of s v)) (mcs_vfs_lseek fd offset whence (sys_vfs s)))"

end
