(* ===== verification/Vfs_Correct.thy ===== *)
theory Vfs_Correct
  imports Vfs
begin

text \<open>
  Correctness of the in-memory file system: every call keeps the nodes, the extents of the files and
  the descriptor table well formed; creating a file changes what no other path leads to; what is
  written is read back, and other files do not change.
\<close>

section \<open>Well-formed file systems\<close>

abbreviation node_at :: "mcs_ramfs \<Rightarrow> nat \<Rightarrow> mcs_vnode" where
  "node_at fs i \<equiv> fs_nodes fs ! i"

abbreviation nodes_used :: "mcs_ramfs \<Rightarrow> nat" where
  "nodes_used fs \<equiv> unat (fs_node_count fs)"

text \<open>Node 0 is the root directory, all other nodes are files in it, and files have disjoint extents.\<close>

definition extent_ok :: "mcs_ramfs \<Rightarrow> mcs_vnode \<Rightarrow> bool" where
  "extent_ok fs n \<longleftrightarrow> unat (vn_data_offset n) + unat (vn_data_capacity n) \<le> unat (fs_data_used fs) \<and>
     vn_size n \<le> vn_data_capacity n"

definition extents_apart :: "mcs_vnode \<Rightarrow> mcs_vnode \<Rightarrow> bool" where
  "extents_apart m n \<longleftrightarrow> unat (vn_data_offset m) + unat (vn_data_capacity m) \<le> unat (vn_data_offset n) \<or>
     unat (vn_data_offset n) + unat (vn_data_capacity n) \<le> unat (vn_data_offset m)"

definition fs_inv :: "mcs_ramfs \<Rightarrow> bool" where
  "fs_inv fs \<longleftrightarrow> length (fs_nodes fs) = 64 \<and> length (fs_data fs) = 8192 \<and> 0 < nodes_used fs \<and> nodes_used fs \<le> 64 \<and>
     unat (fs_data_used fs) \<le> 8192 \<and> (\<forall>n\<in>set (fs_nodes fs). length (vn_name n) = 32) \<and>
     vn_type (node_at fs 0) = MCS_VNODE_DIR \<and> vn_name (node_at fs 0) ! 0 = slash \<and> vn_id (node_at fs 0) = 0 \<and>
     (\<forall>i. 0 < i \<and> i < nodes_used fs \<longrightarrow> vn_used (node_at fs i) \<and> vn_type (node_at fs i) = MCS_VNODE_FILE \<and>
        vn_parent (node_at fs i) = 0 \<and> extent_ok fs (node_at fs i)) \<and>
     (\<forall>i j. 0 < i \<and> i < j \<and> j < nodes_used fs \<longrightarrow> extents_apart (node_at fs i) (node_at fs j))"

lemma fs_invD:
  assumes "fs_inv fs"
  shows "length (fs_nodes fs) = 64" "length (fs_data fs) = 8192" "0 < nodes_used fs" "nodes_used fs \<le> 64"
    "unat (fs_data_used fs) \<le> 8192" "i < 64 \<Longrightarrow> length (vn_name (node_at fs i)) = 32"
    "vn_type (node_at fs 0) = MCS_VNODE_DIR" "vn_name (node_at fs 0) ! 0 = slash" "vn_id (node_at fs 0) = 0"
    "0 < i \<Longrightarrow> i < nodes_used fs \<Longrightarrow> vn_used (node_at fs i)"
    "0 < i \<Longrightarrow> i < nodes_used fs \<Longrightarrow> vn_type (node_at fs i) = MCS_VNODE_FILE"
    "0 < i \<Longrightarrow> i < nodes_used fs \<Longrightarrow> vn_parent (node_at fs i) = 0"
    "0 < i \<Longrightarrow> i < nodes_used fs \<Longrightarrow> extent_ok fs (node_at fs i)"
    "0 < i \<Longrightarrow> 0 < j \<Longrightarrow> i < nodes_used fs \<Longrightarrow> j < nodes_used fs \<Longrightarrow> i \<noteq> j \<Longrightarrow> extents_apart (node_at fs i) (node_at fs j)"
proof -
  show "extents_apart (node_at fs i) (node_at fs j)" if "0 < i" "0 < j" "i < nodes_used fs" "j < nodes_used fs" "i \<noteq> j"
  proof (cases "i < j")
    case True
    then show ?thesis
      using assms that unfolding fs_inv_def by blast
  next
    case False
    then have "extents_apart (node_at fs j) (node_at fs i)"
      using assms that unfolding fs_inv_def by force
    then show ?thesis
      by (auto simp: extents_apart_def)
  qed
qed (use assms in \<open>auto simp: fs_inv_def\<close>)

section \<open>Names\<close>

text \<open>The first component of an absolute path.\<close>

definition leaf_len :: "bytes \<Rightarrow> nat" where
  "leaf_len path = mcs_seg_end path 1 - 1"

definition leaf_name :: "bytes \<Rightarrow> bytes" where
  "leaf_name path = take (leaf_len path) (drop 1 path)"

lemma leaf_len_le: "leaf_len path \<le> length (drop 1 path)"
  unfolding leaf_len_def mcs_seg_end_def using length_takeWhile_le [of _ "drop 1 path"] by simp

lemma leaf_name_chars:
  assumes "i < leaf_len path"
  shows "char_at (drop 1 path) i = leaf_name path ! i" "leaf_name path ! i \<noteq> slash" "leaf_name path ! i \<noteq> 0"
proof -
  let ?P = "\<lambda>c. c \<noteq> slash \<and> c \<noteq> 0"
  have len: "leaf_len path = length (takeWhile ?P (drop 1 path))"
    by (simp add: leaf_len_def mcs_seg_end_def)
  have eq: "leaf_name path = takeWhile ?P (drop 1 path)"
    unfolding leaf_name_def len by (rule takeWhile_eq_take [symmetric])
  have "leaf_name path ! i \<in> set (takeWhile ?P (drop 1 path))"
    unfolding eq using assms len by simp
  then have "?P (leaf_name path ! i)"
    by (rule set_takeWhileD [THEN conjunct2])
  then show "leaf_name path ! i \<noteq> slash" "leaf_name path ! i \<noteq> 0"
    by auto
  show "char_at (drop 1 path) i = leaf_name path ! i"
    using assms leaf_len_le [of path] by (simp add: char_at_def leaf_name_def)
qed

lemma length_leaf_name [simp]: "length (leaf_name path) = leaf_len path"
  using leaf_len_le [of path] by (simp add: leaf_name_def)

lemma mcs_streq_iff:
  assumes "leaf_len path < 32" and "length b = 32"
  shows "mcs_streq_n (drop 1 path) b (leaf_len path) \<longleftrightarrow> take (leaf_len path) b = leaf_name path \<and> b ! leaf_len path = 0"
proof -
  have "list_all (\<lambda>i. char_at (drop 1 path) i = b ! i) [0..<leaf_len path] \<longleftrightarrow> take (leaf_len path) b = leaf_name path"
    using assms leaf_name_chars(1) [of _ path] by (auto simp: list_all_iff list_eq_iff_nth_eq)
  then show ?thesis
    by (simp add: mcs_streq_n_def)
qed

lemma copy_name_length [simp]: "length (mcs_copy_name dst src n) = length dst"
proof -
  have "length (fold (\<lambda>i d. if i < n then d[i := char_at src i] else d) is d) = length d" for "is" d
    by (induction "is" arbitrary: d) simp_all
  moreover have "length (fold (\<lambda>i d. d[i := 0]) is d) = length d" for "is" and d :: bytes
    by (induction "is" arbitrary: d) simp_all
  ultimately show ?thesis
    by (simp add: mcs_copy_name_def)
qed

lemma fold_update_nth:
  assumes "i < length d" and "distinct is"
  shows "fold (\<lambda>i d. d[i := f i]) is d ! i = (if i \<in> set is then f i else d ! i)"
  using assms
proof (induction "is" arbitrary: d)
  case (Cons j "is")
  then have "fold (\<lambda>i d. d[i := f i]) is (d[j := f j]) ! i = (if i \<in> set is then f i else d[j := f j] ! i)"
    by (intro Cons.IH) simp_all
  then show ?case
    using Cons.prems by (auto simp: nth_list_update)
qed simp

lemma copy_name_nth:
  assumes "length dst = 32" and "n < 32" and "i < 32"
  shows "mcs_copy_name dst src n ! i = (if i < n then char_at src i else 0)"
proof -
  let ?z = "fold (\<lambda>i d. d[i := 0]) [0..<MCS_MAX_NAME] dst"
  have "fold (\<lambda>i d. if i < n then d[i := char_at src i] else d) is d ! i =
      (if i \<in> set is \<and> i < n then char_at src i else d ! i)" if "i < length d" "distinct is" for "is" d
    using that
  proof (induction "is" arbitrary: d)
    case (Cons j "is")
    then show ?case
      by (cases "j < n") (auto simp: nth_list_update)
  qed simp
  moreover have "length (fold (\<lambda>i d. d[i := 0]) is d) = length d" for "is" and d :: bytes
    by (induction "is" arbitrary: d) simp_all
  moreover have "?z ! i = 0"
    using fold_update_nth [of i dst "[0..<MCS_MAX_NAME]" "\<lambda>_. 0"] assms by (simp add: MCS_MAX_NAME_def)
  ultimately show ?thesis
    using assms unfolding mcs_copy_name_def by (simp add: MCS_MAX_NAME_def)
qed

lemma copy_name_matches:
  assumes "length dst = 32" and "leaf_len path < 32" and "leaf_len p < 32" and "0 < leaf_len p"
  shows "mcs_streq_n (drop 1 p) (mcs_copy_name dst (drop 1 path) (leaf_len path)) (leaf_len p) \<longleftrightarrow> leaf_name p = leaf_name path"
proof -
  let ?b = "mcs_copy_name dst (drop 1 path) (leaf_len path)"
  have b: "?b ! i = (if i < leaf_len path then leaf_name path ! i else 0)" if "i < 32" for i
    using copy_name_nth [OF assms(1,2) that] leaf_name_chars(1) [of i path] by simp
  have "take (leaf_len p) ?b = leaf_name p \<and> ?b ! leaf_len p = 0 \<longleftrightarrow> leaf_name p = leaf_name path"
  proof
    assume l: "take (leaf_len p) ?b = leaf_name p \<and> ?b ! leaf_len p = 0"
    then have "\<not> leaf_len p < leaf_len path"
      using b [OF assms(3)] leaf_name_chars(3) [of "leaf_len p" path] by auto
    moreover have "\<not> leaf_len path < leaf_len p"
    proof
      assume lt: "leaf_len path < leaf_len p"
      then have "leaf_name p ! leaf_len path = ?b ! leaf_len path"
        using l by (metis nth_take)
      then show False
        using b [OF assms(2)] leaf_name_chars(3) [OF lt] by simp
    qed
    ultimately have "leaf_len p = leaf_len path"
      by simp
    then show "leaf_name p = leaf_name path"
      using l b assms by (intro nth_equalityI) (auto, metis nth_take order.strict_trans)
  next
    assume eq: "leaf_name p = leaf_name path"
    then have "leaf_len p = leaf_len path"
      by (metis length_leaf_name)
    then show "take (leaf_len p) ?b = leaf_name p \<and> ?b ! leaf_len p = 0"
      using b eq assms by (auto intro!: nth_equalityI)
  qed
  then show ?thesis
    using mcs_streq_iff [OF assms(3), of ?b] assms(1) by simp
qed

section \<open>Lookup\<close>

text \<open>Node \<open>i\<close> is the file with the name of the path's first component.\<close>

definition has_name :: "mcs_ramfs \<Rightarrow> bytes \<Rightarrow> nat \<Rightarrow> bool" where
  "has_name fs path i \<longleftrightarrow> 0 < i \<and> mcs_streq_n (drop 1 path) (vn_name (node_at fs i)) (leaf_len path)"

lemma find_child_root:
  assumes inv: "fs_inv fs" and len: "0 < leaf_len path" "leaf_len path < 32"
  shows "mcs_find_child fs 0 (drop 1 path) (leaf_len path) =
    (case find (has_name fs path) [0..<nodes_used fs] of Some i \<Rightarrow> Inr i | None \<Rightarrow> Inl MCS_ENOENT)"
proof -
  note f = fs_invD [OF inv]
  have "(vn_used (node_at fs i) \<and> vn_parent (node_at fs i) = 0 \<and> mcs_streq_n (drop 1 path) (vn_name (node_at fs i)) (leaf_len path))
      = has_name fs path i" if "i \<in> set [0..<nodes_used fs]" for i
  proof (cases "i = 0")
    case True
    have "take (leaf_len path) (vn_name (node_at fs 0)) \<noteq> leaf_name path"
      using f(8) leaf_name_chars(2) [OF len(1)] len(1) by (metis nth_take)
    then show ?thesis
      using True mcs_streq_iff [OF len(2) f(6), of 0] by (simp add: has_name_def)
  next
    case False
    then show ?thesis
      using that f(10,12) [of i] by (simp add: has_name_def)
  qed
  then have "find (\<lambda>i. vn_used (node_at fs i) \<and> vn_parent (node_at fs i) = 0 \<and>
      mcs_streq_n (drop 1 path) (vn_name (node_at fs i)) (leaf_len path)) [0..<nodes_used fs] =
    find (has_name fs path) [0..<nodes_used fs]"
    by (intro find_cong refl)
  then show ?thesis
    using len by (simp add: mcs_find_child_def MCS_MAX_NAME_def)
qed

definition path_end :: "bytes \<Rightarrow> bool" where
  "path_end path \<longleftrightarrow> char_at path (mcs_seg_end path 1) = 0"

lemma first_component: "mcs_seg_end path 1 - 1 = leaf_len path" "char_at path (mcs_seg_end path 1) = 0 \<longleftrightarrow> path_end path"
  by (simp_all add: leaf_len_def path_end_def)

lemmas lookup_first = mcs_lookup_loop.simps [of _ _ 0 1, unfolded Let_def first_component]
lemmas split_first = mcs_split_loop.simps [of _ _ 0 1, unfolded Let_def first_component]

lemma named_file:
  assumes "fs_inv fs" and "find (has_name fs path) [0..<nodes_used fs] = Some i"
  shows "0 < i" "i < nodes_used fs" "vn_type (node_at fs i) = MCS_VNODE_FILE"
proof -
  show i: "0 < i" "i < nodes_used fs"
    using assms(2) by (auto simp: find_upt_Some has_name_def)
  show "vn_type (node_at fs i) = MCS_VNODE_FILE"
    using fs_invD(11) [OF assms(1) i] .
qed

lemma lookup_once:
  assumes inv: "fs_inv fs"
  shows "mcs_ramfs_lookup fs path =
    (if char_at path 0 \<noteq> slash then Inl MCS_EINVAL
     else if mcs_strlen path \<ge> MCS_MAX_PATH then Inl MCS_ENAMETOOLONG
     else if char_at path 1 = 0 then Inr 0
     else if leaf_len path = 0 \<or> leaf_len path \<ge> 32 then Inl MCS_EINVAL
     else case find (has_name fs path) [0..<nodes_used fs] of
       None \<Rightarrow> Inl MCS_ENOENT
     | Some i \<Rightarrow> if path_end path then Inr i else Inl MCS_ENOTDIR)"
proof (cases "char_at path 1 = 0 \<or> leaf_len path = 0 \<or> leaf_len path \<ge> 32")
  case True
  then show ?thesis
    unfolding mcs_ramfs_lookup_def lookup_first by (auto simp: MCS_MAX_NAME_def)
next
  case False
  then have "mcs_lookup_loop fs path 0 1 = (case find (has_name fs path) [0..<nodes_used fs] of
       None \<Rightarrow> Inl MCS_ENOENT
     | Some i \<Rightarrow> if path_end path then Inr i else Inl MCS_ENOTDIR)"
    using find_child_root [OF inv, of path] fs_invD(9) [OF inv] named_file(3) [OF inv, of path]
    unfolding lookup_first by (auto simp: MCS_MAX_NAME_def split: option.splits)
  then show ?thesis
    using False by (simp add: mcs_ramfs_lookup_def)
qed

lemma split_once:
  assumes inv: "fs_inv fs" and "mcs_split_parent_leaf fs path = Inr (par, leaf, len)"
  shows "par = 0 \<and> leaf = 1 \<and> len = leaf_len path \<and> 0 < leaf_len path \<and> leaf_len path < 32 \<and> path_end path \<and>
    char_at path 0 = slash \<and> char_at path 1 \<noteq> 0 \<and> mcs_strlen path < MCS_MAX_PATH"
proof -
  have loop: "mcs_split_loop fs path 0 1 = Inr (par, leaf, len)" and pre: "char_at path 0 = slash" "char_at path 1 \<noteq> 0"
    "mcs_strlen path < MCS_MAX_PATH"
    using assms(2) by (auto simp: mcs_split_parent_leaf_def split: if_splits)
  have len: "0 < leaf_len path" "leaf_len path < 32"
    using loop unfolding split_first by (auto simp: MCS_MAX_NAME_def split: if_splits)
  have "path_end path"
  proof (rule ccontr)
    assume "\<not> path_end path"
    then have "\<exists>e. mcs_split_loop fs path 0 1 = Inl e"
      using find_child_root [OF inv len] fs_invD(9) [OF inv] named_file(3) [OF inv, of path] len
      unfolding split_first by (auto simp: MCS_MAX_NAME_def split: option.splits)
    then show False
      using loop by auto
  qed
  then show ?thesis
    using loop len pre unfolding split_first by (auto simp: MCS_MAX_NAME_def)
qed

section \<open>Creating files\<close>

text \<open>The file system with one more file.\<close>

definition new_node :: "mcs_ramfs \<Rightarrow> bytes \<Rightarrow> mcs_vnode" where
  "new_node fs path = (node_at fs (nodes_used fs))\<lparr>vn_used := True, vn_id := ucast (fs_node_count fs), vn_parent := 0,
     vn_type := MCS_VNODE_FILE, vn_name := mcs_copy_name (vn_name (node_at fs (nodes_used fs))) (drop 1 path) (leaf_len path),
     vn_size := 0, vn_data_offset := fs_data_used fs, vn_data_capacity := 256\<rparr>"

definition with_node :: "mcs_ramfs \<Rightarrow> bytes \<Rightarrow> mcs_ramfs" where
  "with_node fs path = fs\<lparr>fs_nodes := (fs_nodes fs)[nodes_used fs := new_node fs path],
     fs_data_used := fs_data_used fs + 256, fs_node_count := fs_node_count fs + 1\<rparr>"

lemma create_cases:
  assumes inv: "fs_inv fs" and c: "mcs_ramfs_create_file fs path = (r, fs')"
  obtains (error) e where "r = Inl e" "fs' = fs"
  | (exists) i where "r = Inr i" "fs' = fs" "mcs_ramfs_lookup fs path = Inr i" "0 < i" "i < nodes_used fs"
  | (create) "r = Inr (nodes_used fs)" "fs' = with_node fs path" "nodes_used fs < 64" "unat (fs_data_used fs) + 256 \<le> 8192"
      "0 < leaf_len path" "leaf_len path < 32" "path_end path" "char_at path 0 = slash" "char_at path 1 \<noteq> 0"
      "mcs_strlen path < MCS_MAX_PATH" "find (has_name fs path) [0..<nodes_used fs] = None"
proof (cases "mcs_ramfs_lookup fs path")
  case (Inr i)
  have "0 < i \<and> i < nodes_used fs" if "vn_type (node_at fs i) = MCS_VNODE_FILE"
    using Inr that lookup_once [OF inv, of path] fs_invD(7) [OF inv] named_file [OF inv, of path]
    by (auto split: if_splits option.splits)
  moreover have "vn_type (node_at fs i) \<noteq> MCS_VNODE_FILE \<Longrightarrow> r = Inl MCS_EISDIR \<and> fs' = fs"
    "vn_type (node_at fs i) = MCS_VNODE_FILE \<Longrightarrow> r = Inr i \<and> fs' = fs"
    using c Inr by (auto simp: mcs_ramfs_create_file_def)
  ultimately show thesis
    using Inr error exists by blast
next
  case (Inl e)
  show thesis
  proof (cases "mcs_split_parent_leaf fs path")
    case (Inl e')
    then have "r = Inl e'" "fs' = fs"
      using c \<open>mcs_ramfs_lookup fs path = Inl e\<close> by (simp_all add: mcs_ramfs_create_file_def)
    then show ?thesis
      by (rule error)
  next
    case (Inr q)
    obtain par leaf len where q: "q = (par, leaf, len)"
      by (cases q)
    note sp = split_once [OF inv Inr [unfolded q]]
    have none: "find (has_name fs path) [0..<nodes_used fs] = None"
      using \<open>mcs_ramfs_lookup fs path = Inl e\<close> lookup_once [OF inv, of path] sp
      by (cases "find (has_name fs path) [0..<nodes_used fs]") auto
    have run: "(r, fs') = mcs_alloc_node fs 0 MCS_VNODE_FILE (drop 1 path) (leaf_len path) 256"
      using c \<open>mcs_ramfs_lookup fs path = Inl e\<close> Inr q sp fs_invD(7,9) [OF inv] by (simp add: mcs_ramfs_create_file_def)
    have sum: "unat (fs_data_used fs + 256) = unat (fs_data_used fs) + 256"
      using fs_invD(5) [OF inv] by (subst unat_add_nowrap) simp_all
    show ?thesis
    proof (cases "nodes_used fs < 64 \<and> unat (fs_data_used fs) + 256 \<le> 8192")
      case True
      then have "r = Inr (nodes_used fs)" "fs' = with_node fs path"
        using run sp sum by (simp_all add: mcs_alloc_node_def MCS_MAX_NAME_def MCS_MAX_NODES_def MCS_RAMFS_DATA_BYTES_def
            Let_def with_node_def new_node_def)
      then show ?thesis
        using True sp none by (intro create) auto
    next
      case False
      then have "r = Inl MCS_ENOSPC" "fs' = fs"
        using run sp sum by (auto simp: mcs_alloc_node_def MCS_MAX_NAME_def MCS_MAX_NODES_def MCS_RAMFS_DATA_BYTES_def
            Let_def split: if_splits)
      then show ?thesis
        using error by blast
    qed
  qed
qed

lemma with_node_facts:
  assumes inv: "fs_inv fs" and room: "nodes_used fs < 64" "unat (fs_data_used fs) + 256 \<le> 8192"
  shows "nodes_used (with_node fs path) = nodes_used fs + 1"
    "unat (fs_data_used (with_node fs path)) = unat (fs_data_used fs) + 256"
    "node_at (with_node fs path) (nodes_used fs) = new_node fs path"
    "i \<noteq> nodes_used fs \<Longrightarrow> node_at (with_node fs path) i = node_at fs i"
    "fs_data (with_node fs path) = fs_data fs"
proof -
  show "nodes_used (with_node fs path) = nodes_used fs + 1"
    using room(1) by (simp add: with_node_def) (subst unat_add_nowrap; simp)
  show "unat (fs_data_used (with_node fs path)) = unat (fs_data_used fs) + 256"
    using room(2) by (simp add: with_node_def) (subst unat_add_nowrap; simp)
qed (use room fs_invD(1) [OF inv] in \<open>simp_all add: with_node_def\<close>)

lemma with_node_inv:
  assumes inv: "fs_inv fs" and room: "nodes_used fs < 64" "unat (fs_data_used fs) + 256 \<le> 8192"
  shows "fs_inv (with_node fs path)"
proof -
  let ?fs = "with_node fs path" and ?k = "nodes_used fs"
  note f = fs_invD [OF inv] and w = with_node_facts [OF inv room, where path = path]
  have ext: "extent_ok ?fs n" if "extent_ok fs n" for n
    using that w(2) by (simp add: extent_ok_def)
  have new: "extent_ok ?fs (new_node fs path)"
    using w(2) by (simp add: extent_ok_def new_node_def)
  have ap: "extents_apart (node_at fs i) (new_node fs path)" if "0 < i" "i < ?k" for i
    using f(13) [OF that] by (simp add: extents_apart_def extent_ok_def new_node_def)
  have "length (vn_name n) = 32" if "n \<in> set (fs_nodes ?fs)" for n
  proof -
    have "n \<in> insert (new_node fs path) (set (fs_nodes fs))"
      using that set_update_subset_insert by (fastforce simp: with_node_def)
    then show ?thesis
      using inv f(6) [of ?k] room by (auto simp: fs_inv_def new_node_def)
  qed
  moreover have "vn_used (node_at ?fs i) \<and> vn_type (node_at ?fs i) = MCS_VNODE_FILE \<and> vn_parent (node_at ?fs i) = 0 \<and>
      extent_ok ?fs (node_at ?fs i)" if "0 < i" "i < ?k + 1" for i
    using that f(10-13) [of i] ext new w(3) w(4) [of i] by (cases "i = ?k") (auto simp: new_node_def)
  moreover have "extents_apart (node_at ?fs i) (node_at ?fs j)" if "0 < i" "i < j" "j < ?k + 1" for i j
    using that f(14) [of i j] ap [of i] w(3) w(4) [of j] w(4) [of i] by (cases "j = ?k") auto
  moreover have "length (fs_nodes ?fs) = 64" "node_at ?fs 0 = node_at fs 0"
    using f(1,3) w(4) [of 0] by (auto simp: with_node_def)
  ultimately show ?thesis
    using f(2-5,7-9) w(1,2,5) room unfolding fs_inv_def by simp
qed

lemma with_node_named:
  assumes inv: "fs_inv fs" and room: "nodes_used fs < 64" "unat (fs_data_used fs) + 256 \<le> 8192"
    and len: "leaf_len path < 32" "0 < leaf_len p" "leaf_len p < 32"
  shows "find (has_name (with_node fs path) p) [0..<nodes_used (with_node fs path)] =
    (case find (has_name fs p) [0..<nodes_used fs] of Some i \<Rightarrow> Some i
     | None \<Rightarrow> if leaf_name p = leaf_name path then Some (nodes_used fs) else None)"
proof -
  let ?fs = "with_node fs path" and ?k = "nodes_used fs"
  note w = with_node_facts [OF inv room, where path = path]
  have new: "has_name ?fs p ?k \<longleftrightarrow> leaf_name p = leaf_name path"
    using copy_name_matches [OF fs_invD(6) [OF inv room(1)] len(1,3,2)] w(3) fs_invD(3) [OF inv]
    by (simp add: has_name_def new_node_def)
  have old: "find (has_name ?fs p) [0..<?k] = find (has_name fs p) [0..<?k]"
    using w(4) by (intro find_cong refl) (simp add: has_name_def)
  have "find P (xs @ [y]) = (case find P xs of Some i \<Rightarrow> Some i | None \<Rightarrow> if P y then Some y else None)"
    for P :: "nat \<Rightarrow> bool" and xs y
    by (induction xs) auto
  then show ?thesis
    using old new w(1) by (simp split: option.split)
qed

text \<open>
  Property C40. \<^verbatim>\<open>mcs_ramfs_create_file\<close> keeps the file system well formed. When it returns a node, the
  path leads to that node from then on, and the node is a file. Every path that led to a node leads to
  the same node, a node that was there keeps its contents, and another path leads to the new node only if
  it has the same name.
\<close>

theorem ramfs_create_lookup:
  assumes inv: "fs_inv fs" and c: "mcs_ramfs_create_file fs path = (r, fs')"
  shows "fs_inv fs' \<and> fs_data fs' = fs_data fs \<and>
    (\<forall>p j. mcs_ramfs_lookup fs p = Inr j \<longrightarrow> mcs_ramfs_lookup fs' p = Inr j \<and> node_at fs' j = node_at fs j) \<and>
    (case r of Inl _ \<Rightarrow> fs' = fs
     | Inr i \<Rightarrow> mcs_ramfs_lookup fs' path = Inr i \<and> vn_type (node_at fs' i) = MCS_VNODE_FILE \<and>
         (\<forall>p. mcs_ramfs_lookup fs' p = Inr i \<longrightarrow> mcs_ramfs_lookup fs p = Inr i \<or> leaf_name p = leaf_name path))"
  using inv c
proof (cases rule: create_cases)
  case (error e)
  then show ?thesis
    using inv by simp
next
  case (exists i)
  then show ?thesis
    using inv fs_invD(11) [OF inv] by simp
next
  case create
  let ?fs = "with_node fs path" and ?k = "nodes_used fs"
  have inv': "fs_inv ?fs"
    using with_node_inv [OF inv create(3,4)] .
  note w = with_node_facts [OF inv create(3,4), where path = path]
  note nm = with_node_named [OF inv create(3,4,6)]
  have old: "mcs_ramfs_lookup ?fs p = Inr j \<and> node_at ?fs j = node_at fs j" if l: "mcs_ramfs_lookup fs p = Inr j" for p j
  proof -
    have "j < ?k"
      using l lookup_once [OF inv, of p] named_file [OF inv, of p] fs_invD(3) [OF inv]
      by (auto split: if_splits option.splits)
    then show ?thesis
      using l lookup_once [OF inv, of p] lookup_once [OF inv', of p] nm [of p] w(4) [of j]
      by (auto split: if_splits option.splits)
  qed
  have "mcs_ramfs_lookup ?fs path = Inr ?k"
    using lookup_once [OF inv', of path] nm [OF create(5,6)] create(5-11) by simp
  moreover have "mcs_ramfs_lookup fs p = Inr ?k \<or> leaf_name p = leaf_name path" if "mcs_ramfs_lookup ?fs p = Inr ?k" for p
    using that lookup_once [OF inv, of p] lookup_once [OF inv', of p] nm [of p] fs_invD(3) [OF inv]
    by (auto split: if_splits option.splits)
  moreover have "vn_type (node_at ?fs ?k) = MCS_VNODE_FILE"
    using w(3) by (simp add: new_node_def)
  ultimately show ?thesis
    using inv' old w(5) create(1,2) by auto
qed

section \<open>Descriptors\<close>

text \<open>An open descriptor refers to a node of one of the file systems at the addresses \<open>A\<close>.\<close>

definition file_ok :: "u64 set \<Rightarrow> (u64 \<Rightarrow> mcs_ramfs) \<Rightarrow> mcs_file \<Rightarrow> bool" where
  "file_ok A fss f \<longleftrightarrow> (f_used f \<longrightarrow> (\<exists>a i. f_node f = Some (a, i) \<and> f_fs f = a \<and> a \<in> A \<and> i < nodes_used (fss a)))"

definition vfs_inv :: "u64 set \<Rightarrow> vfs \<Rightarrow> bool" where
  "vfs_inv A v \<longleftrightarrow> 0 \<notin> A \<and> (\<forall>a\<in>A. fs_inv (v_fs v a)) \<and>
     (\<forall>t. v_table v = Some t \<longrightarrow> length t = 16 \<and> (\<forall>f\<in>set t. file_ok A (v_fs v) f))"

lemma vfs_invD:
  assumes "vfs_inv A v"
  shows "0 \<notin> A" "a \<in> A \<Longrightarrow> fs_inv (v_fs v a)" "v_table v = Some t \<Longrightarrow> length t = 16"
    "v_table v = Some t \<Longrightarrow> f \<in> set t \<Longrightarrow> file_ok A (v_fs v) f"
  using assms by (auto simp: vfs_inv_def)

lemma fd_get_Some:
  assumes "vfs_inv A v" and "mcs_fd_get (v_table v) fd = Some f"
  obtains t a i where "v_table v = Some t" "nat fd < 16" "t ! nat fd = f" "f_used f" "f_node f = Some (a, i)" "f_fs f = a"
    "a \<in> A" "a \<noteq> 0" "i < nodes_used (v_fs v a)" "0 \<le> fd"
proof -
  obtain t where t: "v_table v = Some t" "0 \<le> fd" "nat fd < 16" "f = t ! nat fd" "f_used f"
    using assms(2) by (auto simp: mcs_fd_get_def MCS_MAX_OPEN_FILES_def split: option.splits if_splits)
  then have "f \<in> set t"
    using vfs_invD(3) [OF assms(1) t(1)] by simp
  then have "file_ok A (v_fs v) f"
    using vfs_invD(4) [OF assms(1) t(1)] by blast
  then obtain a i where n: "f_node f = Some (a, i)" "f_fs f = a" "a \<in> A" "i < nodes_used (v_fs v a)"
    using t(5) unfolding file_ok_def by blast
  have "a \<noteq> 0"
    using n(3) vfs_invD(1) [OF assms(1)] by metis
  show thesis
    by (rule that [OF t(1,3) t(4) [symmetric] t(5) n(1-3) \<open>a \<noteq> 0\<close> n(4) t(2)])
qed

lemma upd_file_set: "f \<in> set (upd_file i g t) \<Longrightarrow> f \<in> set t \<or> i < length t \<and> f = g (t ! i)"
  using set_update_subset_insert [of t i "g (t ! i)"] by (cases "i < length t") (auto simp: upd_file_def list_update_beyond not_less)

lemma length_upd_file [simp]: "length (upd_file i g t) = length t"
  by (simp add: upd_file_def)

lemma upd_file_nth [simp]: "i < length t \<Longrightarrow> upd_file i g t ! j = (if j = i then g (t ! i) else t ! j)"
  by (simp add: upd_file_def nth_list_update)

lemma upd_file_upd: "i < length t \<Longrightarrow> upd_file i g (upd_file i h t) = upd_file i (\<lambda>f. g (h f)) t"
  by (simp add: upd_file_def)

text \<open>Changing only offsets and flags of open files keeps the invariant.\<close>

lemma vfs_inv_table:
  assumes inv: "vfs_inv A v" and t: "v_table v = Some t" and ok: "i < 16 \<Longrightarrow> file_ok A (v_fs v) (g (t ! i))"
  shows "vfs_inv A (v\<lparr>v_table := Some (upd_file i g t)\<rparr>)"
  using inv t ok upd_file_set [of _ i g t] vfs_invD(3,4) [OF inv t] unfolding vfs_inv_def by fastforce

lemma vfs_inv_fs:
  assumes inv: "vfs_inv A v" and "fs_inv fs" and "a \<in> A" and "nodes_used (v_fs v a) \<le> nodes_used fs"
  shows "vfs_inv A (v\<lparr>v_fs := (v_fs v)(a := fs)\<rparr>)"
proof -
  have "file_ok A ((v_fs v)(a := fs)) f" if "file_ok A (v_fs v) f" for f
    using that assms(4) by (fastforce simp: file_ok_def)
  then show ?thesis
    using inv assms(2) by (auto simp: vfs_inv_def)
qed

lemma set_node_size_inv:
  assumes inv: "fs_inv fs" and i: "0 < i" "i < nodes_used fs" and sz: "sz \<le> vn_data_capacity (node_at fs i)"
  shows "fs_inv (set_node_size i sz fs)"
proof -
  let ?n = "(node_at fs i)\<lparr>vn_size := sz\<rparr>"
  have len: "i < length (fs_nodes fs)"
    using fs_invD(1,4) [OF inv] i by simp
  have nth: "node_at (set_node_size i sz fs) j = (if j = i then ?n else node_at fs j)" for j
    using len by (simp add: set_node_size_def nth_list_update)
  have "length (vn_name n) = 32" if "n \<in> set (fs_nodes (set_node_size i sz fs))" for n
  proof -
    have "n = ?n \<or> n \<in> set (fs_nodes fs)"
      using that set_update_subset_insert by (fastforce simp: set_node_size_def)
    then show ?thesis
      using inv fs_invD(6) [OF inv, of i] len fs_invD(1) [OF inv] by (auto simp: fs_inv_def)
  qed
  moreover have "extent_ok (set_node_size i sz fs) m = extent_ok fs m" for m
    by (simp add: extent_ok_def set_node_size_def)
  moreover have "extent_ok fs ?n"
    using fs_invD(13) [OF inv i] sz by (simp add: extent_ok_def)
  moreover have "extents_apart ?n m = extents_apart (node_at fs i) m" "extents_apart m ?n = extents_apart m (node_at fs i)" for m
    by (simp_all add: extents_apart_def)
  moreover have "fs_node_count (set_node_size i sz fs) = fs_node_count fs" "fs_data (set_node_size i sz fs) = fs_data fs"
    "fs_data_used (set_node_size i sz fs) = fs_data_used fs" "length (fs_nodes (set_node_size i sz fs)) = length (fs_nodes fs)"
    by (simp_all add: set_node_size_def)
  ultimately show ?thesis
    using inv i unfolding fs_inv_def by (simp add: nth)
qed

lemma fs_data_inv: "fs_inv fs \<Longrightarrow> length d = 8192 \<Longrightarrow> fs_inv (fs\<lparr>fs_data := d\<rparr>)"
  by (simp add: fs_inv_def extent_ok_def)

section \<open>Contents\<close>

text \<open>The bytes that a file owns and the bytes that it contains.\<close>

definition file_region :: "mcs_ramfs \<Rightarrow> nat \<Rightarrow> bytes" where
  "file_region fs i = slice (unat (vn_data_offset (node_at fs i))) (unat (vn_data_capacity (node_at fs i))) (fs_data fs)"

definition file_bytes :: "mcs_ramfs \<Rightarrow> nat \<Rightarrow> bytes" where
  "file_bytes fs i = take (unat (vn_size (node_at fs i))) (file_region fs i)"

lemma extent_bounds:
  assumes "fs_inv fs" and "0 < i" and "i < nodes_used fs"
  shows "unat (vn_data_offset (node_at fs i)) + unat (vn_data_capacity (node_at fs i)) \<le> 8192"
    "unat (vn_size (node_at fs i)) \<le> unat (vn_data_capacity (node_at fs i))"
  using fs_invD(5) [OF assms(1)] fs_invD(13) [OF assms] by (simp_all add: extent_ok_def word_le_nat_alt)

lemma data_address:
  assumes "fs_inv fs" and "0 < i" and "i < nodes_used fs" and "unat off \<le> unat (vn_data_capacity (node_at fs i))"
  shows "unat (vn_data_offset (node_at fs i) + off) = unat (vn_data_offset (node_at fs i)) + unat off"
  using extent_bounds(1) [OF assms(1-3)] assms(4) by (subst unat_add_nowrap) simp_all

text \<open>The file system after \<open>n\<close> bytes of \<open>b\<close> have been written to a file at \<open>off\<close>.\<close>

definition written :: "mcs_ramfs \<Rightarrow> nat \<Rightarrow> u64 \<Rightarrow> bytes \<Rightarrow> u64 \<Rightarrow> mcs_ramfs" where
  "written fs i off b n =
    (let fs = fs\<lparr>fs_data := copy_loop (fs_data fs) (unat (vn_data_offset (node_at fs i)) + unat off) b 0 (unat n)\<rparr> in
     if off + n > vn_size (node_at fs i) then set_node_size i (off + n) fs else fs)"

lemma written_facts:
  assumes inv: "fs_inv fs" and i: "0 < i" "i < nodes_used fs"
    and fit: "unat off + unat n \<le> unat (vn_data_capacity (node_at fs i))" and b: "unat n \<le> length b"
  shows "fs_inv (written fs i off b n)" "nodes_used (written fs i off b n) = nodes_used fs"
    "file_region (written fs i off b n) i = copy_loop (file_region fs i) (unat off) b 0 (unat n)"
    "unat (vn_size (node_at (written fs i off b n) i)) = max (unat (vn_size (node_at fs i))) (unat off + unat n)"
    "vn_type (node_at (written fs i off b n) i) = vn_type (node_at fs i)"
    "vn_data_offset (node_at (written fs i off b n) i) = vn_data_offset (node_at fs i)"
    "vn_data_capacity (node_at (written fs i off b n) i) = vn_data_capacity (node_at fs i)"
    "0 < j \<Longrightarrow> j < nodes_used fs \<Longrightarrow> j \<noteq> i \<Longrightarrow> file_bytes (written fs i off b n) j = file_bytes fs j"
proof -
  let ?d = "copy_loop (fs_data fs) (unat (vn_data_offset (node_at fs i)) + unat off) b 0 (unat n)"
  let ?fs = "written fs i off b n" and ?doff = "unat (vn_data_offset (node_at fs i))"
  note bnd = extent_bounds [OF inv i]
  have len: "i < length (fs_nodes fs)" "length (fs_data fs) = 8192"
    using fs_invD(1,2,4) [OF inv] i by simp_all
  have sum: "unat (off + n) = unat off + unat n"
    using fit bnd by (subst unat_add_nowrap) simp_all
  have inv1: "fs_inv (fs\<lparr>fs_data := ?d\<rparr>)"
    using inv len by (intro fs_data_inv) simp_all
  have "fs_inv (set_node_size i (off + n) (fs\<lparr>fs_data := ?d\<rparr>))"
    using set_node_size_inv [OF inv1, of i "off + n"] i fit sum by (simp add: word_le_nat_alt)
  then show "fs_inv ?fs"
    using inv1 by (simp add: written_def Let_def)
  show "nodes_used ?fs = nodes_used fs"
    by (simp add: written_def Let_def set_node_size_def)
  have data: "fs_data ?fs = ?d"
    by (simp add: written_def Let_def set_node_size_def)
  have node: "node_at ?fs j = (if j = i \<and> off + n > vn_size (node_at fs i) then (node_at fs i)\<lparr>vn_size := off + n\<rparr> else node_at fs j)" for j
    using len by (simp add: written_def Let_def set_node_size_def nth_list_update)
  show "unat (vn_size (node_at ?fs i)) = max (unat (vn_size (node_at fs i))) (unat off + unat n)"
    using sum by (auto simp: node word_less_nat_alt)
  show "vn_type (node_at ?fs i) = vn_type (node_at fs i)" "vn_data_offset (node_at ?fs i) = vn_data_offset (node_at fs i)"
    "vn_data_capacity (node_at ?fs i) = vn_data_capacity (node_at fs i)"
    by (simp_all add: node)
  have "slice ?doff (unat (vn_data_capacity (node_at fs i))) ?d =
      copy_loop (slice ?doff (unat (vn_data_capacity (node_at fs i))) (fs_data fs)) (unat off) b 0 (unat n)"
    by (rule nth_equalityI) (use bnd fit b len in \<open>auto simp: nth_slice nth_copy_loop\<close>)
  then show "file_region ?fs i = copy_loop (file_region fs i) (unat off) b 0 (unat n)"
    by (simp add: file_region_def data node)
  show "file_bytes ?fs j = file_bytes fs j" if "0 < j" "j < nodes_used fs" "j \<noteq> i"
  proof -
    have "slice (unat (vn_data_offset (node_at fs j))) (unat (vn_data_capacity (node_at fs j))) ?d =
        slice (unat (vn_data_offset (node_at fs j))) (unat (vn_data_capacity (node_at fs j))) (fs_data fs)"
    proof (rule slice_copy_other)
      show "unat (vn_data_offset (node_at fs j)) + unat (vn_data_capacity (node_at fs j)) \<le> ?doff + unat off \<or>
          ?doff + unat off + unat n \<le> unat (vn_data_offset (node_at fs j))"
        using fs_invD(14) [OF inv that(1) i(1) that(2) i(2) that(3)] fit by (auto simp: extents_apart_def)
    qed (use bnd fit b len extent_bounds(1) [OF inv that(1,2)] in auto)
    then show ?thesis
      using that(3) by (simp add: file_bytes_def file_region_def data node)
  qed
qed

section \<open>Reading and writing\<close>

lemma sint_low_half:
  assumes "unat (k :: u64) < 2 ^ 31"
  shows "sint (ucast k :: u32) = int (unat k)"
proof -
  have "unat (ucast k :: u32) = unat k"
    using assms by (simp add: unsigned_ucast_eq take_bit_nat_eq_self)
  then show ?thesis
    using sint_small_gen [of "ucast k :: u32"] assms by simp
qed

definition write_offset :: "mcs_file \<Rightarrow> mcs_vnode \<Rightarrow> u64" where
  "write_offset f n = (if f_flags f AND MCS_O_APPEND \<noteq> 0 then vn_size n else f_offset f)"

lemma is_file: "fs_inv fs \<Longrightarrow> i < nodes_used fs \<Longrightarrow> vn_type (node_at fs i) = MCS_VNODE_FILE \<longleftrightarrow> 0 < i"
  using fs_invD(7,11) by (metis mcs_vnode_type.distinct(1) neq0_conv)

text \<open>The new state of a write, and its result on every path behind the checks of the descriptor.\<close>

lemma write_run:
  assumes inv: "vfs_inv A v" and get: "mcs_fd_get (v_table v) fd = Some f" and t: "v_table v = Some t"
    and w: "mcs_can_write (f_flags f)" and n: "f_node f = Some (a, i)" and i: "0 < i" and b: "unat len \<le> length b"
  defines "off \<equiv> write_offset f (node_at (v_fs v a) i)" and "cap \<equiv> vn_data_capacity (node_at (v_fs v a) i)"
  shows "mcs_vfs_write fd (Some b) len v =
    (if unat off + unat len \<le> unat cap
     then (int (unat len), v\<lparr>v_fs := (v_fs v)(a := written (v_fs v a) i off b len),
             v_table := Some (upd_file (nat fd) (\<lambda>f. f\<lparr>f_offset := off + len\<rparr>) t)\<rparr>)
     else (if unat off > unat cap then MCS_EINVAL else MCS_ENOSPC,
           v\<lparr>v_table := Some (upd_file (nat fd) (\<lambda>f. f\<lparr>f_offset := off\<rparr>) t)\<rparr>))"
proof -
  obtain f_fs: "f_fs f = a" and a: "a \<in> A" "a \<noteq> 0" "i < nodes_used (v_fs v a)" and fd: "nat fd < 16" and tn: "t ! nat fd = f"
    using fd_get_Some [OF inv get] n t by (metis option.inject prod.inject)
  have fsi: "fs_inv (v_fs v a)"
    using vfs_invD(2) [OF inv a(1)] .
  note bnd = extent_bounds [OF fsi i a(3)]
  have type: "vn_type (node_at (v_fs v a) i) \<noteq> MCS_VNODE_DIR"
    using is_file [OF fsi a(3)] i by auto
  have len: "nat fd < length t"
    using vfs_invD(3) [OF inv t] fd by simp
  show ?thesis
  proof (cases "unat off > unat cap")
    case True
    then show ?thesis
      using get w n type f_fs a t
      by (simp add: mcs_vfs_write_def Let_def off_def cap_def write_offset_def word_less_nat_alt)
  next
    case False
    then have diff: "unat (cap - off) = unat cap - unat off"
      by (simp add: unat_sub_if_size)
    have addr: "unat (vn_data_offset (node_at (v_fs v a) i) + off) = unat (vn_data_offset (node_at (v_fs v a) i)) + unat off"
      using data_address [OF fsi i a(3), of off] False by (simp add: cap_def)
    show ?thesis
    proof (cases "unat off + unat len \<le> unat cap")
      case True
      then have k: "mcs_min_size len (cap - off) = len"
        using diff False by (auto simp: mcs_min_size_def word_less_nat_alt word_unat_eq_iff)
      have "unat len < 2 ^ 63"
        using True bnd by (simp add: cap_def)
      then show ?thesis
        using get w n type f_fs a t True False k addr len sint_small [of len]
        by (simp add: mcs_vfs_write_def Let_def off_def [symmetric] cap_def [symmetric] write_offset_def [symmetric]
            word_less_nat_alt upd_file_upd written_def mcs_copy_from_user_def)
    next
      case nofit: False
      then have k: "mcs_min_size len (cap - off) < len"
        using diff False by (auto simp: mcs_min_size_def word_less_nat_alt)
      then show ?thesis
        using get w n type f_fs a t False nofit
        by (simp add: mcs_vfs_write_def Let_def off_def [symmetric] cap_def [symmetric] write_offset_def [symmetric]
            word_less_nat_alt)
    qed
  qed
qed

lemma read_run:
  assumes inv: "vfs_inv A v" and get: "mcs_fd_get (v_table v) fd = Some f" and t: "v_table v = Some t"
    and r: "mcs_can_read (f_flags f)" and n: "f_node f = Some (a, i)" and i: "0 < i" and b: "unat len \<le> length b"
  defines "k \<equiv> min (unat len) (unat (vn_size (node_at (v_fs v a) i)) - unat (f_offset f))"
  shows "mcs_vfs_read fd (Some b) len v =
    (int k, Some (take k (drop (unat (f_offset f)) (file_bytes (v_fs v a) i)) @ drop k b),
     if k = 0 \<and> f_offset f \<ge> vn_size (node_at (v_fs v a) i) then v
     else v\<lparr>v_table := Some (upd_file (nat fd) (\<lambda>g. g\<lparr>f_offset := f_offset g + of_nat k\<rparr>) t)\<rparr>)"
proof -
  obtain f_fs: "f_fs f = a" and a: "a \<in> A" "a \<noteq> 0" "i < nodes_used (v_fs v a)"
    using fd_get_Some [OF inv get] n t by (metis option.inject prod.inject)
  have fsi: "fs_inv (v_fs v a)"
    using vfs_invD(2) [OF inv a(1)] .
  let ?n = "node_at (v_fs v a) i"
  note bnd = extent_bounds [OF fsi i a(3)]
  have type: "vn_type ?n \<noteq> MCS_VNODE_DIR"
    using is_file [OF fsi a(3)] i by auto
  show ?thesis
  proof (cases "f_offset f \<ge> vn_size ?n")
    case True
    then have "k = 0"
      by (simp add: k_def word_le_nat_alt)
    then show ?thesis
      using True get r n type f_fs a by (simp add: mcs_vfs_read_def Let_def)
  next
    case False
    then have lt: "unat (f_offset f) < unat (vn_size ?n)"
      by (simp add: word_le_nat_alt)
    then have rem: "unat (vn_size ?n - f_offset f) = unat (vn_size ?n) - unat (f_offset f)"
      by (simp add: unat_sub_if_size)
    then have mk: "unat (mcs_min_size len (vn_size ?n - f_offset f)) = k"
      by (auto simp: mcs_min_size_def k_def word_less_nat_alt)
    have mk': "mcs_min_size len (vn_size ?n - f_offset f) = of_nat k"
      by (simp add: mk [symmetric])
    have kb: "k \<le> length b" "k < 2 ^ 63" "unat (f_offset f) + k \<le> unat (vn_size ?n)"
      using b bnd lt by (auto simp: k_def)
    have addr: "unat (vn_data_offset ?n + f_offset f) = unat (vn_data_offset ?n) + unat (f_offset f)"
      using data_address [OF fsi i a(3), of "f_offset f"] lt bnd by simp
    have "mcs_copy_to_user b (fs_data (v_fs v a)) (unat (vn_data_offset ?n + f_offset f)) k =
        take k (drop (unat (f_offset f)) (file_bytes (v_fs v a) i)) @ drop k b"
      using kb bnd fs_invD(2) [OF fsi] unfolding mcs_copy_to_user_def addr
      by (simp add: copy_loop_eq file_bytes_def file_region_def slice_def drop_take add.commute)
    moreover have "sint (of_nat k :: u64) = int k"
      using kb(2) sint_small [of "of_nat k"] by (simp add: unat_of_nat_small)
    ultimately show ?thesis
      using False get r n type f_fs a t mk mk' by (simp add: mcs_vfs_read_def Let_def)
  qed
qed

section \<open>Every call keeps the invariant\<close>

lemma fd_alloc_cases:
  assumes "mcs_fd_alloc t = (fd, t')"
  obtains (full) "fd = MCS_ENFILE" "t' = t"
  | (slot) "0 \<le> fd" "nat fd < 16" "t' = upd_file (nat fd) (\<lambda>f. f\<lparr>f_used := True\<rparr>) t" "\<not> f_used (t ! nat fd)"
  using assms by (auto simp: mcs_fd_alloc_def find_upt_Some MCS_MAX_OPEN_FILES_def split: option.splits)

lemma ENFILE_neg: "MCS_ENFILE < 0"
  by (simp add: MCS_ENFILE_def)

lemma open_node_inv:
  assumes inv: "vfs_inv A v" and t: "v_table v = Some t" and a: "a \<in> A" "i < nodes_used (v_fs v a)"
    and run: "mcs_open_node t a i flags v = (r, v')"
  shows "vfs_inv A v'"
proof (cases "vn_type (node_at (v_fs v a) i) = MCS_VNODE_DIR \<and> mcs_can_write flags")
  case True
  then show ?thesis
    using run inv by (simp add: mcs_open_node_def Let_def)
next
  case False
  obtain fd t1 where al: "mcs_fd_alloc t = (fd, t1)"
    by fastforce
  from al show ?thesis
  proof (cases rule: fd_alloc_cases)
    case full
    then have "v' = v\<lparr>v_table := Some t\<rparr>"
      using run al False ENFILE_neg by (auto simp: mcs_open_node_def Let_def)
    then show ?thesis
      using inv t by (simp add: vfs_inv_def)
  next
    case slot
    define g where "g = (\<lambda>f. f\<lparr>f_used := True, f_flags := flags, f_node := Some (a, i), f_fs := a,
      f_offset := (if flags AND MCS_O_APPEND \<noteq> 0 then vn_size (node_at (v_fs v a) i) else 0)\<rparr> :: mcs_file)"
    have t2: "upd_file (nat fd) (\<lambda>f. f\<lparr>f_flags := flags, f_node := Some (a, i), f_fs := a,
        f_offset := (if flags AND MCS_O_APPEND \<noteq> 0 then vn_size (node_at (v_fs v a) i) else 0)\<rparr>) t1 = upd_file (nat fd) g t"
      using slot vfs_invD(3) [OF inv t] by (simp add: upd_file_upd g_def)
    have ok: "file_ok A (v_fs v) (g f)" "file_ok A (v_fs v) (g f\<lparr>f_offset := 0\<rparr>)" for f
      using a by (auto simp: file_ok_def g_def)
    have len: "nat fd < length t"
      using slot vfs_invD(3) [OF inv t] by simp
    show ?thesis
    proof (cases "flags AND MCS_O_TRUNC \<noteq> 0")
      case trunc: True
      show ?thesis
      proof (cases "mcs_can_write flags")
        case w: True
        have i: "0 < i"
          using False w is_file [OF vfs_invD(2) [OF inv a(1)] a(2)] by (cases "vn_type (node_at (v_fs v a) i)") auto
        have v': "v' = (v\<lparr>v_table := Some (upd_file (nat fd) (\<lambda>f. g f\<lparr>f_offset := 0\<rparr>) t)\<rparr>)
            \<lparr>v_fs := (v_fs v)(a := set_node_size i 0 (v_fs v a))\<rparr>"
          using run al slot False trunc w t2 len by (auto simp: mcs_open_node_def Let_def upd_file_upd)
        have inv1: "vfs_inv A (v\<lparr>v_table := Some (upd_file (nat fd) (\<lambda>f. g f\<lparr>f_offset := 0\<rparr>) t)\<rparr>)"
          by (intro vfs_inv_table [OF inv t] ok)
        have "fs_inv (set_node_size i 0 (v_fs v a))"
          by (intro set_node_size_inv vfs_invD(2) [OF inv a(1)] i a(2)) simp
        then show ?thesis
          unfolding v' using vfs_inv_fs [OF inv1, of "set_node_size i 0 (v_fs v a)" a] a(1) by (simp add: set_node_size_def)
      next
        case w: False
        have "v' = v\<lparr>v_table := Some (upd_file (nat fd) (\<lambda>f. g f\<lparr>f_used := False, f_node := None, f_fs := 0\<rparr>) t)\<rparr>"
          using run al slot False trunc w len by (auto simp: mcs_open_node_def Let_def upd_file_upd g_def)
        then show ?thesis
          using vfs_inv_table [OF inv t, of "nat fd" "\<lambda>f. g f\<lparr>f_used := False, f_node := None, f_fs := 0\<rparr>"]
          by (simp add: file_ok_def)
      qed
    next
      case trunc: False
      then have "v' = v\<lparr>v_table := Some (upd_file (nat fd) g t)\<rparr>"
        using run al slot False len by (auto simp: mcs_open_node_def Let_def upd_file_upd g_def)
      then show ?thesis
        using vfs_inv_table [OF inv t] ok(1) by simp
    qed
  qed
qed

lemma create_file_inv:
  assumes inv: "fs_inv fs" and c: "mcs_ramfs_create_file fs path = (r, fs')"
  shows "fs_inv fs'" "nodes_used fs \<le> nodes_used fs'" "r = Inr i \<Longrightarrow> 0 < i \<and> i < nodes_used fs'"
  using inv c
  by (cases rule: create_cases; use inv fs_invD(3) [OF inv] with_node_inv [OF inv] with_node_facts(1) [OF inv] in simp)+

lemma lookup_bound:
  assumes inv: "fs_inv fs" and "mcs_ramfs_lookup fs path = Inr i"
  shows "i < nodes_used fs"
  using assms(2) lookup_once [OF inv, of path] named_file(2) [OF inv, of path] fs_invD(3) [OF inv]
  by (auto split: if_splits option.splits)

lemma open_inv:
  assumes inv: "vfs_inv A v" and a: "a \<in> A" and run: "mcs_vfs_open a path flags v = (r, v')"
  shows "vfs_inv A v'"
proof (cases "v_table v = None \<or> path = None")
  case True
  then show ?thesis
    using run inv by (auto simp: mcs_vfs_open_def split: option.splits)
next
  case False
  then obtain t p where tp: "v_table v = Some t" "path = Some p"
    by auto
  have fsi: "fs_inv (v_fs v a)" and nz: "a \<noteq> 0"
    using vfs_invD(1,2) [OF inv] a by auto
  define fl where "fl = (if flags AND (MCS_O_RDONLY OR MCS_O_WRONLY OR MCS_O_RDWR) = 0 then flags OR MCS_O_RDONLY else flags)"
  show ?thesis
  proof (cases "mcs_ramfs_lookup (v_fs v a) p")
    case (Inr i)
    then have "mcs_open_node t a i fl v = (r, v')"
      using run tp nz by (simp add: mcs_vfs_open_def fl_def Let_def)
    then show ?thesis
      using open_node_inv [OF inv tp(1) a lookup_bound [OF fsi Inr]] by blast
  next
    case (Inl e)
    show ?thesis
    proof (cases "fl AND MCS_O_CREAT = 0")
      case True
      then show ?thesis
        using run tp nz Inl inv by (simp add: mcs_vfs_open_def fl_def Let_def)
    next
      case cr: False
      obtain q fs' where c: "mcs_ramfs_create_file (v_fs v a) p = (q, fs')"
        by fastforce
      note ci = create_file_inv [OF fsi c]
      let ?v = "v\<lparr>v_fs := (v_fs v)(a := fs')\<rparr>"
      have inv1: "vfs_inv A ?v"
        using vfs_inv_fs [OF inv ci(1) a ci(2)] .
      show ?thesis
      proof (cases q)
        case (Inl e')
        then show ?thesis
          using run tp nz \<open>mcs_ramfs_lookup (v_fs v a) p = Inl e\<close> cr c inv1 by (simp add: mcs_vfs_open_def fl_def Let_def)
      next
        case (Inr i)
        then have "mcs_open_node t a i fl ?v = (r, v')"
          using run tp nz \<open>mcs_ramfs_lookup (v_fs v a) p = Inl e\<close> cr c by (simp add: mcs_vfs_open_def fl_def Let_def)
        then show ?thesis
          using open_node_inv [OF inv1 _ a, of t i] tp ci(3) [OF Inr] by simp
      qed
    qed
  qed
qed

text \<open>A call that changes only the offset of a descriptor.\<close>

lemma offset_inv:
  assumes inv: "vfs_inv A v" and get: "mcs_fd_get (v_table v) fd = Some f" and t: "v_table v = Some t"
    and g: "\<And>f. f_used (g f) = f_used f \<and> f_node (g f) = f_node f \<and> f_fs (g f) = f_fs f"
  shows "vfs_inv A (v\<lparr>v_table := Some (upd_file (nat fd) g t)\<rparr>)"
proof (rule vfs_inv_table [OF inv t])
  assume "nat fd < 16"
  then have "file_ok A (v_fs v) (t ! nat fd)"
    using vfs_invD(3,4) [OF inv t] by simp
  then show "file_ok A (v_fs v) (g (t ! nat fd))"
    by (simp add: file_ok_def g)
qed

lemma fd_get_table: "mcs_fd_get T fd = Some f \<Longrightarrow> \<exists>t. T = Some t"
  by (auto simp: mcs_fd_get_def split: option.splits)

lemma read_inv:
  assumes inv: "vfs_inv A v" and run: "mcs_vfs_read fd buf len v = (r, buf', v')"
  shows "vfs_inv A v'"
proof (cases "mcs_fd_get (v_table v) fd")
  case (Some f)
  obtain t where t: "v_table v = Some t"
    using fd_get_table [OF Some] by blast
  have "v' = v \<or> (\<exists>k. v' = v\<lparr>v_table := Some (upd_file (nat fd) (\<lambda>f. f\<lparr>f_offset := f_offset f + k\<rparr>) t)\<rparr>)"
    using run Some t by (auto simp: mcs_vfs_read_def Let_def split: if_splits prod.splits)
  then show ?thesis
    using inv offset_inv [OF inv Some t] by fastforce
qed (use assms in \<open>auto simp: mcs_vfs_read_def split: if_splits\<close>)

lemma lseek_inv:
  assumes inv: "vfs_inv A v" and run: "mcs_vfs_lseek fd off whence v = Some (r, v')"
  shows "vfs_inv A v'"
proof (cases "mcs_fd_get (v_table v) fd")
  case (Some f)
  obtain t where t: "v_table v = Some t"
    using fd_get_table [OF Some] by blast
  have "v' = v \<or> (\<exists>k. v' = v\<lparr>v_table := Some (upd_file (nat fd) (\<lambda>f. f\<lparr>f_offset := k\<rparr>) t)\<rparr>)"
    using run Some t unfolding mcs_vfs_lseek_def Let_def by (auto split: if_splits prod.splits)
  then show ?thesis
    using inv offset_inv [OF inv Some t] by fastforce
qed (use assms in \<open>auto simp: mcs_vfs_lseek_def\<close>)

lemma write_null: "mcs_vfs_write fd None 0 v = mcs_vfs_write fd (Some []) 0 v"
  unfolding mcs_vfs_write_def option.case by simp

lemma write_inv:
  assumes inv: "vfs_inv A v" and b: "\<And>b. buf = Some b \<Longrightarrow> unat len \<le> length b" and run: "mcs_vfs_write fd buf len v = (r, v')"
  shows "vfs_inv A v'"
proof (cases "mcs_fd_get (v_table v) fd")
  case (Some f)
  obtain t a i where f: "v_table v = Some t" "f_node f = Some (a, i)" "f_fs f = a" "a \<in> A" "i < nodes_used (v_fs v a)"
    by (rule fd_get_Some [OF inv Some])
  have fsi: "fs_inv (v_fs v a)"
    using vfs_invD(2) [OF inv f(4)] .
  consider "v' = v" | c where "mcs_can_write (f_flags f)" "0 < i" "unat len \<le> length c" "mcs_vfs_write fd (Some c) len v = (r, v')"
  proof (cases "mcs_can_write (f_flags f) \<and> 0 < i \<and> (buf = None \<longrightarrow> len = 0)")
    case True
    show ?thesis
    proof (cases buf)
      case None
      then have "mcs_vfs_write fd (Some []) len v = (r, v')" "unat len \<le> length []"
        using run True None write_null by simp_all
      then show ?thesis
        using that(2) [of "[]"] True by blast
    next
      case (Some c)
      then show ?thesis
        using that(2) [of c] b [OF Some] run True by blast
    qed
  next
    case False
    then have "v' = v"
      using run Some f is_file [OF fsi f(5)] by (auto simp: mcs_vfs_write_def Let_def split: if_splits)
        (metis mcs_vnode_type.exhaust)+
    then show ?thesis
      using that(1) by blast
  qed
  then show ?thesis
  proof cases
    case 2
    let ?off = "write_offset f (node_at (v_fs v a) i)"
    note run2 = write_run [OF inv Some f(1) 2(1) f(2) 2(2,3)]
    show ?thesis
    proof (cases "unat ?off + unat len \<le> unat (vn_data_capacity (node_at (v_fs v a) i))")
      case True
      have v': "v' = (v\<lparr>v_table := Some (upd_file (nat fd) (\<lambda>f. f\<lparr>f_offset := ?off + len\<rparr>) t)\<rparr>)
          \<lparr>v_fs := (v_fs v)(a := written (v_fs v a) i ?off c len)\<rparr>"
        using run2 2(4) True by simp
      have inv1: "vfs_inv A (v\<lparr>v_table := Some (upd_file (nat fd) (\<lambda>f. f\<lparr>f_offset := ?off + len\<rparr>) t)\<rparr>)"
        by (intro offset_inv [OF inv Some f(1)]) simp
      show ?thesis
        unfolding v' using vfs_inv_fs [OF inv1 written_facts(1) [OF fsi 2(2) f(5) True 2(3)] f(4)]
          written_facts(2) [OF fsi 2(2) f(5) True 2(3)] by simp
    next
      case False
      then show ?thesis
        using run2 2(4) offset_inv [OF inv Some f(1)] by auto
    qed
  qed (use inv in simp)
qed (use assms in \<open>auto simp: mcs_vfs_write_def split: if_splits\<close>)

lemma close_inv:
  assumes inv: "vfs_inv A v" and run: "mcs_vfs_close fd v = (r, v')"
  shows "vfs_inv A v'"
proof (cases "mcs_fd_get (v_table v) fd")
  case (Some f)
  obtain t where t: "v_table v = Some t"
    using fd_get_table [OF Some] by blast
  have "vfs_inv A (v\<lparr>v_table := Some (upd_file (nat fd) (\<lambda>_. mcs_file_closed) t)\<rparr>)"
    by (rule vfs_inv_table [OF inv t]) (simp add: file_ok_def mcs_file_closed_def)
  then show ?thesis
    using run Some t by (simp add: mcs_vfs_close_def)
qed (use assms in \<open>simp add: mcs_vfs_close_def\<close>)

lemma dup_inv:
  assumes inv: "vfs_inv A v" and run: "mcs_vfs_dup fd v = (r, v')"
  shows "vfs_inv A v'"
proof (cases "mcs_fd_get (v_table v) fd")
  case (Some f)
  obtain t a i where f: "v_table v = Some t" "f_node f = Some (a, i)" "f_fs f = a" "a \<in> A" "i < nodes_used (v_fs v a)"
    by (rule fd_get_Some [OF inv Some])
  obtain nfd t1 where al: "mcs_fd_alloc t = (nfd, t1)"
    by fastforce
  from al show ?thesis
  proof (cases rule: fd_alloc_cases)
    case full
    then have "v' = v\<lparr>v_table := Some t\<rparr>"
      using run Some f al ENFILE_neg by (simp add: mcs_vfs_dup_def)
    then show ?thesis
      using inv f(1) by (simp add: vfs_inv_def)
  next
    case slot
    let ?g = "\<lambda>g. g\<lparr>f_used := True, f_flags := f_flags f, f_offset := f_offset f, f_node := f_node f, f_fs := f_fs f\<rparr>"
    have "v' = v\<lparr>v_table := Some (upd_file (nat nfd) ?g t)\<rparr>"
      using run Some f(1) al slot vfs_invD(3) [OF inv f(1)] by (auto simp: mcs_vfs_dup_def upd_file_upd)
    moreover have "vfs_inv A (v\<lparr>v_table := Some (upd_file (nat nfd) ?g t)\<rparr>)"
      using f by (intro vfs_inv_table [OF inv f(1)]) (simp add: file_ok_def)
    ultimately show ?thesis
      by simp
  qed
qed (use assms in \<open>simp add: mcs_vfs_dup_def\<close>)

lemma seed_inv:
  assumes inv: "fs_inv fs" and run: "mcs_ramfs_seed_file (Some fs) path data len = (r, fs')"
  obtains fs1 where "fs' = Some fs1" "fs_inv fs1" "nodes_used fs \<le> nodes_used fs1"
proof (cases "path = None \<or> data = None \<and> len \<noteq> 0")
  case True
  then show ?thesis
    using run inv that by (auto simp: mcs_ramfs_seed_file_def split: option.splits if_splits)
next
  case False
  then obtain p where p: "path = Some p"
    by auto
  obtain q fs1 where c: "mcs_ramfs_create_file fs p = (q, fs1)"
    by fastforce
  note ci = create_file_inv [OF inv c]
  show ?thesis
  proof (cases "\<exists>i. q = Inr i \<and> len \<le> vn_data_capacity (node_at fs1 i)")
    case True
    then obtain i where i: "q = Inr i" "len \<le> vn_data_capacity (node_at fs1 i)"
      by blast
    let ?fs = "fs1\<lparr>fs_data := mcs_copy_bytes (fs_data fs1) (unat (vn_data_offset (node_at fs1 i)))
      (case data of None \<Rightarrow> [] | Some d \<Rightarrow> d) (unat len)\<rparr>"
    have "fs_inv ?fs"
      using ci(1) fs_invD(2) [OF ci(1)] by (intro fs_data_inv) (simp_all add: mcs_copy_bytes_def)
    then have "fs_inv (set_node_size i len ?fs)"
      using ci(3) [OF i(1)] i(2) by (intro set_node_size_inv) simp_all
    moreover have "fs' = Some (set_node_size i len ?fs)"
      using run p False c i(1) leD [OF i(2)] by (auto simp: mcs_ramfs_seed_file_def Let_def)
    ultimately show ?thesis
      using that ci(2) by (simp add: set_node_size_def)
  next
    case nofit: False
    then have "fs' = Some fs1"
      using run p False c by (auto simp: mcs_ramfs_seed_file_def Let_def split: sum.splits if_splits)
    then show ?thesis
      using that ci by blast
  qed
qed

text \<open>Initialisation of objects of the sizes that the declarations give.\<close>

definition ramfs_object :: "mcs_ramfs \<Rightarrow> bool" where
  "ramfs_object fs \<longleftrightarrow> length (fs_nodes fs) = 64 \<and> length (fs_data fs) = 8192 \<and> (\<forall>n\<in>set (fs_nodes fs). length (vn_name n) = 32)"

lemma fold_nodes:
  fixes g :: "mcs_vnode \<Rightarrow> mcs_vnode"
  assumes "\<And>n. length (vn_name (g n)) = length (vn_name n)"
  shows "length (fold (\<lambda>i ns. ns[i := g (ns ! i)]) is ns) = length ns"
    "\<forall>n\<in>set ns. length (vn_name n) = 32 \<Longrightarrow> \<forall>n\<in>set (fold (\<lambda>i ns. ns[i := g (ns ! i)]) is ns). length (vn_name n) = 32"
proof -
  show "length (fold (\<lambda>i ns. ns[i := g (ns ! i)]) is ns) = length ns"
    by (induction "is" arbitrary: ns) simp_all
  show "\<forall>n\<in>set (fold (\<lambda>i ns. ns[i := g (ns ! i)]) is ns). length (vn_name n) = 32"
    if "\<forall>n\<in>set ns. length (vn_name n) = 32"
    using that
  proof (induction "is" arbitrary: ns)
    case (Cons i "is")
    have "\<forall>n\<in>set (ns[i := g (ns ! i)]). length (vn_name n) = 32"
    proof (cases "i < length ns")
      case True
      then show ?thesis
        using Cons.prems set_update_subset_insert [of ns i "g (ns ! i)"] assms by fastforce
    qed (use Cons.prems in \<open>simp add: list_update_beyond\<close>)
    then show ?case
      using Cons.IH by simp
  qed simp
qed

lemma vfs_init_inv:
  assumes "ramfs_object fs0" and "mcs_ramfs_init (Some fs0) = Some fs"
  shows "fs_inv fs" "nodes_used fs = 1"
proof -
  define g where "g = (\<lambda>n. n\<lparr>vn_used := False, vn_id := 0, vn_parent := 0, vn_type := MCS_VNODE_FILE,
    vn_name := (vn_name n)[0 := 0], vn_size := 0, vn_data_offset := 0, vn_data_capacity := 0\<rparr> :: mcs_vnode)"
  define nodes where "nodes = fold (\<lambda>i ns. ns[i := g (ns ! i)]) [0..<MCS_MAX_NODES] (fs_nodes fs0)"
  define data where "data = fold (\<lambda>i d. d[i := 0]) [0..<MCS_RAMFS_DATA_BYTES] (fs_data fs0)"
  define root where "root = (nodes ! 0)\<lparr>vn_used := True, vn_id := 0, vn_parent := 0, vn_type := MCS_VNODE_DIR,
    vn_name := (vn_name (nodes ! 0))[0 := slash, 1 := 0]\<rparr>"
  have fs: "fs = \<lparr>fs_nodes = nodes[0 := root], fs_node_count = 1, fs_data = data, fs_data_used = 0\<rparr>"
    using assms(2) unfolding mcs_ramfs_init_def Let_def root_def nodes_def data_def g_def by simp
  have name: "length (vn_name (g n)) = length (vn_name n)" for n
    by (simp add: g_def)
  have nodes: "length nodes = 64"
    using fold_nodes(1) [OF name] assms(1) by (simp add: nodes_def ramfs_object_def)
  have names: "\<forall>n\<in>set nodes. length (vn_name n) = 32"
    unfolding nodes_def by (rule fold_nodes(2) [OF name]) (use assms(1) in \<open>simp add: ramfs_object_def\<close>)
  have "length (fold (\<lambda>i d. d[i := 0]) is d) = length d" for "is" and d :: bytes
    by (induction "is" arbitrary: d) simp_all
  then have data: "length data = 8192"
    using assms(1) by (simp add: data_def ramfs_object_def)
  have "length (vn_name (nodes ! 0)) = 32"
    using nodes names by simp
  then have root: "length (vn_name root) = 32" "vn_name root ! 0 = slash"
    by (simp_all add: root_def)
  have "\<forall>n\<in>set (nodes[0 := root]). length (vn_name n) = 32"
    using names root(1) set_update_subset_insert [of nodes 0 root] by blast
  then show "fs_inv fs"
    using nodes data root by (auto simp: fs_inv_def fs) (simp_all add: root_def)
  show "nodes_used fs = 1"
    by (simp add: fs)
qed

lemma table_init: "length t = 16 \<Longrightarrow> mcs_fd_table_init (Some t) = Some (replicate 16 mcs_file_closed)"
proof -
  assume t: "length t = 16"
  have len: "length (fold (\<lambda>i t. t[i := x]) is t) = length t" for "is" and x :: mcs_file and t
    by (induction "is" arbitrary: t) simp_all
  have "fold (\<lambda>i t. t[i := mcs_file_closed]) [0..<16] t = replicate 16 mcs_file_closed"
    by (rule nth_equalityI) (use t in \<open>simp_all add: len fold_update_nth del: upt_rec_numeral\<close>)
  then show ?thesis
    by (simp add: mcs_fd_table_init_def MCS_MAX_OPEN_FILES_def del: upt_rec_numeral)
qed

text \<open>The states that calls with any arguments reach; a buffer is at least as long as the caller says.\<close>

inductive vfs_reachable :: "u64 set \<Rightarrow> vfs \<Rightarrow> bool" for A where
  vfs_start: "0 \<notin> A \<Longrightarrow> (\<And>a. a \<in> A \<Longrightarrow> \<exists>fs0. ramfs_object fs0 \<and> mcs_ramfs_init (Some fs0) = Some (v_fs v a)) \<Longrightarrow>
    length t0 = 16 \<Longrightarrow> v_table v = mcs_fd_table_init (Some t0) \<Longrightarrow> vfs_reachable A v"
| vfs_seed: "vfs_reachable A v \<Longrightarrow> a \<in> A \<Longrightarrow> mcs_ramfs_seed_file (Some (v_fs v a)) path data len = (r, Some fs) \<Longrightarrow>
    vfs_reachable A (v\<lparr>v_fs := (v_fs v)(a := fs)\<rparr>)"
| vfs_open: "vfs_reachable A v \<Longrightarrow> a \<in> A \<Longrightarrow> mcs_vfs_open a path flags v = (r, v') \<Longrightarrow> vfs_reachable A v'"
| vfs_read: "vfs_reachable A v \<Longrightarrow> mcs_vfs_read fd buf len v = (r, buf', v') \<Longrightarrow> vfs_reachable A v'"
| vfs_write: "vfs_reachable A v \<Longrightarrow> (\<And>b. buf = Some b \<Longrightarrow> unat len \<le> length b) \<Longrightarrow>
    mcs_vfs_write fd buf len v = (r, v') \<Longrightarrow> vfs_reachable A v'"
| vfs_lseek: "vfs_reachable A v \<Longrightarrow> mcs_vfs_lseek fd off whence v = Some (r, v') \<Longrightarrow> vfs_reachable A v'"
| vfs_close: "vfs_reachable A v \<Longrightarrow> mcs_vfs_close fd v = (r, v') \<Longrightarrow> vfs_reachable A v'"
| vfs_dup: "vfs_reachable A v \<Longrightarrow> mcs_vfs_dup fd v = (r, v') \<Longrightarrow> vfs_reachable A v'"

lemma start_inv:
  assumes "0 \<notin> A" and "\<And>a. a \<in> A \<Longrightarrow> \<exists>fs0. ramfs_object fs0 \<and> mcs_ramfs_init (Some fs0) = Some (v_fs v a)"
    and "length t0 = 16" and "v_table v = mcs_fd_table_init (Some t0)"
  shows "vfs_inv A v"
  using assms vfs_init_inv(1) table_init [OF assms(3)]
  by (fastforce simp: vfs_inv_def file_ok_def mcs_file_closed_def)

text \<open>
  Property C12. Starting from \<^verbatim>\<open>mcs_ramfs_init\<close> and \<^verbatim>\<open>mcs_fd_table_init\<close>, every sequence of calls to seed, open,
  read, write, seek, close and duplicate leaves well-formed file systems: the extents of the files lie inside
  the data area and do not overlap, no file is larger than its extent, and every open descriptor refers to a
  node that exists.
\<close>

theorem vfs_calls_safe:
  assumes "vfs_reachable A v"
  shows "vfs_inv A v"
  using assms
proof (induction rule: vfs_reachable.induct)
  case (vfs_start v t0)
  then show ?case
    by (intro start_inv)
next
  case (vfs_seed v a path data len r fs)
  obtain fs1 where "Some fs = Some fs1" "fs_inv fs1" "nodes_used (v_fs v a) \<le> nodes_used fs1"
    by (rule seed_inv [OF vfs_invD(2) [OF vfs_seed.IH vfs_seed.hyps(2)] vfs_seed.hyps(3)])
  then show ?case
    using vfs_inv_fs [OF vfs_seed.IH _ vfs_seed.hyps(2)] by simp
qed (auto intro: open_inv read_inv write_inv lseek_inv close_inv dup_inv)

text \<open>
  Property C13. What is written to an open file is read back. A write of \<open>len\<close> bytes at the descriptor's
  offset succeeds exactly when it fits into the file's extent; after seeking back, a read returns these
  bytes. No other file of any file system changes, and a write that does not fit changes no file.
\<close>

theorem vfs_write_read:
  assumes inv: "vfs_inv A v" and get: "mcs_fd_get (v_table v) fd = Some f" and node: "f_node f = Some (a, i)" "0 < i"
    and flags: "mcs_can_read (f_flags f)" "mcs_can_write (f_flags f)" "f_flags f AND MCS_O_APPEND = 0"
    and b: "length b = unat len" and out: "length out = unat len" and w: "mcs_vfs_write fd (Some b) len v = (r, v1)"
  shows "(\<forall>c\<in>A. \<forall>j. 0 < j \<and> j < nodes_used (v_fs v c) \<and> (c, j) \<noteq> (a, i) \<longrightarrow> file_bytes (v_fs v1 c) j = file_bytes (v_fs v c) j) \<and>
    (if unat (f_offset f) + unat len \<le> unat (vn_data_capacity (node_at (v_fs v a) i))
     then r = int (unat len) \<and>
       (\<exists>v2. mcs_vfs_lseek fd (int (unat (f_offset f))) MCS_SEEK_SET v1 = Some (int (unat (f_offset f)), v2) \<and>
          (\<exists>v3. mcs_vfs_read fd (Some out) len v2 = (int (unat len), Some b, v3)))
     else r < 0 \<and> v_fs v1 = v_fs v)"
proof -
  obtain t where t: "v_table v = Some t" "nat fd < 16" "t ! nat fd = f" "f_used f" "f_fs f = a" "a \<in> A" "a \<noteq> 0"
    "i < nodes_used (v_fs v a)" "0 \<le> fd"
    using fd_get_Some [OF inv get] node(1) by (metis option.inject prod.inject)
  have fsi: "fs_inv (v_fs v a)"
    using vfs_invD(2) [OF inv t(6)] .
  let ?n = "node_at (v_fs v a) i" and ?off = "f_offset f"
  have wo: "write_offset f ?n = ?off"
    using flags(3) by (simp add: write_offset_def)
  note run = write_run [OF inv get t(1) flags(2) node, of len b, unfolded wo]
  show ?thesis
  proof (cases "unat ?off + unat len \<le> unat (vn_data_capacity ?n)")
    case False
    then show ?thesis
      using run w b by (auto simp: MCS_EINVAL_def MCS_ENOSPC_def)
  next
    case True
    let ?fs = "written (v_fs v a) i ?off b len" let ?t1 = "upd_file (nat fd) (\<lambda>f. f\<lparr>f_offset := ?off + len\<rparr>) t"
    have r: "r = int (unat len)" and v1: "v1 = v\<lparr>v_fs := (v_fs v)(a := ?fs), v_table := Some ?t1\<rparr>"
      using run w b True by auto
    note wf = written_facts [OF fsi node(2) t(8) True, of b]
    have len: "nat fd < length t"
      using vfs_invD(3) [OF inv t(1)] t(2) by simp
    have other: "file_bytes (v_fs v1 c) j = file_bytes (v_fs v c) j"
      if "0 < j" "j < nodes_used (v_fs v c)" "(c, j) \<noteq> (a, i)" for c j
      using that wf(8) [of j] b by (cases "c = a") (auto simp: v1)
    have small: "unat ?off + unat len \<le> 8192"
      using True extent_bounds(1) [OF fsi node(2) t(8)] by simp
    have inv1: "vfs_inv A v1"
      by (rule write_inv [OF inv _ w]) (use b in simp)
    have get1: "mcs_fd_get (v_table v1) fd = Some (f\<lparr>f_offset := ?off + len\<rparr>)"
      using t len by (simp add: v1 mcs_fd_get_def MCS_MAX_OPEN_FILES_def)
    let ?f2 = "f\<lparr>f_offset := ?off\<rparr>" let ?t2 = "upd_file (nat fd) (\<lambda>f. f\<lparr>f_offset := ?off\<rparr>) ?t1"
    let ?v2 = "v1\<lparr>v_table := Some ?t2\<rparr>"
    have type: "vn_type (node_at ?fs i) \<noteq> MCS_VNODE_DIR"
      using is_file [OF fsi t(8)] node(2) wf(5) b by auto
    have "int (unat ?off) \<le> 8192"
      using small by linarith
    then have ub: "uint ?off \<le> 8192"
      by simp
    have lb: "\<not> uint ?off < - 9223372036854775808"
      using uint_ge_0 [of ?off] by linarith
    have seek: "mcs_vfs_lseek fd (int (unat ?off)) MCS_SEEK_SET v1 = Some (int (unat ?off), ?v2)"
      using get1 node(1) type small sint_low_half [of ?off] ub lb
      by (simp add: mcs_vfs_lseek_def Let_def v1 MCS_SEEK_SET_def)
    have inv2: "vfs_inv A ?v2"
      using lseek_inv [OF inv1 seek] .
    have get2: "mcs_fd_get (v_table ?v2) fd = Some ?f2"
      using t len by (simp add: mcs_fd_get_def MCS_MAX_OPEN_FILES_def)
    have size: "unat (vn_size (node_at ?fs i)) = max (unat (vn_size ?n)) (unat ?off + unat len)"
      using wf(4) b by simp
    have reg: "length (file_region (v_fs v a) i) = unat (vn_data_capacity ?n)"
      using extent_bounds(1) [OF fsi node(2) t(8)] fs_invD(2) [OF fsi] by (simp add: file_region_def)
    have bytes: "take (unat len) (drop (unat ?off) (file_bytes ?fs i)) = b"
      using True reg b size wf(3) by (simp add: file_bytes_def copy_loop_eq drop_take)
    have rd: "mcs_vfs_read fd (Some out) len ?v2 = (int (unat len), Some b, snd (snd (mcs_vfs_read fd (Some out) len ?v2)))"
      using read_run [OF inv2 get2, of ?t2 a i len out] node flags out bytes size by (simp add: v1)
    show ?thesis
      unfolding if_P [OF True] by (intro conjI ballI allI impI exI, elim conjE, rule other, assumption+, rule r, rule seek, rule rd)
  qed
qed

section \<open>A concrete file system\<close>

definition blank_node :: mcs_vnode where
  "blank_node = \<lparr>vn_used = False, vn_id = 0, vn_parent = 0, vn_type = MCS_VNODE_FILE, vn_name = replicate 32 0,
     vn_size = 0, vn_data_offset = 0, vn_data_capacity = 0\<rparr>"

definition blank_ramfs :: mcs_ramfs where
  "blank_ramfs = \<lparr>fs_nodes = replicate 64 blank_node, fs_node_count = 0, fs_data = replicate 8192 0, fs_data_used = 0\<rparr>"

definition vfs_boot :: vfs where
  "vfs_boot = \<lparr>v_fs = \<lambda>_. the (mcs_ramfs_init (Some blank_ramfs)),
     v_table = mcs_fd_table_init (Some (replicate 16 mcs_file_closed))\<rparr>"

lemma blank_object: "ramfs_object blank_ramfs"
  by (simp add: ramfs_object_def blank_ramfs_def blank_node_def)

lemma boot_init: "mcs_ramfs_init (Some blank_ramfs) = Some (v_fs vfs_boot a)"
  by (simp add: vfs_boot_def mcs_ramfs_init_def Let_def)

lemma boot_reachable: "vfs_reachable {0x1000} vfs_boot"
  using blank_object boot_init
  by (intro vfs_start [where ?t0.0 = "replicate 16 mcs_file_closed"]) (auto simp: vfs_boot_def)

text \<open>\<^verbatim>\<open>"/a"\<close>\<close>

definition path_a :: bytes where
  "path_a = [0x2F, 0x61]"

theorem vfs_calls_safe_witness:
  "vfs_inv {0x1000} (snd (mcs_vfs_open 0x1000 (Some path_a) MCS_O_CREAT vfs_boot))"
proof -
  obtain r v' where "mcs_vfs_open 0x1000 (Some path_a) MCS_O_CREAT vfs_boot = (r, v')"
    by fastforce
  then show ?thesis
    using vfs_calls_safe [OF vfs_open [OF boot_reachable]] by simp
qed

theorem ramfs_create_lookup_witness:
  "fs_inv (v_fs vfs_boot 0x1000) \<and> fs_inv (snd (mcs_ramfs_create_file (v_fs vfs_boot 0x1000) path_a))"
proof -
  have inv: "fs_inv (v_fs vfs_boot 0x1000)"
    using vfs_init_inv(1) [OF blank_object boot_init] .
  obtain r fs' where c: "mcs_ramfs_create_file (v_fs vfs_boot 0x1000) path_a = (r, fs')"
    by fastforce
  then show ?thesis
    using inv ramfs_create_lookup [OF inv c] by simp
qed

text \<open>One file of 256 bytes, open for reading and writing as descriptor 0.\<close>

definition one_file_fs :: mcs_ramfs where
  "one_file_fs = \<lparr>fs_nodes = (replicate 64 blank_node)
     [0 := blank_node\<lparr>vn_used := True, vn_type := MCS_VNODE_DIR, vn_name := (replicate 32 0)[0 := slash]\<rparr>,
      1 := blank_node\<lparr>vn_used := True, vn_id := 1, vn_name := (replicate 32 0)[0 := 0x61], vn_data_capacity := 256\<rparr>],
     fs_node_count = 2, fs_data = replicate 8192 0, fs_data_used = 256\<rparr>"

definition one_file :: vfs where
  "one_file = \<lparr>v_fs = \<lambda>_. one_file_fs, v_table = Some ((replicate 16 mcs_file_closed)
     [0 := \<lparr>f_used = True, f_flags = MCS_O_RDWR, f_offset = 0, f_node = Some (0x1000, 1), f_fs = 0x1000\<rparr>])\<rparr>"

lemma one_file_fs_inv: "fs_inv one_file_fs"
proof -
  let ?root = "blank_node\<lparr>vn_used := True, vn_type := MCS_VNODE_DIR, vn_name := (replicate 32 0)[0 := slash]\<rparr>"
  let ?node = "blank_node\<lparr>vn_used := True, vn_id := 1, vn_name := (replicate 32 0)[0 := 0x61], vn_data_capacity := 256\<rparr>"
  have ns: "fs_nodes one_file_fs = (replicate 64 blank_node)[0 := ?root, 1 := ?node]"
    by (simp only: one_file_fs_def mcs_ramfs.select_convs)
  have "set (fs_nodes one_file_fs) \<subseteq> {?node, ?root, blank_node}"
    unfolding ns using set_update_subset_insert [of "(replicate 64 blank_node)[0 := ?root]" 1 ?node]
      set_update_subset_insert [of "replicate 64 blank_node" 0 ?root] by auto
  then have "\<forall>n\<in>set (fs_nodes one_file_fs). length (vn_name n) = 32"
    by (auto simp: blank_node_def)
  moreover have "node_at one_file_fs 0 = ?root" "node_at one_file_fs 1 = ?node" "length (fs_nodes one_file_fs) = 64"
    by (simp_all add: ns)
  moreover have "fs_node_count one_file_fs = 2" "fs_data_used one_file_fs = 256" "length (fs_data one_file_fs) = 8192"
    by (simp_all add: one_file_fs_def)
  moreover have "0 < i \<and> i < (2 :: nat) \<longleftrightarrow> i = 1" for i
    by auto
  moreover have "\<not> (0 < i \<and> i < j \<and> j < (2 :: nat))" for i j
    by auto
  ultimately show ?thesis
    by (simp add: fs_inv_def extent_ok_def) (simp add: blank_node_def, linarith)
qed

lemma one_file_facts:
  "vfs_inv {0x1000} one_file"
  "mcs_fd_get (v_table one_file) 0 = Some \<lparr>f_used = True, f_flags = MCS_O_RDWR, f_offset = 0, f_node = Some (0x1000, 1), f_fs = 0x1000\<rparr>"
  "mcs_can_read MCS_O_RDWR" "mcs_can_write MCS_O_RDWR" "MCS_O_RDWR AND MCS_O_APPEND = 0"
proof -
  let ?f = "\<lparr>f_used = True, f_flags = MCS_O_RDWR, f_offset = 0, f_node = Some (0x1000, 1), f_fs = 0x1000\<rparr>"
  have "set ((replicate 16 mcs_file_closed)[0 := ?f]) \<subseteq> {?f, mcs_file_closed}"
    using set_update_subset_insert [of "replicate 16 mcs_file_closed" 0 ?f] by auto
  moreover have "file_ok {0x1000} (\<lambda>_. one_file_fs) ?f" "file_ok {0x1000} (\<lambda>_. one_file_fs) mcs_file_closed"
    by (simp_all add: file_ok_def mcs_file_closed_def one_file_fs_def)
  ultimately have "\<forall>f\<in>set ((replicate 16 mcs_file_closed)[0 := ?f]). file_ok {0x1000} (\<lambda>_. one_file_fs) f"
    by blast
  then show "vfs_inv {0x1000} one_file"
    using one_file_fs_inv by (simp add: vfs_inv_def one_file_def)
  show "mcs_fd_get (v_table one_file) 0 = Some ?f"
    by (simp add: mcs_fd_get_def one_file_def MCS_MAX_OPEN_FILES_def)
  show "mcs_can_read MCS_O_RDWR" "mcs_can_write MCS_O_RDWR" "MCS_O_RDWR AND MCS_O_APPEND = 0"
    by (simp_all add: mcs_can_read_def mcs_can_write_def MCS_O_RDWR_def MCS_O_APPEND_def)
qed

theorem vfs_write_read_witness:
  "\<exists>v1 v2 v3. mcs_vfs_write 0 (Some [7, 8]) 2 one_file = (2, v1) \<and>
     mcs_vfs_lseek 0 0 MCS_SEEK_SET v1 = Some (0, v2) \<and> mcs_vfs_read 0 (Some [0, 0]) 2 v2 = (2, Some [7, 8], v3)"
proof -
  obtain r v1 where w: "mcs_vfs_write 0 (Some [7, 8]) 2 one_file = (r, v1)"
    by fastforce
  have "vn_data_capacity (node_at (v_fs one_file 0x1000) 1) = 256"
    by (simp add: one_file_def one_file_fs_def)
  moreover have "if unat (0 :: u64) + unat (2 :: u64) \<le> unat (vn_data_capacity (node_at (v_fs one_file 0x1000) 1))
    then r = int (unat (2 :: u64)) \<and>
      (\<exists>v2. mcs_vfs_lseek 0 (int (unat (0 :: u64))) MCS_SEEK_SET v1 = Some (int (unat (0 :: u64)), v2) \<and>
        (\<exists>v3. mcs_vfs_read 0 (Some [0, 0]) 2 v2 = (int (unat (2 :: u64)), Some [7, 8], v3)))
    else r < 0 \<and> v_fs v1 = v_fs one_file"
    using vfs_write_read [OF one_file_facts(1,2) _ _ _ _ _ _ _ w, of "0x1000" 1 "[0, 0]", THEN conjunct2] one_file_facts(3-5)
    unfolding mcs_file.select_convs by simp
  ultimately have "r = 2" "\<exists>v2. mcs_vfs_lseek 0 0 MCS_SEEK_SET v1 = Some (0, v2) \<and>
      (\<exists>v3. mcs_vfs_read 0 (Some [0, 0]) 2 v2 = (2, Some [7, 8], v3))"
    by simp_all
  then show ?thesis
    using w by blast
qed

end
