(* ===== verification/Elf.thy ===== *)
theory Elf
  imports Layout
begin

text \<open>
  The loader for user programs, \<^verbatim>\<open>src/kernel/user/m11_elf_loader.c\<close>: it checks an ELF image and plans where
  its segments go. The loader casts the image to structures; a read of a structure that does not lie wholly in
  the image's bytes is the result \<open>None\<close>.
\<close>

section \<open>Data\<close>

definition M11_ELFMAG0 :: u8 where "M11_ELFMAG0 = 0x7F"
definition M11_ELFMAG1 :: u8 where "M11_ELFMAG1 = 0x45"
definition M11_ELFMAG2 :: u8 where "M11_ELFMAG2 = 0x4C"
definition M11_ELFMAG3 :: u8 where "M11_ELFMAG3 = 0x46"
definition M11_ELFCLASS64 :: u8 where "M11_ELFCLASS64 = 2"
definition M11_ELFDATA2LSB :: u8 where "M11_ELFDATA2LSB = 1"
definition M11_EV_CURRENT :: u32 where "M11_EV_CURRENT = 1"
definition M11_ET_EXEC :: u16 where "M11_ET_EXEC = 2"
definition M11_ET_DYN :: u16 where "M11_ET_DYN = 3"
definition M11_EM_X86_64 :: u16 where "M11_EM_X86_64 = 62"
definition M11_PT_LOAD :: u32 where "M11_PT_LOAD = 1"
definition M11_PF_X :: u32 where "M11_PF_X = 1"
definition M11_PF_W :: u32 where "M11_PF_W = 2"
definition M11_PF_R :: u32 where "M11_PF_R = 4"
definition M11_MAX_LOAD_SEGMENTS :: nat where "M11_MAX_LOAD_SEGMENTS = 8"

definition M11_OK :: int where "M11_OK = 0"
definition M11_ERR_NULL :: int where "M11_ERR_NULL = - 1"
definition M11_ERR_SIZE :: int where "M11_ERR_SIZE = - 2"
definition M11_ERR_MAGIC :: int where "M11_ERR_MAGIC = - 3"
definition M11_ERR_CLASS :: int where "M11_ERR_CLASS = - 4"
definition M11_ERR_ENDIAN :: int where "M11_ERR_ENDIAN = - 5"
definition M11_ERR_VERSION :: int where "M11_ERR_VERSION = - 6"
definition M11_ERR_TYPE :: int where "M11_ERR_TYPE = - 7"
definition M11_ERR_MACHINE :: int where "M11_ERR_MACHINE = - 8"
definition M11_ERR_EHSIZE :: int where "M11_ERR_EHSIZE = - 9"
definition M11_ERR_PHENTSIZE :: int where "M11_ERR_PHENTSIZE = - 10"
definition M11_ERR_PHBOUNDS :: int where "M11_ERR_PHBOUNDS = - 11"
definition M11_ERR_ALIGN :: int where "M11_ERR_ALIGN = - 12"
definition M11_ERR_SEGBOUNDS :: int where "M11_ERR_SEGBOUNDS = - 13"
definition M11_ERR_SEGRANGE :: int where "M11_ERR_SEGRANGE = - 14"
definition M11_ERR_SEGCOUNT :: int where "M11_ERR_SEGCOUNT = - 15"
definition M11_ERR_ENTRY :: int where "M11_ERR_ENTRY = - 16"
definition M11_ERR_FLAGS :: int where "M11_ERR_FLAGS = - 17"

record m11_elf64_ehdr =
  e_ident :: bytes
  e_type :: u16
  e_machine :: u16
  e_version :: u32
  e_entry :: u64
  e_phoff :: u64
  e_shoff :: u64
  e_flags :: u32
  e_ehsize :: u16
  e_phentsize :: u16
  e_phnum :: u16
  e_shentsize :: u16
  e_shnum :: u16
  e_shstrndx :: u16

record m11_elf64_phdr =
  p_type :: u32
  p_flags :: u32
  p_offset :: u64
  p_vaddr :: u64
  p_paddr :: u64
  p_filesz :: u64
  p_memsz :: u64
  p_align :: u64

record m11_user_region =
  r_base :: u64
  r_limit :: u64

record m11_segment_plan =
  sp_file_offset :: u64
  sp_vaddr :: u64
  sp_filesz :: u64
  sp_memsz :: u64
  sp_align :: u64
  sp_flags :: u32

record m11_process_image_plan =
  pl_entry :: u64
  pl_segment_count :: u32
  pl_segments :: "m11_segment_plan list"

text \<open>The structures as bytes. Every field is aligned, so that there is no padding.\<close>

definition sizeof_ehdr :: nat where "sizeof_ehdr = 64"
definition sizeof_phdr :: nat where "sizeof_phdr = 56"

definition ehdr_bytes :: "m11_elf64_ehdr \<Rightarrow> bytes" where
  "ehdr_bytes h = e_ident h @ le16 (e_type h) @ le16 (e_machine h) @ le32 (e_version h) @ le64 (e_entry h) @
     le64 (e_phoff h) @ le64 (e_shoff h) @ le32 (e_flags h) @ le16 (e_ehsize h) @ le16 (e_phentsize h) @
     le16 (e_phnum h) @ le16 (e_shentsize h) @ le16 (e_shnum h) @ le16 (e_shstrndx h)"

definition ehdr_of :: "bytes \<Rightarrow> m11_elf64_ehdr" where
  "ehdr_of b = \<lparr>e_ident = rd8s b 0 16, e_type = rd16 b 16, e_machine = rd16 b 18, e_version = rd32 b 20,
     e_entry = rd64 b 24, e_phoff = rd64 b 32, e_shoff = rd64 b 40, e_flags = rd32 b 48, e_ehsize = rd16 b 52,
     e_phentsize = rd16 b 54, e_phnum = rd16 b 56, e_shentsize = rd16 b 58, e_shnum = rd16 b 60, e_shstrndx = rd16 b 62\<rparr>"

definition phdr_bytes :: "m11_elf64_phdr \<Rightarrow> bytes" where
  "phdr_bytes p = le32 (p_type p) @ le32 (p_flags p) @ le64 (p_offset p) @ le64 (p_vaddr p) @ le64 (p_paddr p) @
     le64 (p_filesz p) @ le64 (p_memsz p) @ le64 (p_align p)"

definition phdr_of :: "bytes \<Rightarrow> m11_elf64_phdr" where
  "phdr_of b = \<lparr>p_type = rd32 b 0, p_flags = rd32 b 4, p_offset = rd64 b 8, p_vaddr = rd64 b 16, p_paddr = rd64 b 24,
     p_filesz = rd64 b 32, p_memsz = rd64 b 40, p_align = rd64 b 48\<rparr>"

definition read_struct :: "nat \<Rightarrow> (bytes \<Rightarrow> 'a) \<Rightarrow> bytes \<Rightarrow> nat \<Rightarrow> 'a option" where
  "read_struct sz decode b off = (if off + sz \<le> length b then Some (decode (slice off sz b)) else None)"

section \<open>The checks\<close>

text \<open>The sum, or \<open>None\<close> when it does not fit.\<close>

definition m11_add_overflow_u64 :: "u64 \<Rightarrow> u64 \<Rightarrow> u64 option" where
  "m11_add_overflow_u64 a b = (let r = a + b in if r < a then None else Some r)"

definition m11_is_power_of_two_u64 :: "u64 \<Rightarrow> bool" where
  "m11_is_power_of_two_u64 v \<longleftrightarrow> v \<noteq> 0 \<and> v AND (v - 1) = 0"

definition m11_zero_segment :: m11_segment_plan where
  "m11_zero_segment = \<lparr>sp_file_offset = 0, sp_vaddr = 0, sp_filesz = 0, sp_memsz = 0, sp_align = 0, sp_flags = 0\<rparr>"

definition m11_zero_plan :: "m11_process_image_plan \<Rightarrow> m11_process_image_plan" where
  "m11_zero_plan plan = plan\<lparr>pl_entry := 0, pl_segment_count := 0,
     pl_segments := fold (\<lambda>i segs. segs[i := m11_zero_segment]) [0..<M11_MAX_LOAD_SEGMENTS] (pl_segments plan)\<rparr>"

definition m11_validate_user_range :: "m11_user_region \<Rightarrow> u64 \<Rightarrow> u64 \<Rightarrow> int" where
  "m11_validate_user_range region base sz =
    (if r_base region \<ge> r_limit region then M11_ERR_SEGRANGE
     else if sz = 0 then M11_ERR_SEGRANGE
     else case m11_add_overflow_u64 base sz of
       None \<Rightarrow> M11_ERR_SEGRANGE
     | Some e \<Rightarrow>
         if base < r_base region \<or> e > r_limit region \<or> e \<le> base then M11_ERR_SEGRANGE else M11_OK)"

definition m11_validate_ident :: "m11_elf64_ehdr \<Rightarrow> int" where
  "m11_validate_ident eh =
    (if e_ident eh ! 0 \<noteq> M11_ELFMAG0 \<or> e_ident eh ! 1 \<noteq> M11_ELFMAG1 \<or>
        e_ident eh ! 2 \<noteq> M11_ELFMAG2 \<or> e_ident eh ! 3 \<noteq> M11_ELFMAG3 then M11_ERR_MAGIC
     else if e_ident eh ! 4 \<noteq> M11_ELFCLASS64 then M11_ERR_CLASS
     else if e_ident eh ! 5 \<noteq> M11_ELFDATA2LSB then M11_ERR_ENDIAN
     else if ucast (e_ident eh ! 6) \<noteq> M11_EV_CURRENT \<or> e_version eh \<noteq> M11_EV_CURRENT then M11_ERR_VERSION
     else M11_OK)"

definition m11_validate_phdr_bounds :: "m11_elf64_ehdr \<Rightarrow> u64 \<Rightarrow> int" where
  "m11_validate_phdr_bounds eh image_size =
    (if e_phnum eh = 0 then M11_ERR_PHBOUNDS
     else if unat (e_phentsize eh) \<noteq> sizeof_phdr then M11_ERR_PHENTSIZE
     else
       let ph_table_bytes = (ucast (e_phentsize eh) :: u64) * ucast (e_phnum eh) in
       if e_phnum eh \<noteq> 0 \<and> ph_table_bytes div ucast (e_phnum eh) \<noteq> ucast (e_phentsize eh) then M11_ERR_PHBOUNDS
       else case m11_add_overflow_u64 (e_phoff eh) ph_table_bytes of
         None \<Rightarrow> M11_ERR_PHBOUNDS
       | Some ph_end \<Rightarrow>
           if ph_end > image_size \<or> e_phoff eh > image_size then M11_ERR_PHBOUNDS else M11_OK)"

definition m11_validate_load_segment :: "m11_elf64_phdr \<Rightarrow> u64 \<Rightarrow> m11_user_region \<Rightarrow> int" where
  "m11_validate_load_segment ph image_size region =
    (if p_flags ph AND NOT (M11_PF_R OR M11_PF_W OR M11_PF_X) \<noteq> 0 then M11_ERR_FLAGS
     else if p_flags ph AND M11_PF_W \<noteq> 0 \<and> p_flags ph AND M11_PF_X \<noteq> 0 then M11_ERR_FLAGS
     else if p_memsz ph < p_filesz ph then M11_ERR_SEGBOUNDS
     else if p_align ph \<noteq> 0 \<and> p_align ph \<noteq> 1 \<and> \<not> m11_is_power_of_two_u64 (p_align ph) then M11_ERR_ALIGN
     else if p_align ph \<noteq> 0 \<and> p_align ph \<noteq> 1 \<and> p_vaddr ph mod p_align ph \<noteq> p_offset ph mod p_align ph then M11_ERR_ALIGN
     else case m11_add_overflow_u64 (p_offset ph) (p_filesz ph) of
       None \<Rightarrow> M11_ERR_SEGBOUNDS
     | Some file_end \<Rightarrow>
         if file_end > image_size \<or> p_offset ph > image_size then M11_ERR_SEGBOUNDS
         else m11_validate_user_range region (p_vaddr ph) (p_memsz ph))"

section \<open>The plan\<close>

definition m11_segment :: "m11_elf64_phdr \<Rightarrow> m11_segment_plan" where
  "m11_segment ph = \<lparr>sp_file_offset = p_offset ph, sp_vaddr = p_vaddr ph, sp_filesz = p_filesz ph,
     sp_memsz = p_memsz ph, sp_align = p_align ph, sp_flags = p_flags ph\<rparr>"

text \<open>The loop over the program headers from number \<open>i\<close> on; \<open>k\<close> headers are left.\<close>

fun m11_plan_loop ::
  "bytes \<Rightarrow> u64 \<Rightarrow> m11_user_region \<Rightarrow> nat \<Rightarrow> nat \<Rightarrow> nat \<Rightarrow> m11_process_image_plan \<Rightarrow> (int \<times> m11_process_image_plan) option"
where
  "m11_plan_loop img image_size region phoff i 0 plan = Some (M11_OK, plan)"
| "m11_plan_loop img image_size region phoff i (Suc k) plan =
    (case read_struct sizeof_phdr phdr_of img (phoff + sizeof_phdr * i) of
       None \<Rightarrow> None
     | Some ph \<Rightarrow>
         if p_type ph \<noteq> M11_PT_LOAD then m11_plan_loop img image_size region phoff (Suc i) k plan
         else if unat (pl_segment_count plan) \<ge> M11_MAX_LOAD_SEGMENTS then Some (M11_ERR_SEGCOUNT, m11_zero_plan plan)
         else
           let rc = m11_validate_load_segment ph image_size region in
           if rc \<noteq> M11_OK then Some (rc, m11_zero_plan plan)
           else m11_plan_loop img image_size region phoff (Suc i) k
             (plan\<lparr>pl_segments := (pl_segments plan)[unat (pl_segment_count plan) := m11_segment ph],
                   pl_segment_count := pl_segment_count plan + 1\<rparr>))"

definition m11_elf64_plan_load ::
  "bytes option \<Rightarrow> u64 \<Rightarrow> m11_user_region \<Rightarrow> m11_process_image_plan option \<Rightarrow> (int \<times> m11_process_image_plan option) option"
where
  "m11_elf64_plan_load img image_size region out_plan =
    (case (img, out_plan) of
       (Some img, Some plan) \<Rightarrow>
         let plan = m11_zero_plan plan in
         if unat image_size < sizeof_ehdr then Some (M11_ERR_SIZE, Some plan)
         else
           (case read_struct sizeof_ehdr ehdr_of img 0 of
              None \<Rightarrow> None
            | Some eh \<Rightarrow>
                let rc = m11_validate_ident eh in
                if rc \<noteq> M11_OK then Some (rc, Some plan)
                else if e_type eh \<noteq> M11_ET_EXEC \<and> e_type eh \<noteq> M11_ET_DYN then Some (M11_ERR_TYPE, Some plan)
                else if e_machine eh \<noteq> M11_EM_X86_64 then Some (M11_ERR_MACHINE, Some plan)
                else if unat (e_ehsize eh) \<noteq> sizeof_ehdr then Some (M11_ERR_EHSIZE, Some plan)
                else
                  let rc = m11_validate_phdr_bounds eh image_size in
                  if rc \<noteq> M11_OK then Some (rc, Some plan)
                  else if m11_validate_user_range region (e_entry eh) 1 \<noteq> M11_OK then Some (M11_ERR_ENTRY, Some plan)
                  else
                    (case m11_plan_loop img image_size region (unat (e_phoff eh)) 0 (unat (e_phnum eh))
                            (plan\<lparr>pl_entry := e_entry eh\<rparr>) of
                       None \<Rightarrow> None
                     | Some (rc, plan) \<Rightarrow>
                         if rc \<noteq> M11_OK then Some (rc, Some plan)
                         else if pl_segment_count plan = 0 then Some (M11_ERR_SEGCOUNT, Some plan)
                         else Some (M11_OK, Some plan)))
     | _ \<Rightarrow> Some (M11_ERR_NULL, out_plan))"

definition m11_error_name :: "int \<Rightarrow> string" where
  "m11_error_name code = (
     if code = M11_OK then ''M11_OK'' else
     if code = M11_ERR_NULL then ''M11_ERR_NULL'' else
     if code = M11_ERR_SIZE then ''M11_ERR_SIZE'' else
     if code = M11_ERR_MAGIC then ''M11_ERR_MAGIC'' else
     if code = M11_ERR_CLASS then ''M11_ERR_CLASS'' else
     if code = M11_ERR_ENDIAN then ''M11_ERR_ENDIAN'' else
     if code = M11_ERR_VERSION then ''M11_ERR_VERSION'' else
     if code = M11_ERR_TYPE then ''M11_ERR_TYPE'' else
     if code = M11_ERR_MACHINE then ''M11_ERR_MACHINE'' else
     if code = M11_ERR_EHSIZE then ''M11_ERR_EHSIZE'' else
     if code = M11_ERR_PHENTSIZE then ''M11_ERR_PHENTSIZE'' else
     if code = M11_ERR_PHBOUNDS then ''M11_ERR_PHBOUNDS'' else
     if code = M11_ERR_ALIGN then ''M11_ERR_ALIGN'' else
     if code = M11_ERR_SEGBOUNDS then ''M11_ERR_SEGBOUNDS'' else
     if code = M11_ERR_SEGRANGE then ''M11_ERR_SEGRANGE'' else
     if code = M11_ERR_SEGCOUNT then ''M11_ERR_SEGCOUNT'' else
     if code = M11_ERR_ENTRY then ''M11_ERR_ENTRY'' else
     if code = M11_ERR_FLAGS then ''M11_ERR_FLAGS'' else
     ''M11_ERR_UNKNOWN'')"

end
