(* ===== verification/Elf_Correct.thy ===== *)
theory Elf_Correct
  imports Elf
begin

text \<open>
  The loader accepts exactly the images that can be loaded safely. What that means is stated in numbers
  that do not wrap: segments inside the file and inside the user region, no segment both writable and
  executable.
\<close>

section \<open>Structures and their bytes\<close>

interpretation ehdr: struct_layout sizeof_ehdr ehdr_bytes ehdr_of "\<lambda>h. length (e_ident h) = 16"
proof
  show "length (ehdr_bytes h) = sizeof_ehdr" if "length (e_ident h) = 16" for h
    using that by (simp add: ehdr_bytes_def sizeof_ehdr_def layout)
  show "ehdr_of (ehdr_bytes h) = h" if "length (e_ident h) = 16" for h
  proof -
    have "rd8s (ehdr_bytes h) 0 16 = e_ident h"
      using that by (auto simp: rd8s_def ehdr_bytes_def nth_append intro: nth_equalityI)
    with that show ?thesis
      by (simp add: ehdr_of_def) (simp add: ehdr_bytes_def layout)
  qed
  show "length (e_ident (ehdr_of b)) = 16" for b
    by (simp add: ehdr_of_def layout)
qed

interpretation phdr: struct_layout sizeof_phdr phdr_bytes phdr_of "\<lambda>_. True"
  by unfold_locales (simp_all add: phdr_bytes_def phdr_of_def sizeof_phdr_def layout)

section \<open>The checks in numbers\<close>

lemma unat_u64: "unat (x :: u64) < 2 ^ 64"
  using unsigned_less [of x] by simp

definition in_region :: "m11_user_region \<Rightarrow> nat \<Rightarrow> nat \<Rightarrow> bool" where
  "in_region region a n \<longleftrightarrow> 0 < n \<and> unat (r_base region) \<le> a \<and> a + n \<le> unat (r_limit region)"

text \<open>A segment that may be loaded: \<open>0\<close>, \<open>1\<close>, \<open>2\<close>, \<open>4\<close>, \<open>5\<close> and \<open>6\<close> are the permissions that are not both writable and executable.\<close>

definition segment_ok :: "nat \<Rightarrow> m11_user_region \<Rightarrow> m11_elf64_phdr \<Rightarrow> bool" where
  "segment_ok n region ph \<longleftrightarrow>
     unat (p_flags ph) \<in> {0, 1, 2, 4, 5, 6} \<and>
     unat (p_filesz ph) \<le> unat (p_memsz ph) \<and> unat (p_offset ph) + unat (p_filesz ph) \<le> n \<and>
     in_region region (unat (p_vaddr ph)) (unat (p_memsz ph)) \<and>
     (p_align ph = 0 \<or>
       (\<exists>k. unat (p_align ph) = 2 ^ k \<and> unat (p_vaddr ph) mod 2 ^ k = unat (p_offset ph) mod 2 ^ k))"

lemma add_overflow_nat:
  "m11_add_overflow_u64 a b = (if unat a + unat b < 2 ^ 64 then Some (a + b) else None)"
proof -
  have "unat (a + b) = unat a + unat b - (if unat a + unat b < 2 ^ 64 then 0 else 2 ^ 64)"
    using unat_u64 [of a] unat_u64 [of b] by (simp add: unat_word_ariths mod_if)
  then have "a + b < a \<longleftrightarrow> \<not> unat a + unat b < 2 ^ 64"
    using unat_u64 [of b] unat_u64 [of a] by (auto simp: word_less_nat_alt)
  then show ?thesis
    by (simp add: m11_add_overflow_u64_def Let_def)
qed

lemma user_range_iff:
  "m11_validate_user_range region base n = M11_OK \<longleftrightarrow> in_region region (unat base) (unat n)"
proof -
  have s: "unat (base + n) = unat base + unat n" if "unat base + unat n < 2 ^ 64"
    using that by (intro unat_add_nowrap) simp
  have n0: "n = 0 \<longleftrightarrow> unat n = 0"
    by (simp add: unat_eq_0)
  show ?thesis
    using s unat_u64 [of "r_limit region"]
    by (auto simp: m11_validate_user_range_def add_overflow_nat in_region_def word_less_nat_alt word_le_nat_alt n0
        M11_OK_def M11_ERR_SEGRANGE_def)
qed

lemma power_of_two_iff: "m11_is_power_of_two_u64 v \<longleftrightarrow> (\<exists>k. unat v = 2 ^ k)"
proof
  assume "\<exists>k. unat v = 2 ^ k"
  then obtain k where k: "unat v = 2 ^ k" ..
  then have "(2 :: nat) ^ k < 2 ^ 64"
    using unat_u64 [of v] by simp
  then have k64: "k < 64"
    using power_less_imp_less_exp [of 2 k 64] by simp
  have "of_nat (unat v) = (2 ^ k :: u64)"
    by (simp add: k)
  then have v: "v = 2 ^ k"
    by simp
  have "v - 1 = mask k"
    by (simp add: v mask_eq_exp_minus_1)
  moreover have "(2 :: u64) ^ k AND mask k = 0"
    by (rule bit_word_eqI) (auto simp: bit_simps)
  ultimately show "m11_is_power_of_two_u64 v"
    using k k64 by (auto simp: m11_is_power_of_two_u64_def v)
next
  assume "m11_is_power_of_two_u64 v"
  then have v: "v \<noteq> 0" "v AND (v - 1) = 0"
    by (simp_all add: m11_is_power_of_two_u64_def)
  then have pos: "0 < unat v"
    by (simp add: unat_gt_0)
  obtain k where k: "2 ^ k \<le> unat v" "unat v < 2 ^ Suc k"
    using ex_power_ivl1 [of 2 "unat v"] pos by auto
  have top: "bit x k" if "2 ^ k \<le> unat x" "unat x < 2 ^ Suc k" for x :: u64
  proof -
    have "unat x div 2 ^ k = 1"
      using that by (simp add: div_nat_eqI)
    then have "unat (drop_bit k x) = unat (1 :: u64)"
      by (simp add: unat_drop_bit_div)
    then have "drop_bit k x = 1"
      by (rule unsigned_word_eqI)
    then show ?thesis
      by (simp add: bit_iff_odd_drop_bit)
  qed
  show "\<exists>k. unat v = 2 ^ k"
  proof (rule ccontr)
    assume "\<not> ?thesis"
    then have "2 ^ k < unat v"
      using k(1) by (metis le_neq_implies_less)
    moreover have "unat (v - 1) = unat v - 1"
      using v(1) by (simp add: unat_minus_one)
    ultimately have "bit (v - 1) k" "bit v k"
      using top k by simp_all
    then have "bit (v AND (v - 1)) k"
      by (simp add: bit_and_iff)
    with v(2) show False
      by simp
  qed
qed

lemma flags_iff:
  "f AND NOT (M11_PF_R OR M11_PF_W OR M11_PF_X) = 0 \<and> \<not> (f AND M11_PF_W \<noteq> 0 \<and> f AND M11_PF_X \<noteq> 0) \<longleftrightarrow>
   unat f \<in> {0, 1, 2, 4, 5, 6}"
proof -
  have m: "M11_PF_R OR M11_PF_W OR M11_PF_X = (mask 3 :: u32)"
    by (simp add: M11_PF_R_def M11_PF_W_def M11_PF_X_def mask_eq_exp_minus_1)
  have "f AND NOT (mask 3) = 0 \<longleftrightarrow> unat (f AND NOT (mask 3)) = 0"
    by (simp add: unat_eq_0)
  also have "\<dots> \<longleftrightarrow> unat f < 8"
    by (simp add: unat_and_not_mask div_eq_0_iff)
  finally have small: "f AND NOT (M11_PF_R OR M11_PF_W OR M11_PF_X) = 0 \<longleftrightarrow> unat f < 8"
    by (simp only: m)
  show ?thesis
  proof (cases "unat f < 8")
    case True
    then have "unat f \<in> {0, 1, 2, 3, 4, 5, 6, 7}"
      by auto
    then have "f \<in> of_nat ` {0, 1, 2, 3, 4, 5, 6, 7}"
      by (intro image_eqI [of _ _ "unat f"]) simp_all
    then have "f \<in> {0, 1, 2, 3, 4, 5, 6, 7}"
      by simp
    with small True show ?thesis
      by (auto simp: M11_PF_W_def M11_PF_X_def)
  next
    case False
    with small show ?thesis
      by auto
  qed
qed

lemma align_iff:
  "\<not> (a \<noteq> 0 \<and> a \<noteq> 1 \<and> \<not> m11_is_power_of_two_u64 a) \<and> \<not> (a \<noteq> 0 \<and> a \<noteq> 1 \<and> v mod a \<noteq> f mod a) \<longleftrightarrow>
   a = 0 \<or> (\<exists>k. unat a = 2 ^ k \<and> unat v mod 2 ^ k = unat f mod 2 ^ k)"
proof -
  have m: "v mod a = f mod a \<longleftrightarrow> unat v mod unat a = unat f mod unat a"
    by (metis unat_mod_distrib word_eq_iff_unsigned)
  show ?thesis
  proof (cases "a = 1")
    case True
    then have "unat a = 2 ^ 0"
      by simp
    with True show ?thesis
      by (metis mod_by_1 power_0)
  next
    case False
    then show ?thesis
      using m power_of_two_iff [of a] by (metis (no_types, lifting))
  qed
qed

lemma load_segment_iff:
  "m11_validate_load_segment ph n region = M11_OK \<longleftrightarrow> segment_ok (unat n) region ph"
proof -
  have fit: "(case m11_add_overflow_u64 (p_offset ph) (p_filesz ph) of None \<Rightarrow> M11_ERR_SEGBOUNDS
      | Some file_end \<Rightarrow> if file_end > n \<or> p_offset ph > n then M11_ERR_SEGBOUNDS
          else m11_validate_user_range region (p_vaddr ph) (p_memsz ph)) = M11_OK \<longleftrightarrow>
    unat (p_offset ph) + unat (p_filesz ph) \<le> unat n \<and> in_region region (unat (p_vaddr ph)) (unat (p_memsz ph))"
    using unat_add_nowrap [of "p_offset ph" "p_filesz ph"] unat_u64 [of n]
    by (auto simp: add_overflow_nat word_less_nat_alt M11_OK_def M11_ERR_SEGBOUNDS_def
        simp flip: user_range_iff)
  show ?thesis
    unfolding segment_ok_def flags_iff [symmetric] align_iff [of "p_align ph" "p_vaddr ph" "p_offset ph", symmetric]
      m11_validate_load_segment_def
    using fit by (auto simp: word_less_nat_alt M11_OK_def M11_ERR_FLAGS_def M11_ERR_SEGBOUNDS_def M11_ERR_ALIGN_def)
qed

lemma phdr_bounds_iff:
  "m11_validate_phdr_bounds eh n = M11_OK \<longleftrightarrow>
   0 < unat (e_phnum eh) \<and> unat (e_phentsize eh) = sizeof_phdr \<and>
   unat (e_phoff eh) + sizeof_phdr * unat (e_phnum eh) \<le> unat n"
proof (cases "e_phnum eh \<noteq> 0 \<and> unat (e_phentsize eh) = sizeof_phdr")
  case True
  let ?t = "(ucast (e_phentsize eh) :: u64) * ucast (e_phnum eh)"
  have num: "unat (e_phnum eh) < 2 ^ 16" "0 < unat (e_phnum eh)"
    using unsigned_less [of "e_phnum eh"] True by (simp_all add: unat_gt_0)
  have up: "unat (ucast x :: u64) = unat x" for x :: u16
    by (rule unat_ucast_up) simp
  have t: "unat ?t = sizeof_phdr * unat (e_phnum eh)"
    using True num by (subst unat_mult_nowrap) (simp_all add: up sizeof_phdr_def)
  have "unat (?t div ucast (e_phnum eh)) = unat (ucast (e_phentsize eh) :: u64)"
    using True num(2) by (simp add: unat_div_distrib t up)
  then have d: "?t div ucast (e_phnum eh) = ucast (e_phentsize eh)"
    by (rule unsigned_word_eqI)
  show ?thesis
    using True num(2) unat_add_nowrap [of "e_phoff eh" ?t] unat_u64 [of n]
    by (auto simp: m11_validate_phdr_bounds_def Let_def d add_overflow_nat word_less_nat_alt t
        M11_OK_def M11_ERR_PHBOUNDS_def)
qed (auto simp: m11_validate_phdr_bounds_def M11_OK_def M11_ERR_PHBOUNDS_def M11_ERR_PHENTSIZE_def unat_eq_0)

section \<open>The plan\<close>

definition phdr_at :: "bytes \<Rightarrow> nat \<Rightarrow> nat \<Rightarrow> m11_elf64_phdr" where
  "phdr_at img phoff i = phdr_of (slice (phoff + sizeof_phdr * i) sizeof_phdr img)"

definition loads :: "bytes \<Rightarrow> nat \<Rightarrow> nat \<Rightarrow> nat \<Rightarrow> m11_elf64_phdr list" where
  "loads img phoff i j = filter (\<lambda>ph. p_type ph = M11_PT_LOAD) (map (phdr_at img phoff) [i..<j])"

lemma zero_plan_fields: "pl_segment_count (m11_zero_plan p) = 0"
  "length (pl_segments (m11_zero_plan p)) = length (pl_segments p)"
proof -
  have "length (fold (\<lambda>i segs. segs[i := z]) is segs) = length segs" for z and segs :: "m11_segment_plan list" and "is"
    by (induction "is" arbitrary: segs) simp_all
  then show "pl_segment_count (m11_zero_plan p) = 0" "length (pl_segments (m11_zero_plan p)) = length (pl_segments p)"
    by (simp_all add: m11_zero_plan_def)
qed

text \<open>The result of planning the segments \<open>L\<close> behind those of \<open>plan\<close>.\<close>

definition plan_result ::
  "nat \<Rightarrow> m11_user_region \<Rightarrow> m11_process_image_plan \<Rightarrow> m11_elf64_phdr list \<Rightarrow> int \<Rightarrow> m11_process_image_plan \<Rightarrow> bool"
where
  "plan_result n region plan L rc plan' \<longleftrightarrow>
    (let c = unat (pl_segment_count plan) in
     if c + length L \<le> 8 \<and> list_all (segment_ok n region) L
     then rc = M11_OK \<and> pl_entry plan' = pl_entry plan \<and> unat (pl_segment_count plan') = c + length L \<and>
       take (c + length L) (pl_segments plan') = take c (pl_segments plan) @ map m11_segment L
     else rc \<noteq> M11_OK \<and> pl_segment_count plan' = 0)"

lemma plan_loop_result:
  assumes "length (pl_segments plan) = 8" and "unat (pl_segment_count plan) \<le> 8"
    and "phoff + sizeof_phdr * (i + k) \<le> length img"
  shows "\<exists>rc plan'. m11_plan_loop img n region phoff i k plan = Some (rc, plan') \<and>
    plan_result (unat n) region plan (loads img phoff i (i + k)) rc plan'"
  using assms
proof (induction k arbitrary: i plan)
  case 0
  then show ?case
    by (simp add: loads_def plan_result_def)
next
  case (Suc k)
  let ?ph = "phdr_at img phoff i" and ?c = "unat (pl_segment_count plan)" and ?L = "loads img phoff (Suc i) (Suc i + k)"
  have rd: "read_struct sizeof_phdr phdr_of img (phoff + sizeof_phdr * i) = Some ?ph"
    using Suc.prems(3) by (simp add: read_struct_def phdr_at_def sizeof_phdr_def)
  have upt: "[i..<i + Suc k] = i # [Suc i..<Suc i + k]"
    by (simp add: upt_conv_Cons del: upt_Suc)
  have L: "loads img phoff i (i + Suc k) = (if p_type ?ph = M11_PT_LOAD then [?ph] else []) @ ?L"
    unfolding loads_def upt by simp
  have bound: "phoff + sizeof_phdr * (Suc i + k) \<le> length img"
    using Suc.prems(3) by simp
  consider (skip) "p_type ?ph \<noteq> M11_PT_LOAD" | (full) "p_type ?ph = M11_PT_LOAD" "8 \<le> ?c"
    | (bad) "p_type ?ph = M11_PT_LOAD" "?c < 8" "\<not> segment_ok (unat n) region ?ph"
    | (good) "p_type ?ph = M11_PT_LOAD" "?c < 8" "segment_ok (unat n) region ?ph"
    by linarith
  then show ?case
  proof cases
    case skip
    then have "m11_plan_loop img n region phoff i (Suc k) plan = m11_plan_loop img n region phoff (Suc i) k plan"
      by (simp add: rd)
    then show ?thesis
      using Suc.IH [OF Suc.prems(1,2) bound] skip unfolding L by simp
  next
    case full
    then show ?thesis
      unfolding L
      by (simp add: rd plan_result_def M11_MAX_LOAD_SEGMENTS_def zero_plan_fields M11_OK_def M11_ERR_SEGCOUNT_def)
  next
    case bad
    then show ?thesis
      using load_segment_iff [of ?ph n region] unfolding L
      by (simp add: rd plan_result_def M11_MAX_LOAD_SEGMENTS_def zero_plan_fields)
  next
    case good
    let ?p = "plan\<lparr>pl_segments := (pl_segments plan)[?c := m11_segment ?ph], pl_segment_count := pl_segment_count plan + 1\<rparr>"
    have c: "unat (pl_segment_count plan + 1) = Suc ?c"
      using good(2) by (subst unat_add_nowrap) simp_all
    have t: "take (Suc ?c) ((pl_segments plan)[?c := m11_segment ?ph]) = take ?c (pl_segments plan) @ [m11_segment ?ph]"
      using good(2) Suc.prems(1) by (simp add: take_Suc_conv_app_nth)
    have run: "m11_plan_loop img n region phoff i (Suc k) plan = m11_plan_loop img n region phoff (Suc i) k ?p"
      using good load_segment_iff [of ?ph n region] by (simp add: rd M11_MAX_LOAD_SEGMENTS_def)
    have "length (pl_segments ?p) = 8" "unat (pl_segment_count ?p) \<le> 8"
      using Suc.prems(1) good(2) c by simp_all
    note Suc.IH [OF this bound]
    moreover have "plan_result (unat n) region plan (?ph # ?L) rc plan'" if "plan_result (unat n) region ?p ?L rc plan'" for rc plan'
      using that good(3) t by (auto simp: plan_result_def Let_def c split: if_splits)
    ultimately show ?thesis
      using good(1) unfolding L run by auto
  qed
qed

text \<open>The images that can be loaded.\<close>

definition image_header :: "bytes \<Rightarrow> m11_elf64_ehdr" where
  "image_header img = ehdr_of (take 64 img)"

definition image_loads :: "bytes \<Rightarrow> m11_elf64_phdr list" where
  "image_loads img = loads img (unat (e_phoff (image_header img))) 0 (unat (e_phnum (image_header img)))"

definition header_ok :: "nat \<Rightarrow> m11_user_region \<Rightarrow> m11_elf64_ehdr \<Rightarrow> bool" where
  "header_ok n region eh \<longleftrightarrow> take 7 (e_ident eh) = [0x7F, 0x45, 0x4C, 0x46, 2, 1, 1] \<and> e_version eh = 1 \<and>
     e_type eh \<in> {2, 3} \<and> e_machine eh = 62 \<and> e_ehsize eh = 64 \<and> e_phentsize eh = 56 \<and> 0 < unat (e_phnum eh) \<and>
     unat (e_phoff eh) + 56 * unat (e_phnum eh) \<le> n \<and> in_region region (unat (e_entry eh)) 1"

definition image_ok :: "bytes \<Rightarrow> m11_user_region \<Rightarrow> bool" where
  "image_ok img region \<longleftrightarrow> 64 \<le> length img \<and> header_ok (length img) region (image_header img) \<and>
     0 < length (image_loads img) \<and> length (image_loads img) \<le> 8 \<and>
     list_all (segment_ok (length img) region) (image_loads img)"

lemma ident_iff:
  assumes "length (e_ident eh) = 16"
  shows "m11_validate_ident eh = M11_OK \<longleftrightarrow>
    take 7 (e_ident eh) = [0x7F, 0x45, 0x4C, 0x46, 2, 1, 1] \<and> e_version eh = 1"
proof -
  have v: "ucast x = (1 :: u32) \<longleftrightarrow> x = 1" for x :: u8
  proof
    assume "ucast x = (1 :: u32)"
    then have "unat (ucast x :: u32) = 1"
      by simp
    then have "unat x = unat (1 :: u8)"
      by (simp add: unat_ucast_up)
    then show "x = 1"
      by (rule unsigned_word_eqI)
  qed simp
  have "take 7 (e_ident eh) = map ((!) (e_ident eh)) [0, 1, 2, 3, 4, 5, 6]"
    using assms by (intro nth_equalityI) (auto simp: less_Suc_eq numeral_eq_Suc)
  then show ?thesis
    by (auto simp: m11_validate_ident_def v M11_ELFMAG0_def M11_ELFMAG1_def M11_ELFMAG2_def M11_ELFMAG3_def
        M11_ELFCLASS64_def M11_ELFDATA2LSB_def M11_EV_CURRENT_def
        M11_OK_def M11_ERR_MAGIC_def M11_ERR_CLASS_def M11_ERR_ENDIAN_def M11_ERR_VERSION_def)
qed

lemma header_iff:
  assumes "length (e_ident eh) = 16"
  shows "m11_validate_ident eh = M11_OK \<and> (e_type eh = M11_ET_EXEC \<or> e_type eh = M11_ET_DYN) \<and> e_machine eh = M11_EM_X86_64 \<and>
    unat (e_ehsize eh) = sizeof_ehdr \<and> m11_validate_phdr_bounds eh n = M11_OK \<and>
    m11_validate_user_range region (e_entry eh) 1 = M11_OK \<longleftrightarrow> header_ok (unat n) region eh"
proof -
  have w: "unat x = unat y \<longleftrightarrow> x = y" for x y :: u16
    by (auto intro: unsigned_word_eqI)
  have "unat (e_ehsize eh) = sizeof_ehdr \<longleftrightarrow> e_ehsize eh = 64" "unat (e_phentsize eh) = sizeof_phdr \<longleftrightarrow> e_phentsize eh = 56"
    using w [of "e_ehsize eh" 64] w [of "e_phentsize eh" 56] by (simp_all add: sizeof_ehdr_def sizeof_phdr_def)
  then show ?thesis
    unfolding header_ok_def ident_iff [OF assms] phdr_bounds_iff user_range_iff
    by (auto simp: M11_ET_EXEC_def M11_ET_DYN_def M11_EM_X86_64_def sizeof_phdr_def)
qed

lemma plan_load_cases:
  assumes img: "length img = unat image_size" and out: "length (pl_segments out_plan) = 8"
  obtains (header) rc plan where "m11_elf64_plan_load (Some img) image_size region (Some out_plan) = Some (rc, Some plan)"
      "rc \<noteq> M11_OK" "pl_segment_count plan = 0" "\<not> (64 \<le> length img \<and> header_ok (length img) region (image_header img))"
  | (loop) "64 \<le> length img" "header_ok (length img) region (image_header img)"
      "m11_elf64_plan_load (Some img) image_size region (Some out_plan) =
        (case m11_plan_loop img image_size region (unat (e_phoff (image_header img))) 0 (unat (e_phnum (image_header img)))
                (m11_zero_plan out_plan\<lparr>pl_entry := e_entry (image_header img)\<rparr>) of
           None \<Rightarrow> None
         | Some (rc, plan) \<Rightarrow>
             if rc \<noteq> M11_OK then Some (rc, Some plan)
             else if pl_segment_count plan = 0 then Some (M11_ERR_SEGCOUNT, Some plan)
             else Some (M11_OK, Some plan))"
proof (cases "64 \<le> length img")
  case False
  then have "m11_elf64_plan_load (Some img) image_size region (Some out_plan) = Some (M11_ERR_SIZE, Some (m11_zero_plan out_plan))"
    using img by (simp add: m11_elf64_plan_load_def sizeof_ehdr_def)
  then show ?thesis
    using header False by (simp add: zero_plan_fields M11_OK_def M11_ERR_SIZE_def)
next
  case True
  let ?eh = "image_header img"
  have rd: "read_struct sizeof_ehdr ehdr_of img 0 = Some ?eh"
    using True by (simp add: read_struct_def sizeof_ehdr_def image_header_def slice_def)
  have id: "length (e_ident ?eh) = 16"
    by (simp add: image_header_def ehdr.decode_ok)
  have size: "\<not> unat image_size < sizeof_ehdr"
    using True img by (simp add: sizeof_ehdr_def)
  note h = header_iff [OF id, of image_size region, folded img]
  show ?thesis
  proof (cases "header_ok (length img) region ?eh")
    case ok: True
    show ?thesis
      using h ok by (intro loop) (auto simp: True m11_elf64_plan_load_def rd size)
  next
    case bad: False
    have "\<exists>rc. m11_elf64_plan_load (Some img) image_size region (Some out_plan) = Some (rc, Some (m11_zero_plan out_plan)) \<and> rc \<noteq> M11_OK"
      using h bad
      by (auto simp: m11_elf64_plan_load_def rd size Let_def M11_OK_def M11_ERR_TYPE_def M11_ERR_MACHINE_def
          M11_ERR_EHSIZE_def M11_ERR_ENTRY_def)
    then show ?thesis
      using header bad by (auto simp: zero_plan_fields)
  qed
qed

text \<open>
  Property C11. \<^verbatim>\<open>m11_elf64_plan_load\<close> never reads outside the image, whatever its bytes are. It returns \<open>M11_OK\<close>
  exactly for the images that can be loaded: a 64-bit x86-64 program with its program headers inside the file
  and between one and eight loadable segments, each of which lies inside the file and inside the user region,
  is not both writable and executable and has matching alignment. The plan then has the entry point and these
  segments, in the order of the file; otherwise it has no segment.
\<close>

theorem m11_plan_load_exact:
  assumes img: "length img = unat image_size" and plan: "length (pl_segments out_plan) = 8"
  shows "\<exists>rc plan. m11_elf64_plan_load (Some img) image_size region (Some out_plan) = Some (rc, Some plan) \<and>
    (if image_ok img region
     then rc = M11_OK \<and> pl_entry plan = e_entry (image_header img) \<and>
       unat (pl_segment_count plan) = length (image_loads img) \<and>
       take (length (image_loads img)) (pl_segments plan) = map m11_segment (image_loads img)
     else rc \<noteq> M11_OK \<and> pl_segment_count plan = 0)"
  using img plan
proof (cases rule: plan_load_cases [where region = region])
  case (header rc plan)
  then show ?thesis
    by (auto simp: image_ok_def)
next
  case loop
  let ?eh = "image_header img" and ?p = "m11_zero_plan out_plan\<lparr>pl_entry := e_entry (image_header img)\<rparr>"
  have p: "length (pl_segments ?p) = 8" "pl_segment_count ?p = 0" "pl_entry ?p = e_entry ?eh"
    using plan by (simp_all add: zero_plan_fields)
  have fit: "unat (e_phoff ?eh) + sizeof_phdr * (0 + unat (e_phnum ?eh)) \<le> length img"
    using loop(2) by (simp add: header_ok_def sizeof_phdr_def)
  obtain rc plan' where run: "m11_plan_loop img image_size region (unat (e_phoff ?eh)) 0 (unat (e_phnum ?eh)) ?p = Some (rc, plan')"
    "plan_result (length img) region ?p (image_loads img) rc plan'"
    using plan_loop_result [OF p(1) _ fit, of image_size region] p(2) by (auto simp: img image_loads_def)
  show ?thesis
  proof (cases "length (image_loads img) \<le> 8 \<and> list_all (segment_ok (length img) region) (image_loads img)")
    case True
    with run(2) p have r: "rc = M11_OK" "pl_entry plan' = e_entry ?eh" "unat (pl_segment_count plan') = length (image_loads img)"
      "take (length (image_loads img)) (pl_segments plan') = map m11_segment (image_loads img)"
      by (simp_all add: plan_result_def)
    have "pl_segment_count plan' = 0 \<longleftrightarrow> length (image_loads img) = 0"
      using r(3) by (metis unat_eq_0)
    with True r loop(1,2) show ?thesis
      by (simp add: loop(3) run(1) image_ok_def M11_OK_def M11_ERR_SEGCOUNT_def)
  next
    case False
    with run(2) p have "rc \<noteq> M11_OK" "pl_segment_count plan' = 0"
      by (simp_all add: plan_result_def split: if_splits)
    with False show ?thesis
      by (auto simp: loop(3) run(1) image_ok_def)
  qed
qed

text \<open>
  The image of \<^verbatim>\<open>m11_elf_smoke_test\<close> in \<^verbatim>\<open>src/kernel/core/kmain.c\<close>: its entry point is the start of the second
  segment, which is not executable, and it is accepted.
\<close>

definition smoke_header :: m11_elf64_ehdr where
  "smoke_header = \<lparr>e_ident = [0x7F, 0x45, 0x4C, 0x46, 2, 1, 1] @ replicate 9 0, e_type = 2, e_machine = 62, e_version = 1,
     e_entry = 0x401000, e_phoff = 64, e_shoff = 0, e_flags = 0, e_ehsize = 64, e_phentsize = 56, e_phnum = 2,
     e_shentsize = 0, e_shnum = 0, e_shstrndx = 0\<rparr>"

definition smoke_text :: m11_elf64_phdr where
  "smoke_text = \<lparr>p_type = 1, p_flags = 5, p_offset = 0x1000, p_vaddr = 0x400000, p_paddr = 0, p_filesz = 16,
     p_memsz = 4096, p_align = 4096\<rparr>"

definition smoke_data :: m11_elf64_phdr where
  "smoke_data = \<lparr>p_type = 1, p_flags = 6, p_offset = 0x2000, p_vaddr = 0x401000, p_paddr = 0, p_filesz = 8,
     p_memsz = 4096, p_align = 4096\<rparr>"

definition smoke_image :: bytes where
  "smoke_image = ehdr_bytes smoke_header @ phdr_bytes smoke_text @ phdr_bytes smoke_data @ replicate 12112 0"

definition smoke_region :: m11_user_region where
  "smoke_region = \<lparr>r_base = 0x400000, r_limit = 0x8000000000\<rparr>"

lemma smoke_lengths: "length (ehdr_bytes smoke_header) = 64" "length (phdr_bytes ph) = 56" "length smoke_image = 12288"
  using ehdr.length_encode [of smoke_header] phdr.length_encode
  by (simp_all add: smoke_image_def smoke_header_def sizeof_ehdr_def sizeof_phdr_def)

lemma smoke_parts: "image_header smoke_image = smoke_header" "image_loads smoke_image = [smoke_text, smoke_data]"
proof -
  have "take 64 smoke_image = ehdr_bytes smoke_header"
    by (simp add: smoke_image_def smoke_lengths)
  then show h: "image_header smoke_image = smoke_header"
    using ehdr.decode_encode [of smoke_header] by (simp add: image_header_def smoke_header_def)
  have "slice 64 56 smoke_image = phdr_bytes smoke_text" "slice 120 56 smoke_image = phdr_bytes smoke_data"
    by (simp_all add: slice_def smoke_image_def smoke_lengths)
  then have "phdr_at smoke_image 64 0 = smoke_text" "phdr_at smoke_image 64 1 = smoke_data"
    by (simp_all add: phdr_at_def sizeof_phdr_def phdr.decode_encode)
  moreover have "[0..<2] = [0, Suc 0]"
    by (simp add: upt_rec)
  ultimately show "image_loads smoke_image = [smoke_text, smoke_data]"
    unfolding image_loads_def h by (simp add: loads_def smoke_header_def smoke_text_def smoke_data_def M11_PT_LOAD_def)
qed

lemma smoke_ok: "image_ok smoke_image smoke_region"
proof -
  have "segment_ok 12288 smoke_region smoke_text" "segment_ok 12288 smoke_region smoke_data"
    by (auto simp: segment_ok_def in_region_def smoke_region_def smoke_text_def smoke_data_def intro!: exI [of _ 12])
  moreover have "header_ok 12288 smoke_region smoke_header"
    by (simp add: header_ok_def in_region_def smoke_header_def smoke_region_def)
  ultimately show ?thesis
    by (simp add: image_ok_def smoke_parts smoke_lengths)
qed

theorem m11_plan_load_exact_witness:
  "\<exists>plan. m11_elf64_plan_load (Some smoke_image) 12288 smoke_region (Some \<lparr>pl_entry = 0, pl_segment_count = 0, pl_segments = replicate 8 m11_zero_segment\<rparr>) =
      Some (M11_OK, Some plan) \<and>
    pl_entry plan = sp_vaddr (m11_segment smoke_data) \<and> sp_flags (m11_segment smoke_data) AND M11_PF_X = 0 \<and>
    take 2 (pl_segments plan) = [m11_segment smoke_text, m11_segment smoke_data]"
proof -
  have "length smoke_image = unat (12288 :: u64)"
    by (simp add: smoke_lengths)
  from m11_plan_load_exact [OF this, of "\<lparr>pl_entry = 0, pl_segment_count = 0, pl_segments = replicate 8 m11_zero_segment\<rparr>" smoke_region]
  show ?thesis
    by (auto simp: smoke_ok smoke_parts smoke_header_def m11_segment_def smoke_data_def M11_PF_X_def numeral_2_eq_2)
qed

end
