(* ===== verification/Syscall.thy ===== *)
theory Syscall
  imports Ram
begin

text \<open>
  The system call layer: \<^verbatim>\<open>src/kernel/syscall/syscall.c\<close> and \<^verbatim>\<open>src/include/mcsos/syscall.h\<close>. The operations that the
  kernel registers with it are functions on the state \<open>'w\<close> of the rest of the kernel; \<open>None\<close> is a NULL
  function pointer. Pointers are addresses, 0 for NULL.
\<close>

section \<open>Data\<close>

definition MCSOS_SYS_PING :: u64 where "MCSOS_SYS_PING = 0"
definition MCSOS_SYS_GET_TICKS :: u64 where "MCSOS_SYS_GET_TICKS = 1"
definition MCSOS_SYS_WRITE_SERIAL :: u64 where "MCSOS_SYS_WRITE_SERIAL = 2"
definition MCSOS_SYS_YIELD :: u64 where "MCSOS_SYS_YIELD = 3"
definition MCSOS_SYS_EXIT_THREAD :: u64 where "MCSOS_SYS_EXIT_THREAD = 4"
definition MCSOS_SYS_MAX :: u64 where "MCSOS_SYS_MAX = 5"

definition MCSOS_OK :: int where "MCSOS_OK = 0"
definition MCSOS_EINVAL :: int where "MCSOS_EINVAL = - 22"
definition MCSOS_ENOSYS :: int where "MCSOS_ENOSYS = - 38"
definition MCSOS_EFAULT :: int where "MCSOS_EFAULT = - 14"
definition MCSOS_EBUSY :: int where "MCSOS_EBUSY = - 16"

record mcsos_syscall_frame =
  fr_nr :: u64
  fr_arg0 :: u64
  fr_arg1 :: u64
  fr_arg2 :: u64
  fr_arg3 :: u64
  fr_arg4 :: u64
  fr_arg5 :: u64
  fr_ret :: int

record mcsos_user_region =
  ur_base :: u64
  ur_limit :: u64

record 'w mcsos_syscall_ops =
  op_get_ticks :: "('w \<Rightarrow> u64 \<times> 'w) option"
  op_yield_current :: "('w \<Rightarrow> 'w) option"
  op_exit_current :: "(int \<Rightarrow> 'w \<Rightarrow> 'w) option"
  op_write_serial :: "(u64 \<Rightarrow> u64 \<Rightarrow> 'w \<Rightarrow> int \<times> 'w) option"

text \<open>The variables \<^verbatim>\<open>g_ops\<close> and \<^verbatim>\<open>g_user_region\<close>.\<close>

record 'w syscall_globals =
  g_ops :: "'w mcsos_syscall_ops"
  g_user_region :: mcsos_user_region

section \<open>Set up\<close>

definition default_write_serial :: "u64 \<Rightarrow> u64 \<Rightarrow> 'w \<Rightarrow> int \<times> 'w" where
  "default_write_serial buf len w = (sint len, w)"

definition or_else :: "'a option \<Rightarrow> 'a option \<Rightarrow> 'a option" where
  "or_else x y = (case x of None \<Rightarrow> y | Some _ \<Rightarrow> x)"

definition mcsos_syscall_init :: "'w mcsos_syscall_ops option \<Rightarrow> 'w syscall_globals \<Rightarrow> 'w syscall_globals" where
  "mcsos_syscall_init ops g =
    (let d = \<lparr>op_get_ticks = None, op_yield_current = None, op_exit_current = None, op_write_serial = Some default_write_serial\<rparr> in
     g\<lparr>g_ops := (case ops of None \<Rightarrow> d | Some ops \<Rightarrow>
       \<lparr>op_get_ticks = or_else (op_get_ticks ops) (op_get_ticks d),
        op_yield_current = or_else (op_yield_current ops) (op_yield_current d),
        op_exit_current = or_else (op_exit_current ops) (op_exit_current d),
        op_write_serial = or_else (op_write_serial ops) (op_write_serial d)\<rparr>)\<rparr>)"

definition mcsos_syscall_set_user_region :: "mcsos_user_region \<Rightarrow> 'w syscall_globals \<Rightarrow> 'w syscall_globals" where
  "mcsos_syscall_set_user_region region g = g\<lparr>g_user_region := region\<rparr>"

section \<open>User memory\<close>

definition mcsos_user_check_range :: "mcsos_user_region \<Rightarrow> u64 \<Rightarrow> u64 \<Rightarrow> bool" where
  "mcsos_user_check_range r addr len =
    (if len = 0 then True
     else if ur_base r = 0 \<or> ur_limit r \<le> ur_base r then False
     else if addr < ur_base r then False
     else if addr > ur_limit r then False
     else
       let last = addr + len - 1 in
       if last < addr then False
       else if last \<ge> ur_limit r then False
       else True)"

text \<open>The loop of \<^verbatim>\<open>mcsos_copy_from_user\<close>, byte by byte.\<close>

definition copy_user_loop :: "u64 \<Rightarrow> u64 \<Rightarrow> nat \<Rightarrow> ram \<Rightarrow> ram" where
  "copy_user_loop dst src n m = fold (\<lambda>i m. m(dst + of_nat i := m (src + of_nat i))) [0..<n] m"

definition mcsos_copy_from_user :: "mcsos_user_region \<Rightarrow> u64 \<Rightarrow> u64 \<Rightarrow> u64 \<Rightarrow> ram \<Rightarrow> int \<times> ram" where
  "mcsos_copy_from_user r dst src len m =
    (if len = 0 then (MCSOS_OK, m)
     else if dst = 0 \<or> src = 0 then (MCSOS_EINVAL, m)
     else if \<not> mcsos_user_check_range r src len then (MCSOS_EFAULT, m)
     else (MCSOS_OK, copy_user_loop dst src (unat len) m))"

section \<open>The system calls\<close>

text \<open>
  Results are the values of \<^verbatim>\<open>int64_t\<close>. A call of \<^verbatim>\<open>write_serial\<close> through a NULL pointer is \<open>None\<close>: the table entry is
  NULL until \<^verbatim>\<open>mcsos_syscall_init\<close> has run.
\<close>

definition sys_ping :: "'w \<Rightarrow> int \<times> 'w" where
  "sys_ping w = (0x2605020A, w)"

definition sys_get_ticks :: "'w syscall_globals \<Rightarrow> 'w \<Rightarrow> int \<times> 'w" where
  "sys_get_ticks g w = (case op_get_ticks (g_ops g) of
     None \<Rightarrow> (MCSOS_EBUSY, w)
   | Some f \<Rightarrow> let (t, w) = f w in (sint t, w))"

definition sys_write_serial :: "'w syscall_globals \<Rightarrow> u64 \<Rightarrow> u64 \<Rightarrow> 'w \<Rightarrow> (int \<times> 'w) option" where
  "sys_write_serial g ptr len w =
    (if ptr = 0 then Some (MCSOS_EINVAL, w)
     else if len > 4096 then Some (MCSOS_EINVAL, w)
     else if \<not> mcsos_user_check_range (g_user_region g) ptr len then Some (MCSOS_EFAULT, w)
     else map_option (\<lambda>f. f ptr len w) (op_write_serial (g_ops g)))"

definition sys_yield :: "'w syscall_globals \<Rightarrow> 'w \<Rightarrow> int \<times> 'w" where
  "sys_yield g w = (case op_yield_current (g_ops g) of
     None \<Rightarrow> (MCSOS_EBUSY, w)
   | Some f \<Rightarrow> (MCSOS_OK, f w))"

definition sys_exit_thread :: "'w syscall_globals \<Rightarrow> u64 \<Rightarrow> 'w \<Rightarrow> int \<times> 'w" where
  "sys_exit_thread g code w = (case op_exit_current (g_ops g) of
     None \<Rightarrow> (MCSOS_EBUSY, w)
   | Some f \<Rightarrow> (MCSOS_OK, f (sint (ucast code :: u32)) w))"

text \<open>The table \<^verbatim>\<open>g_table\<close>, applied to the first two arguments; the handlers ignore the others.\<close>

definition g_table :: "('w syscall_globals \<Rightarrow> u64 \<Rightarrow> u64 \<Rightarrow> 'w \<Rightarrow> (int \<times> 'w) option) option list" where
  "g_table = [Some (\<lambda>g a0 a1 w. Some (sys_ping w)), Some (\<lambda>g a0 a1 w. Some (sys_get_ticks g w)), Some sys_write_serial,
     Some (\<lambda>g a0 a1 w. Some (sys_yield g w)), Some (\<lambda>g a0 a1 w. Some (sys_exit_thread g a0 w))]"

definition mcsos_syscall_dispatch ::
  "'w syscall_globals \<Rightarrow> u64 \<Rightarrow> u64 \<Rightarrow> u64 \<Rightarrow> u64 \<Rightarrow> u64 \<Rightarrow> u64 \<Rightarrow> u64 \<Rightarrow> 'w \<Rightarrow> (int \<times> 'w) option" where
  "mcsos_syscall_dispatch g nr arg0 arg1 arg2 arg3 arg4 arg5 w =
    (if nr \<ge> MCSOS_SYS_MAX then Some (MCSOS_ENOSYS, w)
     else case g_table ! unat nr of
       None \<Rightarrow> Some (MCSOS_ENOSYS, w)
     | Some fn \<Rightarrow> fn g arg0 arg1 w)"

definition mcsos_syscall_dispatch_frame ::
  "'w syscall_globals \<Rightarrow> mcsos_syscall_frame option \<Rightarrow> 'w \<Rightarrow> (mcsos_syscall_frame option \<times> 'w) option" where
  "mcsos_syscall_dispatch_frame g frame w = (case frame of
     None \<Rightarrow> Some (None, w)
   | Some f \<Rightarrow>
       map_option (\<lambda>(r, w). (Some (f\<lparr>fr_ret := r\<rparr>), w))
         (mcsos_syscall_dispatch g (fr_nr f) (fr_arg0 f) (fr_arg1 f) (fr_arg2 f) (fr_arg3 f) (fr_arg4 f) (fr_arg5 f) w))"

end
