(* ===== verification/Syscall_Correct.thy ===== *)
theory Syscall_Correct
  imports Syscall
begin

text \<open>
  The system calls give user programs no access to memory outside the user region: ranges are checked
  without wrap-around, and every system call has an exact result.
\<close>

definition user_range :: "mcsos_user_region \<Rightarrow> nat \<Rightarrow> nat \<Rightarrow> bool" where
  "user_range r a n \<longleftrightarrow> n = 0 \<or> 0 < unat (ur_base r) \<and> unat (ur_base r) \<le> a \<and> a + n \<le> unat (ur_limit r)"

lemma check_range_iff: "mcsos_user_check_range r addr len \<longleftrightarrow> user_range r (unat addr) (unat len)"
proof (cases "len = 0")
  case False
  then have len: "0 < unat len"
    by (simp add: unat_gt_0)
  have bounds: "unat addr < 2 ^ 64" "unat len < 2 ^ 64" "unat (ur_limit r) < 2 ^ 64"
    using unsigned_less [of addr] unsigned_less [of len] unsigned_less [of "ur_limit r"] by simp_all
  have l1: "unat (len - 1) = unat len - 1"
    using False by (simp add: unat_minus_one)
  have "unat (addr + (len - 1)) = (unat addr + (unat len - 1)) mod 2 ^ 64"
    by (simp add: unat_word_ariths l1)
  also have "\<dots> = unat addr + (unat len - 1) - (if unat addr + unat len \<le> 2 ^ 64 then 0 else 2 ^ 64)"
    using bounds len by (simp add: mod_if)
  finally have last: "unat (addr + len - 1) = unat addr + (unat len - 1) - (if unat addr + unat len \<le> 2 ^ 64 then 0 else 2 ^ 64)"
    by (simp add: add_diff_eq)
  have "ur_base r = 0 \<longleftrightarrow> unat (ur_base r) = 0"
    by (simp add: unat_eq_0)
  then show ?thesis
    using False len last bounds
    by (auto simp: mcsos_user_check_range_def user_range_def Let_def word_less_nat_alt word_le_nat_alt split: if_splits)
qed (simp add: mcsos_user_check_range_def user_range_def)

section \<open>Dispatch\<close>

text \<open>
  Property C20. After set-up with the operations \<open>ops\<close> and the user region \<open>r\<close>, every system call returns, and its
  result is as follows. Unknown numbers give \<open>MCSOS_ENOSYS\<close>; a missing operation gives \<open>MCSOS_EBUSY\<close>; output is passed
  on only if it is a buffer of at most 4096 bytes inside the user region, in numbers that do not wrap, and is
  otherwise refused without any effect.
\<close>

theorem syscall_dispatch_exact:
  "mcsos_syscall_dispatch_frame (mcsos_syscall_set_user_region r (mcsos_syscall_init (Some ops) g)) (Some f) w =
    (let (ret, w') =
       (if unat (fr_nr f) = 0 then (0x2605020A, w)
        else if unat (fr_nr f) = 1 then
          (case op_get_ticks ops of None \<Rightarrow> (MCSOS_EBUSY, w) | Some get_ticks \<Rightarrow> map_prod sint id (get_ticks w))
        else if unat (fr_nr f) = 2 then
          (if fr_arg0 f = 0 \<or> 4096 < unat (fr_arg1 f) then (MCSOS_EINVAL, w)
           else if \<not> user_range r (unat (fr_arg0 f)) (unat (fr_arg1 f)) then (MCSOS_EFAULT, w)
           else case op_write_serial ops of
             None \<Rightarrow> (int (unat (fr_arg1 f)), w)
           | Some write_serial \<Rightarrow> write_serial (fr_arg0 f) (fr_arg1 f) w)
        else if unat (fr_nr f) = 3 then
          (case op_yield_current ops of None \<Rightarrow> (MCSOS_EBUSY, w) | Some yield_current \<Rightarrow> (MCSOS_OK, yield_current w))
        else if unat (fr_nr f) = 4 then
          (case op_exit_current ops of None \<Rightarrow> (MCSOS_EBUSY, w)
           | Some exit_current \<Rightarrow> (MCSOS_OK, exit_current (sint (ucast (fr_arg0 f) :: u32)) w))
        else (MCSOS_ENOSYS, w))
     in Some (Some (f\<lparr>fr_ret := ret\<rparr>), w'))"
proof -
  let ?g = "mcsos_syscall_set_user_region r (mcsos_syscall_init (Some ops) g)"
  have small: "sint len = int (unat len)" if "unat len \<le> 4096" for len :: u64
    using that sint_small [of len] by simp
  have ops: "op_get_ticks (g_ops ?g) = op_get_ticks ops" "op_yield_current (g_ops ?g) = op_yield_current ops"
    "op_exit_current (g_ops ?g) = op_exit_current ops" "g_user_region ?g = r"
    "op_write_serial (g_ops ?g) = Some (case op_write_serial ops of None \<Rightarrow> default_write_serial | Some h \<Rightarrow> h)"
    by (simp_all add: mcsos_syscall_set_user_region_def mcsos_syscall_init_def or_else_def Let_def split: option.split)
  have wr: "sys_write_serial ?g a n w =
    Some (if a = 0 \<or> 4096 < unat n then (MCSOS_EINVAL, w)
      else if \<not> user_range r (unat a) (unat n) then (MCSOS_EFAULT, w)
      else case op_write_serial ops of None \<Rightarrow> (int (unat n), w) | Some h \<Rightarrow> h a n w)" for a n
    by (simp add: sys_write_serial_def ops check_range_iff word_less_nat_alt default_write_serial_def small split: option.split)
  consider "unat (fr_nr f) = 0" | "unat (fr_nr f) = 1" | "unat (fr_nr f) = 2" | "unat (fr_nr f) = 3"
    | "unat (fr_nr f) = 4" | "5 \<le> unat (fr_nr f)"
    by linarith
  then show ?thesis
    by cases (simp_all add: mcsos_syscall_dispatch_frame_def mcsos_syscall_dispatch_def g_table_def MCSOS_SYS_MAX_def
        word_le_nat_alt wr sys_ping_def sys_get_ticks_def sys_yield_def sys_exit_thread_def ops
        split: option.split prod.split)
qed

section \<open>Copying from user memory\<close>

lemma copy_user_loop:
  assumes "dst = src \<or> n \<le> unat (dst - src)" and "n < 2 ^ 64"
  shows "copy_user_loop dst src n m = (\<lambda>x. if unat (x - dst) < n then m (src + (x - dst)) else m x)"
  using assms
proof (induction n)
  case 0
  then show ?case
    by (simp add: copy_user_loop_def)
next
  case (Suc n)
  let ?m = "\<lambda>x. if unat (x - dst) < n then m (src + (x - dst)) else m x"
  have n: "unat (of_nat n :: u64) = n"
    using Suc.prems(2) by (simp add: unat_of_nat_small)
  have src: "?m (src + of_nat n) = m (src + of_nat n)"
  proof (cases "dst = src")
    case False
    have "\<not> unat (src + of_nat n - dst) < n"
    proof
      assume j: "unat (src + of_nat n - dst) < n"
      have "dst - src = of_nat n - (src + of_nat n - dst)"
        by simp
      then have "unat (dst - src) = n - unat (src + of_nat n - dst)"
        using j n by (metis less_imp_le unat_sub word_le_nat_alt)
      then show False
        using Suc.prems(1) False by simp
    qed
    then show ?thesis
      by simp
  qed simp
  have eq: "x = dst + of_nat n \<longleftrightarrow> unat (x - dst) = n" for x
  proof
    assume "unat (x - dst) = n"
    then have "x - dst = of_nat n"
      by (metis n unsigned_word_eqI)
    then show "x = dst + of_nat n"
      by (metis add.commute diff_add_cancel)
  qed (simp add: n)
  have "copy_user_loop dst src (Suc n) m = (copy_user_loop dst src n m)(dst + of_nat n := copy_user_loop dst src n m (src + of_nat n))"
    by (simp add: copy_user_loop_def)
  also have "\<dots> = ?m(dst + of_nat n := m (src + of_nat n))"
  proof -
    have "copy_user_loop dst src n m = ?m"
      using Suc.prems by (intro Suc.IH) auto
    then show ?thesis
      using src by simp
  qed
  also have "\<dots> = (\<lambda>x. if unat (x - dst) < Suc n then m (src + (x - dst)) else m x)"
  proof
    fix x
    show "(?m(dst + of_nat n := m (src + of_nat n))) x = (if unat (x - dst) < Suc n then m (src + (x - dst)) else m x)"
      using eq [of x] by (cases "x = dst + of_nat n") (simp_all add: n less_Suc_eq)
  qed
  finally show ?case .
qed

text \<open>
  Property C19. \<^verbatim>\<open>mcsos_copy_from_user\<close> copies exactly the requested bytes, and only from the user region. A source that
  does not lie wholly in the region, in numbers that do not wrap, is refused and nothing is written; no byte outside
  the destination changes. The destination may overlap the source if it does not start inside it.
\<close>

theorem copy_from_user_exact:
  assumes overlap: "dst = src \<or> unat len \<le> unat (dst - src)"
    and c: "mcsos_copy_from_user r dst src len m = (ret, m')"
  shows "(ret = MCSOS_OK \<longleftrightarrow> len = 0 \<or> dst \<noteq> 0 \<and> src \<noteq> 0 \<and> user_range r (unat src) (unat len)) \<and>
    (if ret = MCSOS_OK then ld_bytes m' dst (unat len) = ld_bytes m src (unat len) else m' = m) \<and>
    (\<forall>x. unat len \<le> unat (x - dst) \<longrightarrow> m' x = m x)"
proof -
  have "unat len < 2 ^ 64"
    using unsigned_less [of len] by simp
  note loop = copy_user_loop [OF overlap this, of m]
  have i: "unat (of_nat i :: u64) < unat len" if "i < unat len" for i
    using that \<open>unat len < 2 ^ 64\<close> by (simp add: unat_of_nat_small)
  show ?thesis
  proof (cases "len \<noteq> 0 \<and> dst \<noteq> 0 \<and> src \<noteq> 0 \<and> user_range r (unat src) (unat len)")
    case True
    then have "ret = MCSOS_OK" "m' = (\<lambda>x. if unat (x - dst) < unat len then m (src + (x - dst)) else m x)"
      using c by (auto simp: mcsos_copy_from_user_def check_range_iff loop)
    then show ?thesis
      using True i by (simp add: ld_bytes_def)
  next
    case False
    then show ?thesis
      using c by (auto simp: mcsos_copy_from_user_def check_range_iff ld_bytes_def MCSOS_OK_def MCSOS_EINVAL_def MCSOS_EFAULT_def
          split: if_splits)
  qed
qed

theorem copy_from_user_exact_witness:
  "fst (mcsos_copy_from_user \<lparr>ur_base = 0x1000, ur_limit = 0x2000\<rparr> 0x8000 0x1FF0 16 (\<lambda>x. ucast x)) = MCSOS_OK \<and>
   ld_bytes (snd (mcsos_copy_from_user \<lparr>ur_base = 0x1000, ur_limit = 0x2000\<rparr> 0x8000 0x1FF0 16 (\<lambda>x. ucast x))) 0x8000 16 =
    ld_bytes (\<lambda>x. ucast x) 0x1FF0 16"
  using copy_from_user_exact [of "0x8000" "0x1FF0" 16 "\<lparr>ur_base = 0x1000, ur_limit = 0x2000\<rparr>" "\<lambda>x. ucast x", OF _ surjective_pairing]
  by (auto simp: user_range_def)

end
