(* ===== verification/Spec2Isabelle.thy ===== *)
theory Spec2Isabelle
  imports Pmm Sched_Correct Sync_Correct Block_Correct Journal_Files Vmm_Correct Kmem_Correct Vfs_Correct Elf_Correct Syscall_Correct
begin

text \<open>
  Verification of MCSOS, a small x86-64 teaching kernel written in C (sources under \<^verbatim>\<open>src/\<close>).

  \<^bold>\<open>The program.\<close> \<^verbatim>\<open>kmain\<close> (\<^verbatim>\<open>src/kernel/core/kmain.c\<close>) starts the parts of the kernel one after the
  other: the physical memory manager hands out 4 KiB frames; the virtual memory manager builds page tables in
  such frames; the heap divides a fixed region into objects; the cooperative scheduler switches between kernel
  threads; locks protect shared data; the system call layer checks what user programs ask for; the ELF loader plans
  how a user program is laid out in memory; an in-memory file system with file descriptors, a block layer with a RAM
  disk and a cache, and a journalling file system store files. The virtual memory manager uses the physical one through
  callbacks, the cache uses the block layer, and the system calls reach the scheduler and the serial port through callbacks that
  \<^verbatim>\<open>kmain.c\<close> registers; the other parts do not call each other.

  \<^bold>\<open>How C is modelled.\<close> Unsigned integers are words of their width, so that arithmetic wraps as in the
  sources. A structure is a record. A pointer is an address (0 for NULL), an index, or an option where the code only tests it
  against NULL; where aliasing matters, objects live in stores indexed by address (\<^verbatim>\<open>Sched\<close>, \<^verbatim>\<open>Block\<close>, \<^verbatim>\<open>Vmm\<close>)
  or in memory addressed by the byte (\<^verbatim>\<open>Ram\<close>, \<^verbatim>\<open>Kmem\<close>). Structures that the code reads from raw bytes go through
  their byte layout (\<^verbatim>\<open>Layout\<close>). A function that returns a status and changes an object is a program in the
  sense of \<^verbatim>\<open>Prog\<close>: an early return keeps the changes made so far. A loop that need not end is a
  partial function, with \<^verbatim>\<open>None\<close> for a call that does not return; no model uses fuel. The loops are shown to return under the
  invariants stated in the theorems, or, where the code can loop for ever, that is a theorem.

  \<^bold>\<open>The theories.\<close>

  \<^item> \<^verbatim>\<open>Prelude\<close>, \<^verbatim>\<open>Bitmap\<close>, \<^verbatim>\<open>Linked\<close>, \<^verbatim>\<open>Layout\<close>, \<^verbatim>\<open>Prog\<close>, \<^verbatim>\<open>Ram\<close>: shared vocabulary. \<^verbatim>\<open>step_invariant\<close> is the
    contract of an invariant of a step relation, \<^verbatim>\<open>bitmap_ops\<close> that of a bit array in bytes, \<^verbatim>\<open>struct_layout\<close> that of a structure
    and its bytes.

  \<^item> \<^verbatim>\<open>Pmm\<close> models \<^verbatim>\<open>src/src/pmm.c\<close>: one definition per function, \<^verbatim>\<open>pmm_state\<close> for \<^verbatim>\<open>struct pmm_state\<close>. Initialisation frees
    exactly the usable frames if no region reaches into the last page of the address space; allocation returns the lowest
    free frame; call sequences never hand out a frame twice. In the last page the rounding wraps: a
    reservation there has no effect, and a usable region there frees all memory.

  \<^item> \<^verbatim>\<open>Vmm\<close> models \<^verbatim>\<open>src/src/vmm.c\<close> and the callbacks of \<^verbatim>\<open>kmain.c\<close> that connect it to the physical memory manager.
    \<^verbatim>\<open>Vmm_Correct\<close> shows over the contract \<^verbatim>\<open>frame_source\<close>, which the physical memory manager meets, that the page tables
    are a tree of distinct frames on which map, unmap and query implement a partial map, and that no page is ever
    accessible in user mode.

  \<^item> \<^verbatim>\<open>Kmem\<close> models \<^verbatim>\<open>src/kernel/mm/kmem.c\<close> on bytes. \<^verbatim>\<open>Kmem_Correct\<close> shows that the heap refines a map from pointers to objects,
    that a second release is refused, when an allocation succeeds, and that initialisation gives an empty heap. Clients use
    only their own objects. The region has at most 64 MB: then it never has more than the 1048576 blocks after which
    \<^verbatim>\<open>kmem_validate\<close> gives up.

  \<^item> \<^verbatim>\<open>Sched\<close> models \<^verbatim>\<open>src/kernel/mcsos_thread.c\<close> and \<^verbatim>\<open>src/arch/x86_64/context_switch.S\<close>; a yield is modelled up to the moment
    the next thread runs. \<^verbatim>\<open>Sched_Correct\<close> has the invariant over call sequences, the refinement of a round-robin list,
    fairness, the preserved contexts, the stack of a new thread, and the queue check. These rest on the caller contract
    \<^verbatim>\<open>calls_allowed\<close>, which the code does not check: no READY thread is enqueued again, no READY or RUNNING thread is
    prepared again. What happens otherwise is a theorem as well. The queue check returns only if the
    runnable count is below the last two 64-bit values.

  \<^item> \<^verbatim>\<open>Sync\<close> models \<^verbatim>\<open>src/kernel/sync/lockdep.c\<close>, \<^verbatim>\<open>spinlock.c\<close> and \<^verbatim>\<open>mutex.c\<close>, as functions and once more as interleaved atomic
    accesses of any number of threads. The interleaving is sequentially consistent: the memory orders that the sources ask for
    are not represented. \<^verbatim>\<open>Sync_Correct\<close> shows mutual exclusion, the exact result of every mutex call among
    other threads and undisturbed, and that threads which follow the lock order check, with one lock per class,
    never wait in a circle.

  \<^item> \<^verbatim>\<open>Block\<close> and \<^verbatim>\<open>Bcache\<close> model \<^verbatim>\<open>src/kernel/block/block.c\<close>, \<^verbatim>\<open>ramblk.c\<close> and \<^verbatim>\<open>bcache.c\<close>. \<^verbatim>\<open>Block_Correct\<close> shows that the bare and
    the cached disk meet the same contract \<^verbatim>\<open>block_store\<close>, so that the cache cannot be noticed by reads and by writes in range,
    status codes included; that requests outside a device are refused by the block layer; and that the cache accepts a write beyond the
    end, after which flushing fails for ever.

  \<^item> \<^verbatim>\<open>Journal\<close> models \<^verbatim>\<open>src/kernel/fs/mcsfs1j/m16_mcsfs_journal.c\<close> on the bytes of the disk, with the power failing at any block
    write. \<^verbatim>\<open>Journal_Correct\<close> shows that a commit is atomic, however often recovery is interrupted; \<^verbatim>\<open>Journal_Files\<close> that
    writing a file is crash safe, that files are read back, and that a formatted disk passes the check.

  \<^item> \<^verbatim>\<open>Vfs\<close> models \<^verbatim>\<open>src/kernel/vfs/ramfs.c\<close> and \<^verbatim>\<open>fd.c\<close>. \<^verbatim>\<open>Vfs_Correct\<close> shows that call sequences keep the extents of files apart
    and descriptors valid, that what is written is read back, and what creating a file changes. The undefined overflow in
    seeking is the result \<^verbatim>\<open>None\<close>.

  \<^item> \<^verbatim>\<open>Elf\<close> models \<^verbatim>\<open>src/kernel/user/m11_elf_loader.c\<close>. \<^verbatim>\<open>Elf_Correct\<close> shows that it never reads outside the image and accepts exactly the
    images that can be loaded.

  \<^item> \<^verbatim>\<open>Syscall\<close> models \<^verbatim>\<open>src/kernel/syscall/syscall.c\<close>; the operations that the kernel registers are arbitrary functions. \<^verbatim>\<open>Syscall_Correct\<close>
    has the exact result of every system call and of copying from user memory.

  \<^bold>\<open>Not modelled.\<close> The file system \<^verbatim>\<open>src/fs/mcsfs1/mcsfs1.c\<close>, which the kernel does not call and which has a disk format of
  its own. Descriptor tables, trap entry and dispatch (\<^verbatim>\<open>idt.c\<close>, \<^verbatim>\<open>isr.S\<close>, \<^verbatim>\<open>trap.c\<close>, \<^verbatim>\<open>syscall_entry.S\<close>), whose effect is defined by the processor.
  Port input and output (\<^verbatim>\<open>pic.c\<close>, \<^verbatim>\<open>pit.c\<close>, \<^verbatim>\<open>serial.c\<close>), logging and panic (\<^verbatim>\<open>log.c\<close>, \<^verbatim>\<open>panic.c\<close>). The copy functions of
  \<^verbatim>\<open>src/kernel/lib/memory.c\<close>; the modelled parts have their own. The start sequence and self tests in \<^verbatim>\<open>kmain.c\<close>
  and \<^verbatim>\<open>block_demo.c\<close>, the test hook \<^verbatim>\<open>sys_vfs.c\<close>, tests, and scripts.
\<close>

end
